(* ===== verification/Prelude.thy ===== *)
theory Prelude
  imports Main "HOL-Library.Word"
begin

text \<open>
  Shared ground of the development: the collections of rewrite rules that the component theories
  fill (\<open>promise_defs\<close>, \<open>store_simps\<close>, \<open>machine_simps\<close>), the names of the model's addresses, and
  generic facts on lists that are updated by index (the model keeps every object of the C++ heap
  in a list and uses the index as its address).
\<close>

named_theorems promise_defs \<open>unfolding rules of the type-level functions\<close>
named_theorems store_simps \<open>how the reads of the store commute with its writes\<close>
named_theorems machine_simps \<open>one-step equations of the machine\<close>

type_synonym pid = nat  \<comment> \<open>address of a details::Promise object\<close>
type_synonym rid = nat  \<comment> \<open>address of a Resolver object; also of the Resolve handle on it\<close>
type_synonym jid = nat  \<comment> \<open>address of a Reject handle\<close>
type_synonym tid = nat  \<comment> \<open>a thread\<close>

subsection \<open>Lists updated by index\<close>

definition upd_nth :: "nat \<Rightarrow> ('a \<Rightarrow> 'a) \<Rightarrow> 'a list \<Rightarrow> 'a list" where
  "upd_nth i f xs = xs[i := f (xs ! i)]"

lemma length_upd_nth [simp]: "length (upd_nth i f xs) = length xs"
  by (simp add: upd_nth_def)

lemma nth_upd_nth:
  "j < length xs \<Longrightarrow> upd_nth i f xs ! j = (if i = j then f (xs ! j) else xs ! j)"
  by (auto simp: upd_nth_def nth_list_update)

lemma nth_upd_nth_eq [simp]: "i < length xs \<Longrightarrow> upd_nth i f xs ! i = f (xs ! i)"
  by (simp add: upd_nth_def)

lemma nth_upd_nth_neq [simp]: "i \<noteq> j \<Longrightarrow> upd_nth i f xs ! j = xs ! j"
  by (simp add: upd_nth_def)

lemma upd_nth_append: "i < length xs \<Longrightarrow> upd_nth i f (xs @ ys) = upd_nth i f xs @ ys"
  by (simp add: upd_nth_def nth_append list_update_append1)

text \<open>A read that the update does not change commutes with it at every index.\<close>

lemma nth_upd_nth_same:
  "(\<And>x. g (f x) = g x) \<Longrightarrow> g (upd_nth i f xs ! j) = g (xs ! j)"
  by (cases "i = j"; cases "i < length xs") (auto simp: upd_nth_def list_update_beyond)

subsection \<open>Sums over lists\<close>

lemma sum_list_update_nat:
  fixes f :: "'a \<Rightarrow> nat"
  assumes "i < length xs"
  shows "sum_list (map f (xs[i := x])) + f (xs ! i) = sum_list (map f xs) + f x"
  using assms
proof (induction xs arbitrary: i)
  case Nil
  then show ?case by simp
next
  case (Cons y ys)
  then show ?case by (cases i) (auto simp: algebra_simps)
qed

lemma sum_list_upd_nth_same:
  fixes f :: "'a \<Rightarrow> nat"
  assumes "\<And>x. f (g x) = f x"
  shows "sum_list (map f (upd_nth i g xs)) = sum_list (map f xs)"
proof (cases "i < length xs")
  case True
  then show ?thesis
    using sum_list_update_nat [OF True, of f "g (xs ! i)"] assms by (simp add: upd_nth_def)
next
  case False
  then show ?thesis by (simp add: upd_nth_def list_update_beyond)
qed

lemma sum_list_map_eq_0_iff_nat:
  fixes f :: "'a \<Rightarrow> nat"
  shows "sum_list (map f xs) = 0 \<longleftrightarrow> (\<forall>x \<in> set xs. f x = 0)"
  by (induction xs) auto

lemma sum_list_member_le_nat:
  fixes f :: "'a \<Rightarrow> nat"
  shows "x \<in> set xs \<Longrightarrow> f x \<le> sum_list (map f xs)"
  by (induction xs) auto

text \<open>Two distinct positions both count.\<close>

lemma sum_list_two_le_nat:
  fixes f :: "'a \<Rightarrow> nat"
  assumes "i < length xs" "j < length xs" "i \<noteq> j"
  shows "f (xs ! i) + f (xs ! j) \<le> sum_list (map f xs)"
  using assms
proof (induction xs arbitrary: i j)
  case Nil
  then show ?case by simp
next
  case (Cons y ys)
  then show ?case
    by (cases i; cases j) (auto simp: sum_list_member_le_nat algebra_simps trans_le_add2)
qed

end
