(* ===== verification/Concepts.thy ===== *)
theory Concepts
  imports Prelude
begin

text \<open>
  The type-level half of the library: C++ types as data and the metafunctions of
  \<^verbatim>\<open>include/promise/core/concepts.inl\<close> (with the type computations of
  \<^verbatim>\<open>details/helpers.inl\<close>) as functions on them. A metafunction with no matching
  specialisation is a compile error; it is the value \<open>None\<close>. Names that end in an underscore in
  C++ (\<^verbatim>\<open>return_\<close>, \<^verbatim>\<open>args_\<close>) carry the suffix \<open>_of\<close>.
\<close>

subsection \<open>C++ types\<close>

datatype cty =
    TVoid
  | TBool
  | TInt
  | TString
  | TNamed string                \<comment> \<open>any other class or arithmetic type\<close>
  | TExceptionPtr                \<comment> \<open>std::exception_ptr\<close>
  | TCRef cty                    \<comment> \<open>T const\&\<close>
  | TTuple "cty list"
  | TVector cty
  | TOptional cty
  | TVariant "cty list"
  | TIPromise cty bool           \<comment> \<open>details::IPromise<T, WITH\_RESOLVER>\<close>
  | TWPromise cty                \<comment> \<open>details::WPromise<T>\<close>
  | TResolve cty                 \<comment> \<open>promise::Resolve<T>\<close>
  | TReject                      \<comment> \<open>promise::Reject\<close>
  | TFunction cty "cty list"     \<comment> \<open>std::function<R(ARGS...)>\<close>
  | TCallable cty "cty list"     \<comment> \<open>a lambda or functor from which std::function deduces R(ARGS...)\<close>

fun remove_cvref :: "cty \<Rightarrow> cty" where
  "remove_cvref (TCRef t) = t"
| "remove_cvref t = t"

definition is_void :: "cty \<Rightarrow> bool" where
  "is_void t \<longleftrightarrow> t = TVoid"

subsection \<open>Callables\<close>

fun IsFunction :: "cty \<Rightarrow> bool" where
  "IsFunction (TFunction r as) = True"
| "IsFunction t = False"

definition IS_FUNCTION :: "cty \<Rightarrow> bool" where
  "IS_FUNCTION t = IsFunction (remove_cvref t)"

fun function_constructible :: "cty \<Rightarrow> bool" where
  "function_constructible (TFunction r as) = True"
| "function_constructible (TCallable r as) = True"
| "function_constructible (TCRef t) = function_constructible t"
| "function_constructible t = False"

fun return_of :: "cty \<Rightarrow> cty option" where
  "return_of (TCallable r as) = Some r"
| "return_of (TFunction r as) = Some r"
| "return_of (TIPromise t w) = Some t"
| "return_of (TWPromise t) = Some t"
| "return_of t = None"

definition return_t :: "cty \<Rightarrow> cty option" where
  "return_t t = return_of (remove_cvref t)"

definition HasReturn :: "cty \<Rightarrow> bool" where
  "HasReturn t \<longleftrightarrow> return_of (remove_cvref t) \<noteq> None"

definition return_or_void_t :: "cty \<Rightarrow> cty" where
  "return_or_void_t t = (case return_t t of None \<Rightarrow> TVoid | Some r \<Rightarrow> r)"

subsection \<open>Resolvers, rejectors and promises\<close>

fun IsResolver :: "cty \<Rightarrow> bool" where
  "IsResolver (TResolve t) = True"
| "IsResolver t = False"

definition IS_RESOLVER :: "cty \<Rightarrow> bool" where
  "IS_RESOLVER t = IsResolver (remove_cvref t)"

definition IS_REJECTOR :: "cty \<Rightarrow> bool" where
  "IS_REJECTOR t \<longleftrightarrow> remove_cvref t = TReject"

fun WithResolver :: "cty \<Rightarrow> bool" where
  "WithResolver (TIPromise t True) = True"
| "WithResolver t = False"

definition WITH_RESOLVER :: "cty \<Rightarrow> bool option" where
  "WITH_RESOLVER t = map_option WithResolver (return_t t)"

fun ResolveType :: "cty \<Rightarrow> cty option" where
  "ResolveType (TResolve t) = Some t"
| "ResolveType t = None"

definition RESOLVE_TYPE :: "cty \<Rightarrow> cty option" where
  "RESOLVE_TYPE t = ResolveType (remove_cvref t)"

fun IsPromise :: "cty \<Rightarrow> bool" where
  "IsPromise (TIPromise t w) = True"
| "IsPromise (TWPromise t) = True"
| "IsPromise t = False"

fun IsWPromise :: "cty \<Rightarrow> bool" where
  "IsWPromise (TWPromise t) = True"
| "IsWPromise t = False"

definition IS_PROMISE :: "cty \<Rightarrow> bool" where
  "IS_PROMISE t = IsPromise (return_or_void_t t)"

definition IS_WPROMISE :: "cty \<Rightarrow> bool" where
  "IS_WPROMISE t = IsWPromise (remove_cvref t)"

definition IS_PROMISE_FUNCTION :: "cty \<Rightarrow> bool" where
  "IS_PROMISE_FUNCTION t \<longleftrightarrow>
     IsPromise (return_or_void_t t) \<and> \<not> IS_WPROMISE (return_or_void_t t)"

subsection \<open>Argument lists\<close>

fun all_args_of :: "cty \<Rightarrow> cty list option" where
  "all_args_of (TCallable r as) = Some as"
| "all_args_of (TFunction r as) = Some as"
| "all_args_of t = None"

definition all_args_t :: "cty \<Rightarrow> cty list option" where
  "all_args_t t = all_args_of (remove_cvref t)"

text \<open>The specialisations of \<^verbatim>\<open>args_\<close> on \<^verbatim>\<open>std::function<R(ARGS...)>\<close>.\<close>

fun fun_args :: "cty \<Rightarrow> cty list \<Rightarrow> cty list" where
  "fun_args r [] = []"
| "fun_args r [a] = (if WithResolver r \<and> IS_RESOLVER a then [] else [a])"
| "fun_args r (a # b # as) =
     (if \<not> WithResolver r then a # b # as
      else if IS_RESOLVER a \<and> IS_REJECTOR b then as
      else if IS_RESOLVER a then b # as
      else a # b # as)"

fun args_of :: "cty \<Rightarrow> cty list option" where
  "args_of (TCallable r as) = Some (fun_args r as)"
| "args_of (TFunction r as) = Some (fun_args r as)"
| "args_of t = None"

definition args_t :: "cty \<Rightarrow> cty list option" where
  "args_t t = args_of (remove_cvref t)"

text \<open>
  \<^verbatim>\<open>std::conditional_t\<close> names both of its branches, so \<^verbatim>\<open>RESOLVE_TYPE\<close> of the first
  argument must exist whenever there is a first argument.
\<close>

definition WReturn :: "cty \<Rightarrow> cty option" where
  "WReturn t =
     (case all_args_t t of
        None \<Rightarrow> None
      | Some [] \<Rightarrow> return_t t
      | Some (a # as) \<Rightarrow>
          (case RESOLVE_TYPE a of
             None \<Rightarrow> None
           | Some r \<Rightarrow> if IS_RESOLVER a then Some r else return_t t))"

subsection \<open>Result types of Then, Catch and Finally\<close>

text \<open>The value type a continuation contributes: \<open>T2\<close> of the chaining functions.\<close>

definition continuation_value :: "cty \<Rightarrow> cty option" where
  "continuation_value t =
     (if IS_PROMISE_FUNCTION t then map_option return_or_void_t (return_t t) else return_t t)"

definition ThenReturn :: "cty \<Rightarrow> cty option" where
  "ThenReturn f = map_option TWPromise (continuation_value f)"

definition CatchReturn2 :: "cty \<Rightarrow> cty \<Rightarrow> cty" where
  "CatchReturn2 t t2 =
     (if is_void t2 \<and> is_void t then TWPromise TVoid
      else if is_void t2 then TWPromise (TOptional t)
      else if is_void t then TWPromise (TOptional t2)
      else if t = t2 then TWPromise t2
      else TWPromise (TVariant [t2, t]))"

definition CatchReturn :: "cty \<Rightarrow> cty \<Rightarrow> cty option" where
  "CatchReturn t f = map_option (CatchReturn2 t) (continuation_value f)"

definition FinallyReturn :: "cty \<Rightarrow> cty" where
  "FinallyReturn t = TWPromise t"

definition cref_or_void_t :: "cty \<Rightarrow> cty" where
  "cref_or_void_t t = (if is_void t then TVoid else TCRef t)"

lemmas concept_defs [promise_defs] =
  is_void_def IS_FUNCTION_def return_t_def HasReturn_def return_or_void_t_def IS_RESOLVER_def
  IS_REJECTOR_def WITH_RESOLVER_def RESOLVE_TYPE_def IS_PROMISE_def IS_WPROMISE_def
  IS_PROMISE_FUNCTION_def all_args_t_def args_t_def WReturn_def continuation_value_def
  ThenReturn_def CatchReturn2_def CatchReturn_def FinallyReturn_def cref_or_void_t_def

subsection \<open>Type computations of the combinators (helpers.inl)\<close>

text \<open>\<^verbatim>\<open>All\<close> drops the slots of void promises from the tuple it returns.\<close>

definition all_return :: "cty list \<Rightarrow> cty" where
  "all_return ts = TTuple (concat (map (\<lambda>t. if is_void t then [] else [t]) ts))"

text \<open>\<^verbatim>\<open>All\<close> of a container of promises.\<close>

definition all_container_return :: "cty \<Rightarrow> cty" where
  "all_container_return t = (if is_void t then TVoid else TVector t)"

definition add_if_missing :: "cty \<Rightarrow> cty list \<Rightarrow> cty list" where
  "add_if_missing t us = (if t \<in> set us \<or> is_void t then us else us @ [t])"

fun UniqueVariantHelper :: "cty list \<Rightarrow> cty list \<Rightarrow> cty list" where
  "UniqueVariantHelper v [] = v"
| "UniqueVariantHelper v (t # ts) = UniqueVariantHelper (add_if_missing t v) ts"

definition unique_variant :: "cty list \<Rightarrow> cty list" where
  "unique_variant ts = UniqueVariantHelper [] ts"

text \<open>
  The value type of \<^verbatim>\<open>Race\<close>. \<open>None\<close> is the static assertion on an empty race: with no
  promise the fold over an empty pack makes \<^verbatim>\<open>IS_VOID\<close> true, but the public overload
  refuses the call first.
\<close>

definition RaceReturn :: "cty list \<Rightarrow> cty option" where
  "RaceReturn ts =
     (if ts = [] then None
      else if \<forall>t \<in> set ts. is_void t then Some TVoid
      else let alts = unique_variant ts in
        if \<exists>t \<in> set ts. is_void t then
          (case alts of [a] \<Rightarrow> Some (TOptional a) | _ \<Rightarrow> Some (TOptional (TVariant alts)))
        else (case alts of [a] \<Rightarrow> Some a | _ \<Rightarrow> Some (TVariant alts)))"

text \<open>
  Overload resolution of \<^verbatim>\<open>MakePromise\<close>: the three \<^verbatim>\<open>requires\<close> clauses, and the static
  assertion that \<^verbatim>\<open>CreateImpl\<close> makes on the callable the coroutine overload passes to it.
\<close>

datatype make_overload = MakeCoroutine | MakeDirect | MakeNormalise | NoOverload

definition MakePromise_overload :: "cty \<Rightarrow> make_overload" where
  "MakePromise_overload f =
     (if IS_FUNCTION f \<and> IS_PROMISE f \<and> \<not> IS_WPROMISE f then MakeCoroutine
      else if IS_FUNCTION f \<and> (\<not> IS_PROMISE f \<or> IS_WPROMISE f) then MakeDirect
      else if \<not> IS_FUNCTION f \<and> function_constructible f then MakeNormalise
      else NoOverload)"

definition CreateImpl_accepts :: "cty \<Rightarrow> bool" where
  "CreateImpl_accepts f \<longleftrightarrow>
     (\<not> function_constructible f \<or> IS_FUNCTION f) \<and> IS_PROMISE_FUNCTION f"

text \<open>The value type of the promise that the direct overload builds.\<close>

definition MakePromise_Return :: "cty \<Rightarrow> cty option" where
  "MakePromise_Return f =
     (case all_args_t f of
        None \<Rightarrow> None
      | Some [] \<Rightarrow> return_t f
      | Some (a # as) \<Rightarrow>
          (if IS_RESOLVER a
           then (case return_t f of
                   Some r \<Rightarrow> if is_void r then RESOLVE_TYPE a else None
                 | None \<Rightarrow> None)
           else return_t f))"

lemmas helper_type_defs [promise_defs] =
  all_return_def all_container_return_def add_if_missing_def unique_variant_def RaceReturn_def
  MakePromise_overload_def CreateImpl_accepts_def MakePromise_Return_def

subsection \<open>Facts on callables\<close>

lemma function_return [simp]:
  "return_t (TFunction r as) = Some r" "return_t (TCallable r as) = Some r"
  "return_t (TIPromise t w) = Some t" "return_t (TWPromise t) = Some t"
  by (simp_all add: return_t_def)

lemma promise_function_iff:
  "IS_PROMISE_FUNCTION (TFunction r as) \<longleftrightarrow> (\<exists>t w. r = TIPromise t w)"
  by (cases r) (auto simp: IS_PROMISE_FUNCTION_def return_or_void_t_def IS_WPROMISE_def)

lemma not_IS_WPROMISE_function [simp]: "IS_FUNCTION f \<Longrightarrow> \<not> IS_WPROMISE f"
  by (cases "remove_cvref f") (auto simp: IS_FUNCTION_def IS_WPROMISE_def)

lemma continuation_value_function:
  "continuation_value (TFunction r as) = Some (case r of TIPromise t w \<Rightarrow> t | _ \<Rightarrow> r)"
  by (cases r) (auto simp: continuation_value_def promise_function_iff return_or_void_t_def)

subsection \<open>Facts on the alternatives of a race\<close>

lemma set_UniqueVariantHelper:
  "set (UniqueVariantHelper v ts) = set v \<union> {t \<in> set ts. \<not> is_void t}"
  by (induction v ts rule: UniqueVariantHelper.induct) (auto simp: add_if_missing_def)

lemma distinct_UniqueVariantHelper: "distinct v \<Longrightarrow> distinct (UniqueVariantHelper v ts)"
  by (induction v ts rule: UniqueVariantHelper.induct) (auto simp: add_if_missing_def)

lemma set_unique_variant: "set (unique_variant ts) = {t \<in> set ts. \<not> is_void t}"
  by (simp add: unique_variant_def set_UniqueVariantHelper)

lemma distinct_unique_variant: "distinct (unique_variant ts)"
  by (simp add: unique_variant_def distinct_UniqueVariantHelper)

text \<open>
  The template recursion keeps the first occurrence of every type: it is the library function
  \<open>remdups\<close>, which keeps the last one, run on the reversed list.
\<close>

lemma rev_remdups_snoc:
  "rev (remdups (xs @ [t])) = t # filter (\<lambda>x. x \<noteq> t) (rev (remdups xs))"
  by (induction xs) auto

lemma UniqueVariantHelper_remdups:
  assumes "distinct v"
  shows "UniqueVariantHelper v ts =
     v @ filter (\<lambda>t. t \<notin> set v) (rev (remdups (rev (filter (\<lambda>t. \<not> is_void t) ts))))"
  using assms
proof (induction v ts rule: UniqueVariantHelper.induct)
  case (1 v)
  then show ?case by simp
next
  case (2 v t ts)
  have "distinct (add_if_missing t v)"
    using "2.prems" by (simp add: add_if_missing_def)
  note IH = "2.IH" [OF this]
  consider "is_void t" | "\<not> is_void t" "t \<in> set v" | "\<not> is_void t" "t \<notin> set v" by blast
  then show ?case
  proof cases
    case 1
    then show ?thesis using IH by (simp add: add_if_missing_def)
  next
    case 2
    then show ?thesis
      using IH by (auto simp: add_if_missing_def rev_remdups_snoc intro!: filter_cong)
  next
    case 3
    then show ?thesis
      using IH by (auto simp: add_if_missing_def rev_remdups_snoc intro!: filter_cong)
  qed
qed

end
