(* ===== verification/Values.thy ===== *)
theory Values
  imports Concepts
begin

text \<open>
  Run-time values and exceptions. A C++ value of a modelled type is a \<open>val\<close>; an
  \<^verbatim>\<open>std::exception_ptr\<close> is an \<open>exc\<close>, the dynamic type of the exception with its
  \<^verbatim>\<open>what()\<close> text. \<open>conv\<close> is the implicit conversion that \<^verbatim>\<open>std::make_unique<T>(value)\<close>
  performs in \<^verbatim>\<open>Resolver<T>::Resolve\<close> (include/promise/details/Resolver.inl) between the types
  the library itself builds: into \<^verbatim>\<open>std::optional\<close> and into \<^verbatim>\<open>std::variant\<close>.
\<close>

datatype exc = Exc (exc_type: string) (what: string)

datatype val =
    VVoid
  | VBool bool
  | VInt int
  | VString string
  | VNamed string nat
  | VExc exc
  | VTuple "val list"
  | VVector "val list"
  | VNullopt
  | VSome val
  | VAlt nat val                 \<comment> \<open>std::variant: index of the alternative, its value\<close>
  | VPromise pid                 \<comment> \<open>a WPromise handle\<close>
  | VResolve rid
  | VReject jid
  | VId "64 word"                \<comment> \<open>a std::size\_t\<close>

type_synonym outcome = "exc + val"

fun has_type :: "val \<Rightarrow> cty \<Rightarrow> bool" where
  "has_type VVoid t = (t = TVoid)"
| "has_type (VBool b) t = (t = TBool)"
| "has_type (VInt i) t = (t = TInt)"
| "has_type (VString s) t = (t = TString)"
| "has_type (VNamed n i) t = (t = TNamed n)"
| "has_type (VExc e) t = (t = TExceptionPtr)"
| "has_type (VTuple vs) t = (case t of TTuple ts \<Rightarrow> list_all2 has_type vs ts | _ \<Rightarrow> False)"
| "has_type (VVector vs) t = (case t of TVector e \<Rightarrow> list_all (\<lambda>v. has_type v e) vs | _ \<Rightarrow> False)"
| "has_type VNullopt t = (case t of TOptional e \<Rightarrow> True | _ \<Rightarrow> False)"
| "has_type (VSome v) t = (case t of TOptional e \<Rightarrow> has_type v e | _ \<Rightarrow> False)"
| "has_type (VAlt i v) t =
     (case t of TVariant ts \<Rightarrow> i < length ts \<and> has_type v (ts ! i) | _ \<Rightarrow> False)"
| "has_type (VPromise p) t = (case t of TWPromise e \<Rightarrow> True | _ \<Rightarrow> False)"
| "has_type (VResolve r) t = (case t of TResolve e \<Rightarrow> True | _ \<Rightarrow> False)"
| "has_type (VReject j) t = (t = TReject)"
| "has_type (VId i) t = (t = TNamed ''size_t'')"

subsection \<open>Implicit conversions\<close>

definition type_index :: "cty \<Rightarrow> cty list \<Rightarrow> nat" where
  "type_index t ts = length (takeWhile (\<lambda>u. u \<noteq> t) ts)"

fun conv :: "cty \<Rightarrow> cty \<Rightarrow> val \<Rightarrow> val" where
  "conv f (TOptional t) v = (if f = TOptional t then v else VSome (conv f t v))"
| "conv f (TVariant ts) v = (if f = TVariant ts then v else VAlt (type_index f ts) v)"
| "conv f t v = v"

fun convertible :: "cty \<Rightarrow> cty \<Rightarrow> bool" where
  "convertible f (TOptional t) = (f = TOptional t \<or> convertible f t)"
| "convertible f (TVariant ts) = (f = TVariant ts \<or> f \<in> set ts)"
| "convertible f t = (f = t)"

lemma convertible_refl [simp, intro]: "convertible t t"
  by (cases t) auto

lemma type_index_less: "t \<in> set ts \<Longrightarrow> type_index t ts < length ts"
  by (induction ts) (auto simp: type_index_def)

lemma nth_type_index: "t \<in> set ts \<Longrightarrow> ts ! type_index t ts = t"
  by (induction ts) (auto simp: type_index_def)

lemma conv_typed: "has_type v f \<Longrightarrow> convertible f t \<Longrightarrow> has_type (conv f t v) t"
  by (induction f t v rule: conv.induct) (auto simp: type_index_less nth_type_index)

subsection \<open>Conversions that the chaining functions rely on\<close>

text \<open>Catch converts the value of the source and the value of the handler to one result type.\<close>

fun wpromise_value :: "cty \<Rightarrow> cty" where
  "wpromise_value (TWPromise t) = t"
| "wpromise_value t = t"

lemma convertible_catch:
  "\<not> is_void t \<Longrightarrow> convertible t (wpromise_value (CatchReturn2 t t2))"
  "\<not> is_void t2 \<Longrightarrow> convertible t2 (wpromise_value (CatchReturn2 t t2))"
  by (auto simp: CatchReturn2_def)

text \<open>Race converts the value of every participant.\<close>

lemma convertible_variant: "t \<in> set ts \<Longrightarrow> convertible t (TVariant ts)"
  by simp

lemma convertible_race:
  assumes "RaceReturn ts = Some r" and "t \<in> set ts" and "\<not> is_void t"
  shows "convertible t r"
proof -
  have mem: "t \<in> set (unique_variant ts)"
    using assms by (simp add: set_unique_variant)
  have "\<not> (\<forall>t \<in> set ts. is_void t)" "ts \<noteq> []"
    using assms by auto
  with assms(1) mem show ?thesis
    by (auto simp: RaceReturn_def Let_def split: if_splits list.splits)
qed

text \<open>A void participant resolves the race with an empty optional, so the result type is one.\<close>

lemma race_void_optional:
  assumes "RaceReturn ts = Some r" and "TVoid \<in> set ts" and "r \<noteq> TVoid"
  shows "\<exists>e. r = TOptional e"
proof -
  have "\<exists>t \<in> set ts. is_void t" using assms(2) by (auto simp: is_void_def)
  with assms show ?thesis
    by (auto simp: RaceReturn_def Let_def split: if_splits list.splits)
qed

lemma race_return_exists: "ts \<noteq> [] \<Longrightarrow> \<exists>r. RaceReturn ts = Some r"
  by (auto simp: RaceReturn_def Let_def split: list.splits)

end
