(* ===== verification/Program.thy ===== *)
theory Program
  imports Values
begin

text \<open>
  C++ code that runs against the library (user callbacks, coroutine bodies, and the library's own
  continuations and coroutines) as trees of calls. \<open>Return\<close> and \<open>Throw\<close> end a body, \<open>CoAwait\<close> is
  a \<^verbatim>\<open>co_await\<close> on a promise, and \<open>Call\<close> is one atomic operation of the library: a section of
  code under one \<^verbatim>\<open>std::shared_mutex\<close> or one atomic exchange. The second argument of \<open>CoAwait\<close>
  and \<open>Call\<close> is the rest of the body, which receives what the call returned (\<open>Inr\<close>) or threw
  (\<open>Inl\<close>), so a C++ lambda with its captures is a \<open>prog\<close> closed over HOL values. The type
  parameter \<open>'o\<close> is the state of the objects a client keeps beside the promises; \<open>OAtomic\<close> reads
  and writes it in one step (a section under the client's own mutex).
\<close>

datatype 'o prog =
    Return val
  | Throw exc
  | CoAwait pid "outcome \<Rightarrow> 'o prog"
  | Call "'o op" "outcome \<Rightarrow> 'o prog"
and 'o op =
    OCreate cty                                \<comment> \<open>Promise<T, true>::Create()\<close>
  | OStart cty bool "rid \<Rightarrow> jid \<Rightarrow> 'o prog"     \<comment> \<open>Promise<T, W>::CreateImpl of a coroutine\<close>
  | OResolve rid val                           \<comment> \<open>Resolve<T>::operator()\<close>
  | OReject jid exc                            \<comment> \<open>Reject::operator()\<close>
  | OTryAwait pid "'o prog"                    \<comment> \<open>if not IsDone, Await(fun)\<close>
  | OTryAwaitNew pid cty "rid \<Rightarrow> jid \<Rightarrow> 'o prog" \<comment> \<open>if not IsDone, Create<T2>() then Await(fun)\<close>
  | OUnAwait pid "64 word"
  | OOutcome pid                               \<comment> \<open>GetException / GetValue under a shared lock\<close>
  | OLockOutcome pid                           \<comment> \<open>the same, keeping the shared lock\<close>
  | OUnlockShared pid
  | OLockShared pid
  | OIsDone pid
  | OIsResolved pid
  | OIsRejected pid
  | OAwaiters pid
  | OUseCount pid
  | OTouch pid                                 \<comment> \<open>++use\_count under the lock, in Race\<close>
  | ODetach pid
  | OWaitDone pid
  | OWaitAwaited pid "64 word"
  | OAtomic "'o \<Rightarrow> 'o \<times> val"
  | OAssert bool string                        \<comment> \<open>assert(...) in a client of the promises\<close>
  | OSpawn "'o prog"                           \<comment> \<open>a thread of a pool starts a task\<close>

text \<open>A callable: its C++ type and its body on the list of its arguments.\<close>

datatype 'o fn = Fn (fn_type: cty) (fn_body: "val list \<Rightarrow> 'o prog")

text \<open>
  Sequencing: run a body, then the rest on its outcome. It is a call of the body inside the
  caller: a \<^verbatim>\<open>try\<close> block when the rest looks at \<open>Inl\<close>.
\<close>

primrec bindP :: "'o prog \<Rightarrow> (outcome \<Rightarrow> 'o prog) \<Rightarrow> 'o prog" where
  "bindP (Return v) f = f (Inr v)"
| "bindP (Throw e) f = f (Inl e)"
| "bindP (CoAwait p k) f = CoAwait p (\<lambda>r. bindP (k r) f)"
| "bindP (Call c k) f = Call c (\<lambda>r. bindP (k r) f)"

text \<open>The end of a body with a given outcome.\<close>

fun finish :: "outcome \<Rightarrow> 'o prog" where
  "finish (Inr v) = Return v"
| "finish (Inl e) = Throw e"

text \<open>Sequencing without a handler: an exception leaves the caller.\<close>

definition thenP :: "'o prog \<Rightarrow> (val \<Rightarrow> 'o prog) \<Rightarrow> 'o prog" where
  "thenP m f = bindP m (\<lambda>r. case r of Inl e \<Rightarrow> Throw e | Inr v \<Rightarrow> f v)"

definition callP :: "'o op \<Rightarrow> (val \<Rightarrow> 'o prog) \<Rightarrow> 'o prog" where
  "callP c f = Call c (\<lambda>r. case r of Inl e \<Rightarrow> Throw e | Inr v \<Rightarrow> f v)"

lemma bindP_finish_left [simp]: "bindP (finish r) f = f r"
  by (cases r) auto

lemma bindP_finish_right [simp]: "bindP m finish = m"
  by (induction m) auto

lemma bindP_assoc: "bindP (bindP m f) g = bindP m (\<lambda>r. bindP (f r) g)"
  by (induction m) auto

lemma thenP_Return [simp]: "thenP (Return v) f = f v"
  by (simp add: thenP_def)

lemma bindP_callP:
  "bindP (callP c f) g =
     Call c (\<lambda>r. case r of Inl e \<Rightarrow> g (Inl e) | Inr v \<Rightarrow> bindP (f v) g)"
  by (auto simp: callP_def split: sum.splits)

text \<open>The three handles that \<^verbatim>\<open>Create\<close> returns, bound as in \<^verbatim>\<open>auto [promise, resolve, reject]\<close>.\<close>

definition with_handles :: "val \<Rightarrow> (pid \<Rightarrow> rid \<Rightarrow> jid \<Rightarrow> 'o prog) \<Rightarrow> 'o prog" where
  "with_handles v f =
     (case v of VTuple [VPromise p, VResolve r, VReject j] \<Rightarrow> f p r j | _ \<Rightarrow> Return VVoid)"

lemma with_handles_simp [simp]:
  "with_handles (VTuple [VPromise p, VResolve r, VReject j]) f = f p r j"
  by (simp add: with_handles_def)

end
