(* ===== verification/Store.thy ===== *)
theory Store
  imports Program
begin

text \<open>
  The shared heap of the library: \<^verbatim>\<open>Resolver\<close> and \<^verbatim>\<open>Reject\<close> objects and the
  \<^verbatim>\<open>details::Promise\<close> objects with their base classes \<^verbatim>\<open>Handle\<close> and \<^verbatim>\<open>ValuePromise\<close>
  (include/promise/core and include/promise/details), with the operations that read or write one
  of them. Objects are never reused: an address is an index into a list, and allocation appends.
  Every C++ \<^verbatim>\<open>assert\<close> is a branch that ends in \<open>Fault (AssertFailed a)\<close>.
\<close>

subsection \<open>Objects\<close>

text \<open>
  The coroutine a promise owns: \<open>NoHandle\<close> is a null \<^verbatim>\<open>handle_\<close>; \<open>Initial\<close> waits at its
  initial suspension point; \<open>Suspended q k\<close> waits in \<^verbatim>\<open>co_await q\<close> with the rest \<open>k\<close> of its body.
\<close>

datatype 'o coroutine =
    NoHandle
  | Initial "'o prog"
  | Running
  | Suspended pid "outcome \<Rightarrow> 'o prog"

datatype 'o awaiter =
    ACoroutine pid                 \<comment> \<open>std::coroutine\_handle of the coroutine of that promise\<close>
  | AFunction "64 word" "'o prog"  \<comment> \<open>AwaitFunction: its id and its body\<close>

record resolver =
  r_type :: cty
  r_promise :: "pid option"        \<comment> \<open>weak pointer to the promise\<close>
  r_value :: "val option"          \<comment> \<open>value, or VVoid for value\_is\_set of a void resolver\<close>
  r_exception :: "exc option"
  r_resolved :: bool

record reject_handle =
  j_resolver :: rid                \<comment> \<open>captured by impl\<close>
  j_rejected :: bool

record 'o promise =
  p_type :: cty
  p_with_resolver :: bool
  p_handle :: "'o coroutine"
  p_resolver :: "rid option"
  p_self_owned :: bool
  p_function :: bool               \<comment> \<open>the callable is kept alive\<close>
  p_use_count :: "64 word"
  p_awaiters :: "'o awaiter list"
  p_delayed_return :: "outcome option"
  p_readers :: "tid list"          \<comment> \<open>threads that hold the mutex in shared mode\<close>

record 'o store =
  promises :: "'o promise list"
  resolvers :: "resolver list"
  rejects :: "reject_handle list"
  objects :: 'o

subsection \<open>Faults\<close>

datatype assertion =
    A_resolver_set                 \<comment> \<open>assert(resolver)\<close>
  | A_promise_alive                \<comment> \<open>assert(promise) in Resolver::Resolve and Reject\<close>
  | A_value_unset                  \<comment> \<open>assert(!Done()) in Resolver::Resolve and Reject\<close>
  | A_exception_unset              \<comment> \<open>assert(!exception) in Resolver::Resolve and Reject\<close>
  | A_value_set                    \<comment> \<open>assert(resolver.value) in ValuePromise::GetValue\<close>
  | A_resolved                     \<comment> \<open>assert(IsResolved) in Promise::await\_resume\<close>
  | A_pending_handle               \<comment> \<open>assert(handle) in Promise::await\_suspend\<close>
  | A_await_pending                \<comment> \<open>assert(!IsDone) in Promise::Await\<close>
  | A_no_delayed_return            \<comment> \<open>assert(!delayed\_return) at the end of a coroutine\<close>
  | A_value_returned               \<comment> \<open>assert(IS\_VOID) in PromiseType::final\_suspend\<close>
  | A_resumable                    \<comment> \<open>resume() is called on a suspended coroutine only\<close>
  | A_client string                \<comment> \<open>an assertion of the classes built on promises\<close>

datatype fault =
    AssertFailed assertion
  | RecursiveLock pid              \<comment> \<open>a thread locks a shared\_mutex it already owns\<close>
  | BadHandle                      \<comment> \<open>an address that no operation returned\<close>
  | Uncaught exc                   \<comment> \<open>an exception leaves a thread or a callback\<close>
  | AwaitOutsideCoroutine

datatype 'a result = Blocked | Fault fault | Next 'a

fun bindR :: "'a result \<Rightarrow> ('a \<Rightarrow> 'b result) \<Rightarrow> 'b result" where
  "bindR Blocked f = Blocked"
| "bindR (Fault x) f = Fault x"
| "bindR (Next a) f = f a"

lemma bindR_Next [simp]: "bindR m f = Next b \<longleftrightarrow> (\<exists>a. m = Next a \<and> f a = Next b)"
  by (cases m) auto

lemma bindR_Fault: "bindR m f = Fault x \<longleftrightarrow> m = Fault x \<or> (\<exists>a. m = Next a \<and> f a = Fault x)"
  by (cases m) auto

fun fault_of :: "'a result \<Rightarrow> fault option" where
  "fault_of (Fault x) = Some x"
| "fault_of r = None"

fun is_blocked :: "'a result \<Rightarrow> bool" where
  "is_blocked Blocked = True"
| "is_blocked r = False"

lemma fault_of_Some: "fault_of r = Some x \<longleftrightarrow> r = Fault x"
  by (cases r) auto

lemma is_blocked_iff: "is_blocked r \<longleftrightarrow> r = Blocked"
  by (cases r) auto

lemma Next_if: "fault_of r = None \<Longrightarrow> \<not> is_blocked r \<Longrightarrow> \<exists>a. r = Next a"
  by (cases r) auto

subsection \<open>Writes\<close>

definition upd_promise :: "pid \<Rightarrow> ('o promise \<Rightarrow> 'o promise) \<Rightarrow> 'o store \<Rightarrow> 'o store" where
  "upd_promise p f s = s\<lparr>promises := upd_nth p f (promises s)\<rparr>"

definition upd_resolver :: "rid \<Rightarrow> (resolver \<Rightarrow> resolver) \<Rightarrow> 'o store \<Rightarrow> 'o store" where
  "upd_resolver r f s = s\<lparr>resolvers := upd_nth r f (resolvers s)\<rparr>"

definition upd_reject :: "jid \<Rightarrow> (reject_handle \<Rightarrow> reject_handle) \<Rightarrow> 'o store \<Rightarrow> 'o store" where
  "upd_reject j f s = s\<lparr>rejects := upd_nth j f (rejects s)\<rparr>"

lemma upd_sel [simp]:
  "promises (upd_promise p f s) = upd_nth p f (promises s)"
  "resolvers (upd_promise p f s) = resolvers s"
  "rejects (upd_promise p f s) = rejects s"
  "objects (upd_promise p f s) = objects s"
  "promises (upd_resolver r g s) = promises s"
  "resolvers (upd_resolver r g s) = upd_nth r g (resolvers s)"
  "rejects (upd_resolver r g s) = rejects s"
  "objects (upd_resolver r g s) = objects s"
  "promises (upd_reject j h s) = promises s"
  "resolvers (upd_reject j h s) = resolvers s"
  "rejects (upd_reject j h s) = upd_nth j h (rejects s)"
  "objects (upd_reject j h s) = objects s"
  by (simp_all add: upd_promise_def upd_resolver_def upd_reject_def)

subsection \<open>State queries\<close>

text \<open>Resolver<T>::Done: the value has been stored (a rejection does not count).\<close>

definition Resolver_Done :: "resolver \<Rightarrow> bool" where
  "Resolver_Done r \<longleftrightarrow> r_value r \<noteq> None"

definition resolver_outcome :: "resolver \<Rightarrow> outcome option" where
  "resolver_outcome r =
     (case r_exception r of
        Some e \<Rightarrow> Some (Inl e)
      | None \<Rightarrow> (case r_value r of Some v \<Rightarrow> Some (Inr v) | None \<Rightarrow> None))"

definition IsResolved :: "'o store \<Rightarrow> pid \<Rightarrow> bool result" where
  "IsResolved s p =
     (case p_resolver (promises s ! p) of
        None \<Rightarrow> Fault (AssertFailed A_resolver_set)
      | Some r \<Rightarrow> Next (r_value (resolvers s ! r) \<noteq> None))"

definition IsRejected :: "'o store \<Rightarrow> pid \<Rightarrow> bool result" where
  "IsRejected s p =
     (case p_resolver (promises s ! p) of
        None \<Rightarrow> Fault (AssertFailed A_resolver_set)
      | Some r \<Rightarrow> Next (r_exception (resolvers s ! r) \<noteq> None))"

definition IsDone :: "'o store \<Rightarrow> pid \<Rightarrow> bool result" where
  "IsDone s p =
     (case p_resolver (promises s ! p) of
        None \<Rightarrow> Fault (AssertFailed A_resolver_set)
      | Some r \<Rightarrow>
          Next (r_value (resolvers s ! r) \<noteq> None \<or> r_exception (resolvers s ! r) \<noteq> None))"

text \<open>Handle::Done: the coroutine handle is cleared.\<close>

definition Handle_Done :: "'o store \<Rightarrow> pid \<Rightarrow> bool" where
  "Handle_Done s p \<longleftrightarrow> (case p_handle (promises s ! p) of NoHandle \<Rightarrow> True | _ \<Rightarrow> False)"

definition GetException :: "'o store \<Rightarrow> pid \<Rightarrow> exc option result" where
  "GetException s p =
     (case p_resolver (promises s ! p) of
        None \<Rightarrow> Fault (AssertFailed A_resolver_set)
      | Some r \<Rightarrow> Next (r_exception (resolvers s ! r)))"

definition GetValue :: "'o store \<Rightarrow> pid \<Rightarrow> val result" where
  "GetValue s p =
     (case p_resolver (promises s ! p) of
        None \<Rightarrow> Fault (AssertFailed A_resolver_set)
      | Some r \<Rightarrow>
          (case r_value (resolvers s ! r) of
             None \<Rightarrow> Fault (AssertFailed A_value_set)
           | Some v \<Rightarrow> Next v))"

text \<open>
  What the continuations read: the exception when there is one, else the value, which a
  continuation of a void promise does not look at.
\<close>

definition read_outcome :: "'o store \<Rightarrow> pid \<Rightarrow> outcome result" where
  "read_outcome s p =
     bindR (GetException s p) (\<lambda>x. case x of
         Some e \<Rightarrow> Next (Inl e)
       | None \<Rightarrow>
           if is_void (p_type (promises s ! p)) then Next (Inr VVoid)
           else bindR (GetValue s p) (\<lambda>v. Next (Inr v)))"

definition await_resume :: "'o store \<Rightarrow> pid \<Rightarrow> outcome result" where
  "await_resume s p =
     bindR (GetException s p) (\<lambda>x. case x of
         Some e \<Rightarrow> Next (Inl e)
       | None \<Rightarrow>
           if is_void (p_type (promises s ! p))
           then bindR (IsResolved s p) (\<lambda>b.
                  if b then Next (Inr VVoid) else Fault (AssertFailed A_resolved))
           else bindR (GetValue s p) (\<lambda>v. Next (Inr v)))"

subsection \<open>Creation\<close>

text \<open>Reject::Create: a handle that has not been used, on the resolver its function captures.\<close>

definition Reject_Create :: "rid \<Rightarrow> 'o store \<Rightarrow> jid \<times> 'o store" where
  [simp]: "Reject_Create r s =
     (length (rejects s), s\<lparr>rejects := rejects s @ [\<lparr>j_resolver = r, j_rejected = False\<rparr>]\<rparr>)"

text \<open>Resolver<T>::Create: a resolver that no promise owns yet, with its two handles.\<close>

definition Resolver_Create :: "cty \<Rightarrow> 'o store \<Rightarrow> rid \<times> jid \<times> 'o store" where
  "Resolver_Create t s =
     (let r = length (resolvers s);
          (j, s') = Reject_Create r (s\<lparr>resolvers := resolvers s @
                      [\<lparr>r_type = t, r_promise = None, r_value = None, r_exception = None,
                        r_resolved = False\<rparr>]\<rparr>)
      in (r, j, s'))"

text \<open>The constructor of details::Promise on a coroutine handle (null for \<open>NoHandle\<close>).\<close>

definition new_promise :: "cty \<Rightarrow> bool \<Rightarrow> 'o coroutine \<Rightarrow> 'o promise" where
  "new_promise t w h =
     \<lparr>p_type = t, p_with_resolver = w, p_handle = h, p_resolver = None, p_self_owned = False,
      p_function = False, p_use_count = 0, p_awaiters = [], p_delayed_return = None,
      p_readers = []\<rparr>"

definition alloc_promise :: "'o promise \<Rightarrow> 'o store \<Rightarrow> pid \<times> 'o store" where
  "alloc_promise x s = (length (promises s), s\<lparr>promises := promises s @ [x]\<rparr>)"

definition link :: "pid \<Rightarrow> rid \<Rightarrow> 'o store \<Rightarrow> 'o store" where
  "link p r s =
     upd_promise p (\<lambda>x. x\<lparr>p_resolver := Some r\<rparr>) (upd_resolver r (\<lambda>x. x\<lparr>r_promise := Some p\<rparr>) s)"

text \<open>
  Promise<T, true>::Create: no coroutine, resolver and promise point at each other. The resolver
  mode false forwards to it, so both modes are this function.
\<close>

definition Promise_Create :: "cty \<Rightarrow> 'o store \<Rightarrow> pid \<times> rid \<times> jid \<times> 'o store" where
  "Promise_Create t s =
     (let (p, s1) = alloc_promise (new_promise t True NoHandle) s;
          (r, j, s2) = Resolver_Create t s1
      in (p, r, j, link p r s2))"

text \<open>
  What calling a coroutine function gives: a promise that owns the new coroutine, which waits at
  its initial suspension point (InitSuspend is never ready and does nothing when it suspends).
\<close>

definition get_return_object :: "cty \<Rightarrow> bool \<Rightarrow> 'o prog \<Rightarrow> 'o store \<Rightarrow> pid \<times> 'o store" where
  "get_return_object t w body s = alloc_promise (new_promise t w (Initial body)) s"

text \<open>
  Promise<T, W>::CreateImpl up to \<^verbatim>\<open>details->handle_()\<close>: the callable is kept in a holder with
  its handles, called (which allocates the coroutine, suspended at its initial suspension point)
  and linked to its resolver.
\<close>

definition CreateImpl ::
    "cty \<Rightarrow> bool \<Rightarrow> (rid \<Rightarrow> jid \<Rightarrow> 'o prog) \<Rightarrow> 'o store \<Rightarrow> pid \<times> rid \<times> jid \<times> 'o store" where
  "CreateImpl t w body s =
     (let (r, j, s1) = Resolver_Create t s;
          (p, s2) = get_return_object t w (body r j) s1
      in (p, r, j, upd_promise p (\<lambda>x. x\<lparr>p_function := True\<rparr>) (link p r s2)))"

subsection \<open>Settling\<close>

text \<open>The atomic exchange on \<^verbatim>\<open>resolved_\<close>: the old flag, and the store with the flag set.\<close>

definition exchange_resolved :: "rid \<Rightarrow> 'o store \<Rightarrow> bool \<times> 'o store" where
  "exchange_resolved r s =
     (r_resolved (resolvers s ! r), upd_resolver r (\<lambda>x. x\<lparr>r_resolved := True\<rparr>) s)"

definition exchange_rejected :: "jid \<Rightarrow> 'o store \<Rightarrow> bool \<times> 'o store" where
  "exchange_rejected j s =
     (j_rejected (rejects s ! j), upd_reject j (\<lambda>x. x\<lparr>j_rejected := True\<rparr>) s)"

text \<open>The assignment of the value (\<^verbatim>\<open>value_is_set_\<close> for a void resolver) or exception.\<close>

fun store_outcome :: "outcome \<Rightarrow> resolver \<Rightarrow> resolver" where
  "store_outcome (Inr v) x = x\<lparr>r_value := Some (if is_void (r_type x) then VVoid else v)\<rparr>"
| "store_outcome (Inl e) x = x\<lparr>r_exception := Some e\<rparr>"

text \<open>
  Handle::OnResolved up to the loop over the awaiters: nothing when the coroutine still runs,
  else the awaiters are swapped out and the self reference is dropped.
\<close>

definition OnResolved :: "pid \<Rightarrow> 'o store \<Rightarrow> 'o awaiter list \<times> 'o store" where
  "OnResolved p s =
     (if Handle_Done s p
      then (p_awaiters (promises s ! p),
            upd_promise p (\<lambda>x. x\<lparr>p_awaiters := [], p_self_owned := False\<rparr>) s)
      else ([], s))"

subsection \<open>The shared mutex of a promise\<close>

text \<open>
  A section under an exclusive lock needs that no thread holds the mutex in shared mode; no step
  of the model keeps it exclusively, so the readers are all there is to check. Locking again a
  mutex the thread owns is undefined behaviour.
\<close>

definition with_unique :: "tid \<Rightarrow> pid \<Rightarrow> 'o store \<Rightarrow> 'a result \<Rightarrow> 'a result" where
  "with_unique t p s m =
     (let rs = p_readers (promises s ! p) in
      if t \<in> set rs then Fault (RecursiveLock p) else if rs \<noteq> [] then Blocked else m)"

definition with_shared :: "tid \<Rightarrow> pid \<Rightarrow> 'o store \<Rightarrow> 'a result \<Rightarrow> 'a result" where
  "with_shared t p s m =
     (if t \<in> set (p_readers (promises s ! p)) then Fault (RecursiveLock p) else m)"

definition lock_shared :: "tid \<Rightarrow> pid \<Rightarrow> 'o store \<Rightarrow> 'o store" where
  "lock_shared t p = upd_promise p (\<lambda>x. x\<lparr>p_readers := t # p_readers x\<rparr>)"

definition unlock_shared :: "tid \<Rightarrow> pid \<Rightarrow> 'o store \<Rightarrow> 'o store" where
  "unlock_shared t p = upd_promise p (\<lambda>x. x\<lparr>p_readers := remove1 t (p_readers x)\<rparr>)"

subsection \<open>Awaiters\<close>

text \<open>Promise::Await on a coroutine handle; the section of \<^verbatim>\<open>await_suspend\<close>.\<close>

definition Await_coroutine :: "pid \<Rightarrow> pid \<Rightarrow> 'o store \<Rightarrow> 'o store result" where
  "Await_coroutine q h s =
     bindR (IsDone s q) (\<lambda>d.
       if d then Fault (AssertFailed A_await_pending)
       else Next (upd_promise q (\<lambda>x. x\<lparr>p_use_count := p_use_count x + 1,
                                       p_awaiters := p_awaiters x @ [ACoroutine h]\<rparr>) s))"

text \<open>Promise::Await on a function: the id is the incremented use count.\<close>

definition Await_function :: "pid \<Rightarrow> 'o prog \<Rightarrow> 'o store \<Rightarrow> (64 word \<times> 'o store) result" where
  "Await_function q f s =
     bindR (IsDone s q) (\<lambda>d.
       if d then Fault (AssertFailed A_await_pending)
       else (let i = p_use_count (promises s ! q) + 1 in
             Next (i, upd_promise q (\<lambda>x. x\<lparr>p_use_count := i,
                                           p_awaiters := p_awaiters x @ [AFunction i f]\<rparr>) s)))"

fun is_function :: "64 word \<Rightarrow> 'o awaiter \<Rightarrow> bool" where
  "is_function i (AFunction j f) = (i = j)"
| "is_function i (ACoroutine h) = False"

text \<open>Promise::UnAwait: \<^verbatim>\<open>find_if\<close> and \<^verbatim>\<open>erase\<close> of the first match.\<close>

fun erase_first :: "('a \<Rightarrow> bool) \<Rightarrow> 'a list \<Rightarrow> 'a list" where
  "erase_first P [] = []"
| "erase_first P (x # xs) = (if P x then xs else x # erase_first P xs)"

definition UnAwait :: "pid \<Rightarrow> 64 word \<Rightarrow> 'o store \<Rightarrow> bool \<times> 'o store" where
  "UnAwait p i s =
     (if \<exists>a \<in> set (p_awaiters (promises s ! p)). is_function i a
      then (True, upd_promise p (\<lambda>x. x\<lparr>p_awaiters := erase_first (is_function i) (p_awaiters x)\<rparr>) s)
      else (False, s))"

subsection \<open>Ownership\<close>

text \<open>Handle::Detach: a pending promise keeps itself alive.\<close>

definition Detach :: "pid \<Rightarrow> 'o store \<Rightarrow> 'o store result" where
  "Detach p s =
     bindR (IsDone s p) (\<lambda>d.
       Next (if d then s else upd_promise p (\<lambda>x. x\<lparr>p_self_owned := True\<rparr>) s))"

subsection \<open>The outcome of a promise\<close>

text \<open>
  The abstract state of a promise, and the two ways the code reads it: \<^verbatim>\<open>IsDone\<close> says
  whether there is an outcome, \<^verbatim>\<open>await_resume\<close> and the continuations read it.
\<close>

definition outcome_of :: "'o store \<Rightarrow> pid \<Rightarrow> outcome option" where
  "outcome_of s p =
     (if p < length (promises s)
      then (case p_resolver (promises s ! p) of
              None \<Rightarrow> None
            | Some r \<Rightarrow> resolver_outcome (resolvers s ! r))
      else None)"

subsection \<open>What creation does to the store\<close>

lemma upd_nth_snoc [simp]: "upd_nth (length xs) f (xs @ [x]) = xs @ [f x]"
  by (simp add: upd_nth_def)

definition linked_resolver :: "cty \<Rightarrow> pid \<Rightarrow> resolver" where
  "linked_resolver t p =
     \<lparr>r_type = t, r_promise = Some p, r_value = None, r_exception = None, r_resolved = False\<rparr>"

lemma Promise_Create_eq:
  "Promise_Create t s =
     (length (promises s), length (resolvers s), length (rejects s),
      s\<lparr>promises := promises s @
          [(new_promise t True NoHandle)\<lparr>p_resolver := Some (length (resolvers s))\<rparr>],
        resolvers := resolvers s @ [linked_resolver t (length (promises s))],
        rejects := rejects s @ [\<lparr>j_resolver = length (resolvers s), j_rejected = False\<rparr>]\<rparr>)"
  by (simp add: Promise_Create_def alloc_promise_def Resolver_Create_def Let_def link_def
      upd_promise_def upd_resolver_def linked_resolver_def)

lemma CreateImpl_eq:
  "CreateImpl t w body s =
     (length (promises s), length (resolvers s), length (rejects s),
      s\<lparr>promises := promises s @
          [(new_promise t w (Initial (body (length (resolvers s)) (length (rejects s)))))
             \<lparr>p_resolver := Some (length (resolvers s)), p_function := True\<rparr>],
        resolvers := resolvers s @ [linked_resolver t (length (promises s))],
        rejects := rejects s @ [\<lparr>j_resolver = length (resolvers s), j_rejected = False\<rparr>]\<rparr>)"
  by (simp add: CreateImpl_def get_return_object_def alloc_promise_def Resolver_Create_def Let_def link_def
      upd_promise_def upd_resolver_def linked_resolver_def)

lemma new_promise_sel [simp]:
  "p_type (new_promise t w h) = t" "p_with_resolver (new_promise t w h) = w"
  "p_handle (new_promise t w h) = h" "p_resolver (new_promise t w h) = None"
  "p_self_owned (new_promise t w h) = False" "p_function (new_promise t w h) = False"
  "p_use_count (new_promise t w h) = 0" "p_awaiters (new_promise t w h) = []"
  "p_delayed_return (new_promise t w h) = None" "p_readers (new_promise t w h) = []"
  by (simp_all add: new_promise_def)

lemma linked_resolver_sel [simp]:
  "r_type (linked_resolver t p) = t" "r_promise (linked_resolver t p) = Some p"
  "r_value (linked_resolver t p) = None" "r_exception (linked_resolver t p) = None"
  "r_resolved (linked_resolver t p) = False" "resolver_outcome (linked_resolver t p) = None"
  by (simp_all add: linked_resolver_def resolver_outcome_def)

subsection \<open>Outcomes\<close>

lemma resolver_outcome_None:
  "resolver_outcome r = None \<longleftrightarrow> r_value r = None \<and> r_exception r = None"
  by (auto simp: resolver_outcome_def split: option.splits)

lemma resolver_outcome_cong:
  "r_value r = r_value r' \<Longrightarrow> r_exception r = r_exception r' \<Longrightarrow>
     resolver_outcome r = resolver_outcome r'"
  by (simp add: resolver_outcome_def split: option.split)

lemma store_outcome_sel [simp]:
  "r_type (store_outcome x r) = r_type r" "r_promise (store_outcome x r) = r_promise r"
  "r_resolved (store_outcome x r) = r_resolved r"
  by (cases x; simp)+

lemma store_outcome_done [simp]: "resolver_outcome (store_outcome x r) \<noteq> None"
  by (cases x) (auto simp: resolver_outcome_def split: option.splits)

lemma set_erase_first: "set (erase_first P xs) \<subseteq> set xs"
  by (induction xs) auto

lemma erase_first_split:
  "\<exists>x \<in> set xs. P x \<Longrightarrow>
     \<exists>us x vs. xs = us @ x # vs \<and> P x \<and> (\<forall>u \<in> set us. \<not> P u) \<and> erase_first P xs = us @ vs"
proof (induction xs)
  case Nil
  then show ?case by simp
next
  case (Cons y ys)
  show ?case
  proof (cases "P y")
    case True
    then show ?thesis by (intro exI [of _ "[]"]) auto
  next
    case False
    with Cons obtain us x vs where "ys = us @ x # vs" "P x" "\<forall>u \<in> set us. \<not> P u"
      "erase_first P ys = us @ vs" by auto
    with False show ?thesis by (intro exI [of _ "y # us"]) auto
  qed
qed

end
