(* ===== verification/Machine.thy ===== *)
theory Machine
  imports Store
begin

text \<open>
  Threads that run programs against the store. A thread is a stack of frames, the innermost
  activation first; one step of a thread is one atomic section of the library or one step of the
  body on top. Awaiters run on the stack of the thread that settled their promise, one after the
  other and each to its end or next suspension, as \<^verbatim>\<open>Handle::OnResolved\<close> does. Any thread may
  step next (\<open>steps\<close>), so the model has every interleaving of the atomic sections.
\<close>

subsection \<open>Frames\<close>

datatype activation = Plain | Coroutine pid  \<comment> \<open>a callback or thread, or the coroutine of a promise\<close>

datatype 'o frame =
    Run activation "'o prog"
  | Exchange rid outcome             \<comment> \<open>Resolver::Resolve or Reject, called and result ignored\<close>
  | Settle rid outcome               \<comment> \<open>the locked part of Resolver::Resolve or Reject\<close>
  | Awaiters "'o awaiter list"       \<comment> \<open>the loop of OnResolved\<close>
  | Suspend pid pid                  \<comment> \<open>await\_suspend: the coroutine of the first on the second\<close>
  | Resume pid                       \<comment> \<open>std::coroutine\_handle::resume\<close>
  | FinalSuspend pid                 \<comment> \<open>PromiseType::final\_suspend\<close>
  | FinalCleanup pid                 \<comment> \<open>its scope exit\<close>

type_synonym 'o thread = "'o frame list"

record 'o machine =
  mem :: "'o store"
  threads :: "'o thread list"

subsection \<open>Atomic operations\<close>

definition valid_promise :: "'o store \<Rightarrow> pid \<Rightarrow> 'a result \<Rightarrow> 'a result" where
  "valid_promise s p m = (if p < length (promises s) then m else Fault BadHandle)"

type_synonym 'o op_result = "('o store \<times> 'o frame list \<times> outcome) result"

definition ret :: "'o store \<Rightarrow> val \<Rightarrow> 'o op_result" where
  "ret s v = Next (s, [], Inr v)"

text \<open>
  Resolve<T>::operator(): the exchange decides the returned flag; the winner goes on to the
  locked part, whose awaiters run before the call returns.
\<close>

definition resolve_op :: "rid \<Rightarrow> outcome \<Rightarrow> 'o store \<Rightarrow> 'o op_result" where
  "resolve_op r x s =
     (if r < length (resolvers s)
      then (let (old, s') = exchange_resolved r s in
            if old then Next (s', [], Inr (VBool False))
            else Next (s', [Settle r x], Inr (VBool True)))
      else Fault BadHandle)"

text \<open>Reject::operator(): its own flag first, then Resolver::Reject.\<close>

definition reject_op :: "jid \<Rightarrow> exc \<Rightarrow> 'o store \<Rightarrow> 'o op_result" where
  "reject_op j e s =
     (if j < length (rejects s)
      then (let (old, s') = exchange_rejected j s in
            if old then Next (s', [], Inr (VBool False))
            else resolve_op (j_resolver (rejects s ! j)) (Inl e) s')
      else Fault BadHandle)"

definition try_await :: "tid \<Rightarrow> pid \<Rightarrow> 'o prog \<Rightarrow> 'o store \<Rightarrow> 'o op_result" where
  "try_await t p f s =
     with_unique t p s (bindR (IsDone s p) (\<lambda>d.
       if d then ret s VVoid
       else bindR (Await_function p f s) (\<lambda>(i, s'). ret s' (VId i))))"

definition try_await_new ::
    "tid \<Rightarrow> pid \<Rightarrow> cty \<Rightarrow> (rid \<Rightarrow> jid \<Rightarrow> 'o prog) \<Rightarrow> 'o store \<Rightarrow> 'o op_result" where
  "try_await_new t p T2 f s =
     with_unique t p s (bindR (IsDone s p) (\<lambda>d.
       if d then ret s VVoid
       else (let (q, r, j, s1) = Promise_Create T2 s in
             bindR (Await_function p (f r j) s1) (\<lambda>(i, s2). ret s2 (VPromise q)))))"

text \<open>
  The queries that take the lock themselves, and the two waits of a condition variable: a wait
  returns when its condition holds. These definitions are unfolded wherever they are simplified.
\<close>

definition Handle_IsDone :: "tid \<Rightarrow> pid \<Rightarrow> 'o store \<Rightarrow> 'o op_result" where
  [simp]: "Handle_IsDone t p s = with_shared t p s (bindR (IsDone s p) (\<lambda>b. ret s (VBool b)))"

definition Handle_IsRejected :: "tid \<Rightarrow> pid \<Rightarrow> 'o store \<Rightarrow> 'o op_result" where
  [simp]: "Handle_IsRejected t p s =
     with_shared t p s (bindR (IsRejected s p) (\<lambda>b. ret s (VBool b)))"

definition Handle_WaitDone :: "tid \<Rightarrow> pid \<Rightarrow> 'o store \<Rightarrow> 'o op_result" where
  [simp]: "Handle_WaitDone t p s =
     with_shared t p s (bindR (IsDone s p) (\<lambda>d.
       if d \<and> Handle_Done s p then ret s VVoid else Blocked))"

definition Handle_WaitAwaited :: "tid \<Rightarrow> pid \<Rightarrow> 64 word \<Rightarrow> 'o store \<Rightarrow> 'o op_result" where
  [simp]: "Handle_WaitAwaited t p last_count s =
     with_shared t p s
       (if p_use_count (promises s ! p) > last_count then ret s VVoid else Blocked)"

definition Promise_Awaiters :: "tid \<Rightarrow> pid \<Rightarrow> 'o store \<Rightarrow> 'o op_result" where
  [simp]: "Promise_Awaiters t p s =
     with_shared t p s (ret s (VId (of_nat (length (p_awaiters (promises s ! p))))))"

definition Promise_UseCount :: "pid \<Rightarrow> 'o store \<Rightarrow> 'o op_result" where
  [simp]: "Promise_UseCount p s = ret s (VId (p_use_count (promises s ! p)))"

fun exec_op :: "tid \<Rightarrow> 'o op \<Rightarrow> 'o store \<Rightarrow> 'o op_result" where
  "exec_op t (OCreate T) s =
     (let (p, r, j, s') = Promise_Create T s in
      ret s' (VTuple [VPromise p, VResolve r, VReject j]))"
| "exec_op t (OStart T w body) s =
     (let (p, r, j, s') = CreateImpl T w body s in
      Next (s', [Resume p], Inr (VTuple [VPromise p, VResolve r, VReject j])))"
| "exec_op t (OResolve r v) s = resolve_op r (Inr v) s"
| "exec_op t (OReject j e) s = reject_op j e s"
| "exec_op t (OTryAwait p f) s = valid_promise s p (try_await t p f s)"
| "exec_op t (OTryAwaitNew p T2 f) s = valid_promise s p (try_await_new t p T2 f s)"
| "exec_op t (OUnAwait p i) s =
     valid_promise s p (with_unique t p s
       (let (b, s') = UnAwait p i s in ret s' (VBool b)))"
| "exec_op t (OOutcome p) s =
     valid_promise s p (with_shared t p s
       (bindR (read_outcome s p) (\<lambda>x. Next (s, [], x))))"
| "exec_op t (OLockOutcome p) s =
     valid_promise s p (with_shared t p s
       (bindR (read_outcome s p) (\<lambda>x. Next (lock_shared t p s, [], x))))"
| "exec_op t (OUnlockShared p) s = valid_promise s p (ret (unlock_shared t p s) VVoid)"
| "exec_op t (OLockShared p) s =
     valid_promise s p (with_shared t p s (ret (lock_shared t p s) VVoid))"
| "exec_op t (OIsDone p) s = valid_promise s p (Handle_IsDone t p s)"
| "exec_op t (OIsResolved p) s =
     valid_promise s p (with_shared t p s (bindR (IsResolved s p) (\<lambda>b. ret s (VBool b))))"
| "exec_op t (OIsRejected p) s = valid_promise s p (Handle_IsRejected t p s)"
| "exec_op t (OAwaiters p) s = valid_promise s p (Promise_Awaiters t p s)"
| "exec_op t (OUseCount p) s = valid_promise s p (Promise_UseCount p s)"
| "exec_op t (OTouch p) s =
     valid_promise s p (with_unique t p s
       (ret (upd_promise p (\<lambda>x. x\<lparr>p_use_count := p_use_count x + 1\<rparr>) s) VVoid))"
| "exec_op t (ODetach p) s =
     valid_promise s p (with_unique t p s (bindR (Detach p s) (\<lambda>s'. ret s' VVoid)))"
| "exec_op t (OWaitDone p) s = valid_promise s p (Handle_WaitDone t p s)"
| "exec_op t (OWaitAwaited p n) s = valid_promise s p (Handle_WaitAwaited t p n s)"
| "exec_op t (OAtomic f) s = (let (b, v) = f (objects s) in ret (s\<lparr>objects := b\<rparr>) v)"
| "exec_op t (OAssert b n) s = (if b then ret s VVoid else Fault (AssertFailed (A_client n)))"
| "exec_op t (OSpawn f) s = ret s VVoid"  \<comment> \<open>the new thread is added by the step\<close>

subsection \<open>Steps\<close>

text \<open>Handle::IS\_VOID: the coroutine ends with \<^verbatim>\<open>return_void\<close>.\<close>

definition void_coroutine :: "'o promise \<Rightarrow> bool" where
  "void_coroutine x \<longleftrightarrow> p_with_resolver x \<or> is_void (p_type x)"

type_synonym 'o step_result = "('o store \<times> 'o frame list \<times> 'o thread list) result"

text \<open>
  The end of a coroutine body: return\_void, return\_value or unhandled\_exception, after which
  the coroutine runs its final suspension.
\<close>

definition co_return :: "pid \<Rightarrow> outcome \<Rightarrow> 'o frame list \<Rightarrow> 'o store \<Rightarrow> 'o step_result" where
  "co_return p x fs s =
     (let y = promises s ! p in
      if p_delayed_return y \<noteq> None then Fault (AssertFailed A_no_delayed_return)
      else (let d = (case x of Inl e \<Rightarrow> Some (Inl e)
                     | Inr v \<Rightarrow> if void_coroutine y then None else Some (Inr v))
            in Next (upd_promise p (\<lambda>y. y\<lparr>p_delayed_return := d\<rparr>) s, FinalSuspend p # fs, [])))"

text \<open>
  \<^verbatim>\<open>co_await q\<close>: await\_ready and, when the promise is done, await\_resume; otherwise the
  coroutine is suspended before await\_suspend runs.
\<close>

definition co_await ::
    "tid \<Rightarrow> pid \<Rightarrow> pid \<Rightarrow> (outcome \<Rightarrow> 'o prog) \<Rightarrow> 'o frame list \<Rightarrow> 'o store \<Rightarrow> 'o step_result" where
  "co_await t p q k fs s =
     valid_promise s q (with_shared t q s (bindR (IsDone s q) (\<lambda>d.
       if d then bindR (await_resume s q) (\<lambda>x. Next (s, Run (Coroutine p) (k x) # fs, []))
       else Next (upd_promise p (\<lambda>y. y\<lparr>p_handle := Suspended q k\<rparr>) s, Suspend p q # fs, []))))"

definition await_suspend :: "tid \<Rightarrow> pid \<Rightarrow> pid \<Rightarrow> 'o frame list \<Rightarrow> 'o store \<Rightarrow> 'o step_result" where
  "await_suspend t p q fs s =
     with_unique t q s (bindR (IsDone s q) (\<lambda>d.
       if d then Next (s, Resume p # fs, [])
       else if \<not> p_with_resolver (promises s ! q) \<and> Handle_Done s q
            then Fault (AssertFailed A_pending_handle)
            else bindR (Await_coroutine q p s) (\<lambda>s'. Next (s', fs, []))))"

text \<open>
  resume(): from the initial suspension point (InitSuspend::await\_resume checks that a resolver
  is attached) or from a co\_await.
\<close>

definition resume :: "tid \<Rightarrow> pid \<Rightarrow> 'o frame list \<Rightarrow> 'o store \<Rightarrow> 'o step_result" where
  "resume t p fs s =
     (let s' = upd_promise p (\<lambda>y. y\<lparr>p_handle := Running\<rparr>) s in
      case p_handle (promises s ! p) of
        Initial g \<Rightarrow>
          Next (s', Run (Coroutine p)
                  (if p_resolver (promises s ! p) = None
                   then Throw (Exc ''std::runtime_error''
                          ''Promise with resolver must be created with MakePromise'')
                   else g) # fs, [])
      | Suspended q k \<Rightarrow>
          with_shared t q s (bindR (await_resume s q) (\<lambda>x.
            Next (s', Run (Coroutine p) (k x) # fs, [])))
      | _ \<Rightarrow> Fault (AssertFailed A_resumable))"

text \<open>
  The locked part of Resolver::Resolve and Resolver::Reject with the call of OnResolved.
\<close>

definition settle :: "tid \<Rightarrow> rid \<Rightarrow> outcome \<Rightarrow> 'o frame list \<Rightarrow> 'o store \<Rightarrow> 'o step_result" where
  "settle t r x fs s =
     (case r_promise (resolvers s ! r) of
        None \<Rightarrow> Fault (AssertFailed A_promise_alive)
      | Some p \<Rightarrow>
          with_unique t p s
            (if Resolver_Done (resolvers s ! r) then Fault (AssertFailed A_value_unset)
             else if r_exception (resolvers s ! r) \<noteq> None then Fault (AssertFailed A_exception_unset)
             else (let (as, s') = OnResolved p (upd_resolver r (store_outcome x) s)
                   in Next (s', Awaiters as # fs, []))))"

definition final_suspend :: "pid \<Rightarrow> 'o frame list \<Rightarrow> 'o store \<Rightarrow> 'o step_result" where
  "final_suspend p fs s =
     (let y = promises s ! p; s' = upd_promise p (\<lambda>y. y\<lparr>p_delayed_return := None\<rparr>) s in
      case p_delayed_return y of
        Some d \<Rightarrow>
          (case p_resolver y of
             None \<Rightarrow> Fault (AssertFailed A_resolver_set)
           | Some r \<Rightarrow> Next (s', Exchange r d # FinalCleanup p # fs, []))
      | None \<Rightarrow>
          if is_void (p_type y) \<and> \<not> p_with_resolver y then
            (case p_resolver y of
               None \<Rightarrow> Fault (AssertFailed A_resolver_set)
             | Some r \<Rightarrow> Next (s, Exchange r (Inr VVoid) # FinalCleanup p # fs, []))
          else if void_coroutine y then Next (s, FinalCleanup p # fs, [])
          else Fault (AssertFailed A_value_returned))"

definition final_cleanup :: "tid \<Rightarrow> pid \<Rightarrow> 'o frame list \<Rightarrow> 'o store \<Rightarrow> 'o step_result" where
  "final_cleanup t p fs s =
     with_unique t p s
       (let s' = upd_promise p (\<lambda>y. y\<lparr>p_handle := NoHandle, p_function := False\<rparr>) s in
        bindR (IsDone s' p) (\<lambda>d.
          if d then (let (as, s'') = OnResolved p s' in Next (s'', Awaiters as # fs, []))
          else Next (s', fs, [])))"

fun step_frame :: "tid \<Rightarrow> 'o frame \<Rightarrow> 'o frame list \<Rightarrow> 'o store \<Rightarrow> 'o step_result" where
  "step_frame t (Run Plain (Return v)) fs s = Next (s, fs, [])"
| "step_frame t (Run Plain (Throw e)) fs s = Fault (Uncaught e)"
| "step_frame t (Run (Coroutine p) (Return v)) fs s = co_return p (Inr v) fs s"
| "step_frame t (Run (Coroutine p) (Throw e)) fs s = co_return p (Inl e) fs s"
| "step_frame t (Run Plain (CoAwait q k)) fs s = Fault AwaitOutsideCoroutine"
| "step_frame t (Run (Coroutine p) (CoAwait q k)) fs s = co_await t p q k fs s"
| "step_frame t (Run c (Call a k)) fs s =
     bindR (exec_op t a s) (\<lambda>(s', new, x).
       Next (s', new @ Run c (k x) # fs,
             case a of OSpawn g \<Rightarrow> [[Run Plain g]] | _ \<Rightarrow> []))"
| "step_frame t (Exchange r x) fs s =
     bindR (resolve_op r x s) (\<lambda>(s', new, y). Next (s', new @ fs, []))"
| "step_frame t (Settle r x) fs s = settle t r x fs s"
| "step_frame t (Awaiters []) fs s = Next (s, fs, [])"
| "step_frame t (Awaiters (ACoroutine h # as)) fs s = Next (s, Resume h # Awaiters as # fs, [])"
| "step_frame t (Awaiters (AFunction i g # as)) fs s =
     Next (s, Run Plain g # Awaiters as # fs, [])"
| "step_frame t (Suspend p q) fs s = await_suspend t p q fs s"
| "step_frame t (Resume p) fs s = resume t p fs s"
| "step_frame t (FinalSuspend p) fs s = final_suspend p fs s"
| "step_frame t (FinalCleanup p) fs s = final_cleanup t p fs s"

definition step :: "tid \<Rightarrow> 'o machine \<Rightarrow> 'o machine result" where
  "step t m =
     (if t < length (threads m)
      then (case threads m ! t of
              [] \<Rightarrow> Blocked
            | f # fs \<Rightarrow>
                bindR (step_frame t f fs (mem m)) (\<lambda>(s', st, new).
                  Next \<lparr>mem = s', threads = (threads m)[t := st] @ new\<rparr>))
      else Blocked)"

definition empty_store :: "'o \<Rightarrow> 'o store" where
  "empty_store b = \<lparr>promises = [], resolvers = [], rejects = [], objects = b\<rparr>"

definition init :: "'o \<Rightarrow> 'o prog list \<Rightarrow> 'o machine" where
  "init b gs = \<lparr>mem = empty_store b, threads = map (\<lambda>g. [Run Plain g]) gs\<rparr>"

inductive steps :: "'o machine \<Rightarrow> 'o machine \<Rightarrow> bool" where
  steps_refl: "steps m m"
| steps_step: "steps m m' \<Longrightarrow> step t m' = Next m'' \<Longrightarrow> steps m m''"

inductive reachable :: "'o machine \<Rightarrow> bool" where
  reachable_init: "reachable (init b gs)"
| reachable_step: "reachable m \<Longrightarrow> step t m = Next m' \<Longrightarrow> reachable m'"

text \<open>A schedule as a list of threads, run one after the other.\<close>

fun run :: "tid list \<Rightarrow> 'o machine \<Rightarrow> 'o machine result" where
  "run [] m = Next m"
| "run (t # ts) m = bindR (step t m) (run ts)"

text \<open>The machine after a schedule that no fault or blocked thread stops.\<close>

definition after :: "'o machine \<Rightarrow> tid list \<Rightarrow> 'o machine" where
  "after m ts = (case run ts m of Next m' \<Rightarrow> m' | _ \<Rightarrow> m)"

lemma run_steps: "run ts m = Next m' \<Longrightarrow> steps m0 m \<Longrightarrow> steps m0 m'"
  by (induction ts arbitrary: m) (auto intro: steps_step)

lemma steps_after: "steps m (after m ts)"
  by (auto simp: after_def intro: run_steps steps_refl split: result.splits)

lemma reachable_steps: "steps m m' \<Longrightarrow> reachable m \<Longrightarrow> reachable m'"
  by (induction rule: steps.induct) (auto intro: reachable_step)

lemma reachable_after [intro]: "reachable m \<Longrightarrow> reachable (after m ts)"
  using reachable_steps [OF steps_after] .

end
