(* ===== verification/Invariant.thy ===== *)
theory Invariant
  imports Machine
begin

text \<open>
  The invariant of the machine. \<open>store_ok\<close> says how the objects of the heap point at each other
  and that a settled promise with no coroutine has no awaiter left. The frames of the threads are
  tied to the heap by two ledgers: a live coroutine is mentioned by exactly one awaiter or frame,
  and a resolver whose flag is set but whose outcome is not yet stored has exactly one pending
  \<open>Settle\<close> frame. \<open>frame_ok\<close> says what each frame may rely on.
\<close>

subsection \<open>The heap\<close>

abbreviation done_at :: "'o store \<Rightarrow> pid \<Rightarrow> bool" where
  "done_at s p \<equiv> outcome_of s p \<noteq> None"

definition linked :: "'o store \<Rightarrow> bool" where
  "linked s \<longleftrightarrow>
     (\<forall>p < length (promises s). \<exists>r < length (resolvers s).
        p_resolver (promises s ! p) = Some r \<and> r_promise (resolvers s ! r) = Some p \<and>
        r_type (resolvers s ! r) = p_type (promises s ! p)) \<and>
     (\<forall>r < length (resolvers s). \<exists>p < length (promises s).
        r_promise (resolvers s ! r) = Some p \<and> p_resolver (promises s ! p) = Some r) \<and>
     (\<forall>j < length (rejects s). j_resolver (rejects s ! j) < length (resolvers s))"

definition resolver_ok :: "resolver \<Rightarrow> bool" where
  "resolver_ok r \<longleftrightarrow>
     (r_value r = None \<or> r_exception r = None) \<and>
     (resolver_outcome r \<noteq> None \<longrightarrow> r_resolved r) \<and>
     (\<forall>v. is_void (r_type r) \<and> r_value r = Some v \<longrightarrow> v = VVoid)"

definition no_lost_wakeup :: "'o store \<Rightarrow> bool" where
  "no_lost_wakeup s \<longleftrightarrow>
     (\<forall>p < length (promises s).
        done_at s p \<and> Handle_Done s p \<longrightarrow> p_awaiters (promises s ! p) = [])"

definition store_ok :: "'o store \<Rightarrow> bool" where
  "store_ok s \<longleftrightarrow> linked s \<and> (\<forall>r \<in> set (resolvers s). resolver_ok r) \<and> no_lost_wakeup s"

subsection \<open>Frames\<close>

definition ready :: "'o store \<Rightarrow> pid \<Rightarrow> bool" where
  "ready s p \<longleftrightarrow> p < length (promises s) \<and> p_delayed_return (promises s ! p) = None \<and>
     (case p_handle (promises s ! p) of
        Initial g \<Rightarrow> True
      | Suspended q k \<Rightarrow> q < length (promises s) \<and> done_at s q
      | _ \<Rightarrow> False)"

definition waiting_on :: "'o store \<Rightarrow> pid \<Rightarrow> pid \<Rightarrow> bool" where
  "waiting_on s p q \<longleftrightarrow> p < length (promises s) \<and> q < length (promises s) \<and>
     p_delayed_return (promises s ! p) = None \<and>
     (case p_handle (promises s ! p) of Suspended q' k \<Rightarrow> q' = q | _ \<Rightarrow> False)"

definition running :: "'o store \<Rightarrow> pid \<Rightarrow> bool" where
  "running s p \<longleftrightarrow> p < length (promises s) \<and>
     (case p_handle (promises s ! p) of Running \<Rightarrow> True | _ \<Rightarrow> False)"

fun awaiter_ready :: "'o store \<Rightarrow> 'o awaiter \<Rightarrow> bool" where
  "awaiter_ready s (ACoroutine p) = ready s p"
| "awaiter_ready s (AFunction i g) = True"

fun awaiter_waiting :: "'o store \<Rightarrow> pid \<Rightarrow> 'o awaiter \<Rightarrow> bool" where
  "awaiter_waiting s q (ACoroutine p) = waiting_on s p q"
| "awaiter_waiting s q (AFunction i g) = True"

definition awaiters_ok :: "'o store \<Rightarrow> bool" where
  "awaiters_ok s \<longleftrightarrow>
     (\<forall>q < length (promises s). \<forall>a \<in> set (p_awaiters (promises s ! q)). awaiter_waiting s q a)"

fun frame_ok :: "'o store \<Rightarrow> 'o frame \<Rightarrow> bool" where
  "frame_ok s (Run Plain g) = True"
| "frame_ok s (Run (Coroutine p) g) = (running s p \<and> p_delayed_return (promises s ! p) = None)"
| "frame_ok s (Exchange r x) = (r < length (resolvers s))"
| "frame_ok s (Settle r x) = (r < length (resolvers s) \<and> r_resolved (resolvers s ! r) \<and>
     resolver_outcome (resolvers s ! r) = None)"
| "frame_ok s (Awaiters as) = (\<forall>a \<in> set as. awaiter_ready s a)"
| "frame_ok s (Suspend p q) = waiting_on s p q"
| "frame_ok s (Resume p) = ready s p"
| "frame_ok s (FinalSuspend p) = running s p"
| "frame_ok s (FinalCleanup p) = (running s p \<and> p_delayed_return (promises s ! p) = None)"

subsection \<open>The two ledgers\<close>

fun awaiter_token :: "pid \<Rightarrow> 'o awaiter \<Rightarrow> nat" where
  "awaiter_token p (ACoroutine q) = of_bool (q = p)"
| "awaiter_token p (AFunction i g) = 0"

abbreviation awaiters_tokens :: "pid \<Rightarrow> 'o awaiter list \<Rightarrow> nat" where
  "awaiters_tokens p as \<equiv> sum_list (map (awaiter_token p) as)"

fun frame_token :: "pid \<Rightarrow> 'o frame \<Rightarrow> nat" where
  "frame_token p (Run Plain g) = 0"
| "frame_token p (Run (Coroutine q) g) = of_bool (q = p)"
| "frame_token p (Exchange r x) = 0"
| "frame_token p (Settle r x) = 0"
| "frame_token p (Awaiters as) = awaiters_tokens p as"
| "frame_token p (Suspend q q') = of_bool (q = p)"
| "frame_token p (Resume q) = of_bool (q = p)"
| "frame_token p (FinalSuspend q) = of_bool (q = p)"
| "frame_token p (FinalCleanup q) = of_bool (q = p)"

definition store_tokens :: "pid \<Rightarrow> 'o store \<Rightarrow> nat" where
  "store_tokens p s = sum_list (map (\<lambda>x. awaiters_tokens p (p_awaiters x)) (promises s))"

definition live :: "pid \<Rightarrow> 'o store \<Rightarrow> nat" where
  "live p s = of_bool (p < length (promises s) \<and> \<not> Handle_Done s p)"

fun settle_token :: "rid \<Rightarrow> 'o frame \<Rightarrow> nat" where
  "settle_token r (Settle q x) = of_bool (q = r)"
| "settle_token r f = 0"

definition unsettled :: "rid \<Rightarrow> 'o store \<Rightarrow> nat" where
  "unsettled r s = of_bool (r < length (resolvers s) \<and> r_resolved (resolvers s ! r) \<and>
     resolver_outcome (resolvers s ! r) = None)"

definition ledger_total ::
    "('k \<Rightarrow> 'o frame \<Rightarrow> nat) \<Rightarrow> ('k \<Rightarrow> 'o store \<Rightarrow> nat) \<Rightarrow> 'k \<Rightarrow> 'o machine \<Rightarrow> nat" where
  "ledger_total tok stock k m =
     sum_list (map (\<lambda>fs. sum_list (map (tok k) fs)) (threads m)) + stock k (mem m)"

subsection \<open>The invariant\<close>

definition machine_ok :: "'o machine \<Rightarrow> bool" where
  "machine_ok m \<longleftrightarrow>
     store_ok (mem m) \<and> awaiters_ok (mem m) \<and>
     (\<forall>fs \<in> set (threads m). \<forall>f \<in> set fs. frame_ok (mem m) f) \<and>
     (\<forall>p. ledger_total frame_token store_tokens p m = live p (mem m)) \<and>
     (\<forall>r. ledger_total settle_token (\<lambda>r s. 0) r m = unsettled r (mem m))"

end
