(* ===== verification/Evolution.thy ===== *)
theory Evolution
  imports Invariant
begin

text \<open>
  How one step changes the heap. \<open>evolves f s s'\<close> bounds what a step of the frame \<open>f\<close> may do:
  objects stay allocated and linked, an outcome once stored stays, and only the coroutine and the
  resolver whose token \<open>f\<close> holds change their state. The atomic operations change less than that
  (\<open>op_ext\<close>): no coroutine and no outcome at all.
\<close>

subsection \<open>Reads of linked promises\<close>

lemma linked_resolver_of:
  assumes "linked s" "p < length (promises s)"
  obtains r where "r < length (resolvers s)" "p_resolver (promises s ! p) = Some r"
    "r_promise (resolvers s ! r) = Some p" "r_type (resolvers s ! r) = p_type (promises s ! p)"
  using assms unfolding linked_def by blast

lemma linked_promise_of:
  assumes "linked s" "r < length (resolvers s)"
  obtains p where "p < length (promises s)" "r_promise (resolvers s ! r) = Some p"
    "p_resolver (promises s ! p) = Some r"
  using assms unfolding linked_def by blast

lemma outcome_of_resolver:
  "p < length (promises s) \<Longrightarrow> p_resolver (promises s ! p) = Some r \<Longrightarrow>
     outcome_of s p = resolver_outcome (resolvers s ! r)"
  by (simp add: outcome_of_def)

lemma IsDone_linked:
  assumes "linked s" "p < length (promises s)"
  shows "IsDone s p = Next (done_at s p)"
proof -
  obtain r where r: "p_resolver (promises s ! p) = Some r"
    using assms by (rule linked_resolver_of)
  show ?thesis
    using assms(2) r by (auto simp: IsDone_def outcome_of_def resolver_outcome_None)
qed

lemma IsResolved_linked:
  assumes "linked s" "p < length (promises s)"
  obtains r where "IsResolved s p = Next (r_value (resolvers s ! r) \<noteq> None)"
    "IsRejected s p = Next (r_exception (resolvers s ! r) \<noteq> None)"
    "p_resolver (promises s ! p) = Some r" "r < length (resolvers s)"
proof -
  obtain r where r: "p_resolver (promises s ! p) = Some r" "r < length (resolvers s)"
    using assms by (rule linked_resolver_of)
  show ?thesis by (rule that [of r]) (use r in \<open>auto simp: IsResolved_def IsRejected_def\<close>)
qed

text \<open>A void resolver stores no value but the flag; both readers agree with \<open>outcome_of\<close>.\<close>

lemma await_resume_read: "await_resume s p = Next x \<Longrightarrow> read_outcome s p = Next x"
  by (auto simp: await_resume_def read_outcome_def split: option.splits if_splits)

subsection \<open>Effects of the atomic operations\<close>

definition is_coroutine :: "'o awaiter \<Rightarrow> bool" where
  "is_coroutine a \<longleftrightarrow> (case a of ACoroutine h \<Rightarrow> True | AFunction i g \<Rightarrow> False)"

definition coro_awaiters :: "'o awaiter list \<Rightarrow> 'o awaiter list" where
  "coro_awaiters as = filter is_coroutine as"

lemma is_coroutine_simps [simp]:
  "is_coroutine (ACoroutine h)" "\<not> is_coroutine (AFunction i g)"
  by (simp_all add: is_coroutine_def)

lemma coro_awaiters_simps [simp]:
  "coro_awaiters [] = []"
  "coro_awaiters (as @ bs) = coro_awaiters as @ coro_awaiters bs"
  "coro_awaiters (ACoroutine h # as) = ACoroutine h # coro_awaiters as"
  "coro_awaiters (AFunction i g # as) = coro_awaiters as"
  by (simp_all add: coro_awaiters_def)

lemma awaiters_tokens_coro: "awaiters_tokens p (coro_awaiters as) = awaiters_tokens p as"
proof (induction as)
  case (Cons a as)
  then show ?case by (cases a) auto
qed simp

lemma ACoroutine_coro: "ACoroutine h \<in> set (coro_awaiters as) \<longleftrightarrow> ACoroutine h \<in> set as"
  by (auto simp: coro_awaiters_def)

lemma coro_erase_function: "coro_awaiters (erase_first (is_function i) as) = coro_awaiters as"
proof (induction as)
  case (Cons a as)
  then show ?case by (cases a) auto
qed simp

text \<open>The part of an object that the operations do not change.\<close>

definition core :: "'o promise \<Rightarrow> cty \<times> bool \<times> 'o coroutine \<times> rid option \<times> outcome option \<times> 'o awaiter list" where
  "core x = (p_type x, p_with_resolver x, p_handle x, p_resolver x, p_delayed_return x,
             coro_awaiters (p_awaiters x))"

definition rcore :: "resolver \<Rightarrow> cty \<times> pid option \<times> val option \<times> exc option" where
  "rcore r = (r_type r, r_promise r, r_value r, r_exception r)"

definition op_ext :: "'o store \<Rightarrow> 'o promise list \<Rightarrow> resolver list \<Rightarrow> reject_handle list \<Rightarrow>
    'o store \<Rightarrow> bool" where
  "op_ext s ns ms ks s' \<longleftrightarrow>
     (\<exists>ps rs js. promises s' = ps @ ns \<and> map core ps = map core (promises s) \<and>
                 resolvers s' = rs @ ms \<and> map rcore rs = map rcore (resolvers s) \<and>
                 rejects s' = js @ ks \<and> map j_resolver js = map j_resolver (rejects s))"

text \<open>What an operation allocates: nothing, or one promise with its resolver and handle.\<close>

definition fresh :: "'o store \<Rightarrow> 'o promise list \<Rightarrow> resolver list \<Rightarrow> reject_handle list \<Rightarrow>
    'o coroutine \<Rightarrow> bool" where
  "fresh s ns ms ks h \<longleftrightarrow>
     (\<exists>x. ns = [x] \<and> ms = [linked_resolver (p_type x) (length (promises s))] \<and>
        map j_resolver ks = [length (resolvers s)] \<and>
        p_handle x = h \<and> p_resolver x = Some (length (resolvers s)) \<and>
        p_delayed_return x = None \<and> p_awaiters x = [] \<and> (h = NoHandle \<longrightarrow> p_with_resolver x))"

lemma map_upd_nth_same: "(\<And>x. g (f x) = g x) \<Longrightarrow> map g (upd_nth i f xs) = map g xs"
  by (rule nth_equalityI) (auto simp: nth_upd_nth)

lemma op_ext_upd_promise:
  "(\<And>x. core (f x) = core x) \<Longrightarrow> op_ext s [] [] [] (upd_promise p f s)"
  by (auto simp: op_ext_def map_upd_nth_same)

lemma op_ext_upd_resolver:
  "(\<And>x. rcore (f x) = rcore x) \<Longrightarrow> op_ext s [] [] [] (upd_resolver r f s)"
  by (auto simp: op_ext_def map_upd_nth_same)

lemma op_ext_refl [simp]: "op_ext s [] [] [] s"
  by (auto simp: op_ext_def)

lemma op_ext_objects [simp]: "op_ext s [] [] [] (s\<lparr>objects := b\<rparr>)"
  by (auto simp: op_ext_def)

lemma op_ext_Promise_Create:
  assumes "Promise_Create T s = (p, r, j, s')"
  shows "\<exists>ns ms ks. op_ext s ns ms ks s' \<and> fresh s ns ms ks NoHandle"
  using assms by (fastforce simp: Promise_Create_eq op_ext_def fresh_def)

lemma op_ext_CreateImpl:
  assumes "CreateImpl T w body s = (p, r, j, s')"
  shows "\<exists>ns ms ks. op_ext s ns ms ks s' \<and>
     fresh s ns ms ks (Initial (body (length (resolvers s)) (length (rejects s)))) \<and>
     p = length (promises s)"
  using assms by (fastforce simp: CreateImpl_eq op_ext_def fresh_def)

lemma op_ext_resolve_op:
  "resolve_op r x s = Next (s', new, y) \<Longrightarrow>
     op_ext s [] [] [] s' \<and> (new = [] \<or> new = [Settle r x])"
  by (auto simp: resolve_op_def exchange_resolved_def Let_def rcore_def
      intro!: op_ext_upd_resolver split: if_splits)

lemma op_ext_reject_op:
  "reject_op j e s = Next (s', new, y) \<Longrightarrow>
     op_ext s [] [] [] s' \<and> (new = [] \<or> (\<exists>r. new = [Settle r (Inl e)]))"
  by (auto simp: reject_op_def resolve_op_def exchange_rejected_def exchange_resolved_def Let_def
      rcore_def op_ext_def map_upd_nth_same split: if_splits)

lemma op_ext_UnAwait: "UnAwait p i s = (b, s') \<Longrightarrow> op_ext s [] [] [] s'"
  by (auto simp: UnAwait_def core_def coro_erase_function intro!: op_ext_upd_promise
      split: if_splits)

lemma Await_function_Next:
  "Await_function p f s = Next (i, s') \<Longrightarrow>
     IsDone s p = Next False \<and> i = p_use_count (promises s ! p) + 1 \<and>
     s' = upd_promise p (\<lambda>x. x\<lparr>p_use_count := i, p_awaiters := p_awaiters x @ [AFunction i f]\<rparr>) s"
  by (auto simp: Await_function_def Let_def split: if_splits)

lemma op_ext_try_await:
  "try_await t p f s = Next (s', new, y) \<Longrightarrow> op_ext s [] [] [] s' \<and> new = []"
  by (auto simp: try_await_def with_unique_def Let_def ret_def core_def
      dest!: Await_function_Next intro!: op_ext_upd_promise split: if_splits)

lemma op_ext_try_await_new:
  assumes "p < length (promises s)" "try_await_new t p T2 f s = Next (s', new, y)"
  shows "new = [] \<and> (\<exists>ns ms ks. op_ext s ns ms ks s' \<and>
     (ns = [] \<and> ms = [] \<and> ks = [] \<or> fresh s ns ms ks NoHandle))"
proof -
  let ?x = "(new_promise T2 True NoHandle)\<lparr>p_resolver := Some (length (resolvers s))\<rparr>"
  consider (old) "s' = s" "new = []"
    | (await) i g where "new = []" "s' = upd_promise p
        (\<lambda>x. x\<lparr>p_use_count := i, p_awaiters := p_awaiters x @ [AFunction i g]\<rparr>)
        (snd (snd (snd (Promise_Create T2 s))))"
    using assms(2)
    by (auto simp: try_await_new_def with_unique_def Let_def ret_def Promise_Create_eq
        dest!: Await_function_Next split: if_splits)
  then show ?thesis
  proof cases
    case old
    then show ?thesis using op_ext_refl by blast
  next
    case await
    have "op_ext s [?x] [linked_resolver T2 (length (promises s))]
        [\<lparr>j_resolver = length (resolvers s), j_rejected = False\<rparr>] s'"
      using assms(1) await(2)
      by (auto simp: Promise_Create_eq op_ext_def upd_nth_append core_def map_upd_nth_same)
    moreover have "fresh s [?x] [linked_resolver T2 (length (promises s))]
        [\<lparr>j_resolver = length (resolvers s), j_rejected = False\<rparr>] NoHandle"
      by (simp add: fresh_def)
    ultimately show ?thesis using await(1) by blast
  qed
qed

lemma op_ext_Detach: "Detach p s = Next s' \<Longrightarrow> op_ext s [] [] [] s'"
  by (auto simp: Detach_def core_def intro!: op_ext_upd_promise)

lemmas op_ext_simps =
  valid_promise_def with_unique_def with_shared_def ret_def Let_def lock_shared_def
  unlock_shared_def core_def

text \<open>Every atomic operation: what it allocates and which frames it pushes.\<close>

definition op_effect :: "'o store \<Rightarrow> 'o store \<Rightarrow> 'o frame list \<Rightarrow> bool" where
  "op_effect s s' new \<longleftrightarrow>
     (\<exists>ns ms ks. op_ext s ns ms ks s' \<and>
        ((ns = [] \<and> ms = [] \<and> ks = [] \<and> (new = [] \<or> (\<exists>r y. new = [Settle r y]))) \<or>
         (fresh s ns ms ks NoHandle \<and> new = []) \<or>
         (\<exists>g. fresh s ns ms ks (Initial g) \<and> new = [Resume (length (promises s))])))"

lemma op_effect_quiet: "op_ext s [] [] [] s' \<Longrightarrow> op_effect s s' []"
  unfolding op_effect_def by blast

lemma exec_op_effect:
  assumes "exec_op t a s = Next (s', new, x)"
  shows "op_effect s s' new"
proof (cases a)
  case (OCreate T)
  then show ?thesis
    using assms op_ext_Promise_Create unfolding op_effect_def
    by (fastforce simp: ret_def split: prod.splits)
next
  case (OStart T w body)
  then show ?thesis
    using assms op_ext_CreateImpl unfolding op_effect_def by (fastforce split: prod.splits)
next
  case (OResolve r v)
  then show ?thesis using assms op_ext_resolve_op unfolding op_effect_def by fastforce
next
  case (OReject j e)
  then show ?thesis using assms op_ext_reject_op unfolding op_effect_def by fastforce
next
  case (OTryAwait p f)
  then show ?thesis
    using assms op_ext_try_await
    by (fastforce simp: valid_promise_def intro: op_effect_quiet split: if_splits)
next
  case (OTryAwaitNew p T2 f)
  then show ?thesis
    using assms op_ext_try_await_new unfolding op_effect_def
    by (fastforce simp: valid_promise_def split: if_splits)
next
  case (OUnAwait p i)
  then show ?thesis
    using assms op_ext_UnAwait
    by (fastforce simp: op_ext_simps intro: op_effect_quiet split: if_splits prod.splits)
next
  case (ODetach p)
  then show ?thesis
    using assms op_ext_Detach
    by (fastforce simp: op_ext_simps intro: op_effect_quiet split: if_splits)
qed (use assms in \<open>auto simp: op_ext_simps intro!: op_effect_quiet op_ext_upd_promise
      split: if_splits prod.splits\<close>)

subsection \<open>What op\_ext keeps\<close>

lemma op_ext_length:
  "op_ext s ns ms ks s' \<Longrightarrow>
     length (promises s') = length (promises s) + length ns \<and>
     length (resolvers s') = length (resolvers s) + length ms \<and>
     length (rejects s') = length (rejects s) + length ks"
  by (auto simp: op_ext_def dest: map_eq_imp_length_eq)

lemma op_ext_core:
  assumes "op_ext s ns ms ks s'" "p < length (promises s)"
  shows "core (promises s' ! p) = core (promises s ! p)"
proof -
  obtain ps where ps: "promises s' = ps @ ns" "map core ps = map core (promises s)"
    using assms(1) by (auto simp: op_ext_def)
  then have "length ps = length (promises s)" by (auto dest: map_eq_imp_length_eq)
  with ps assms(2) show ?thesis by (metis nth_append nth_map)
qed

lemma op_ext_rcore:
  assumes "op_ext s ns ms ks s'" "r < length (resolvers s)"
  shows "rcore (resolvers s' ! r) = rcore (resolvers s ! r)"
proof -
  obtain rs where rs: "resolvers s' = rs @ ms" "map rcore rs = map rcore (resolvers s)"
    using assms(1) by (auto simp: op_ext_def)
  then have "length rs = length (resolvers s)" by (auto dest: map_eq_imp_length_eq)
  with rs assms(2) show ?thesis by (metis nth_append nth_map)
qed

lemma op_ext_j_resolver:
  assumes "op_ext s ns ms ks s'" "j < length (rejects s)"
  shows "j_resolver (rejects s' ! j) = j_resolver (rejects s ! j)"
proof -
  obtain js where js: "rejects s' = js @ ks" "map j_resolver js = map j_resolver (rejects s)"
    using assms(1) by (auto simp: op_ext_def)
  then have "length js = length (rejects s)" by (auto dest: map_eq_imp_length_eq)
  with js assms(2) show ?thesis by (metis nth_append nth_map)
qed

lemma op_ext_new:
  assumes "op_ext s ns ms ks s'"
  shows "i < length ns \<Longrightarrow> promises s' ! (length (promises s) + i) = ns ! i"
    "i < length ms \<Longrightarrow> resolvers s' ! (length (resolvers s) + i) = ms ! i"
    "i < length ks \<Longrightarrow> rejects s' ! (length (rejects s) + i) = ks ! i"
  using assms by (auto simp: op_ext_def nth_append dest!: map_eq_imp_length_eq)

lemma op_ext_fields:
  assumes "op_ext s ns ms ks s'" "p < length (promises s)"
  shows "p_type (promises s' ! p) = p_type (promises s ! p)"
    "p_with_resolver (promises s' ! p) = p_with_resolver (promises s ! p)"
    "p_handle (promises s' ! p) = p_handle (promises s ! p)"
    "p_resolver (promises s' ! p) = p_resolver (promises s ! p)"
    "p_delayed_return (promises s' ! p) = p_delayed_return (promises s ! p)"
    "coro_awaiters (p_awaiters (promises s' ! p)) = coro_awaiters (p_awaiters (promises s ! p))"
    "Handle_Done s' p = Handle_Done s p"
  using op_ext_core [OF assms] by (auto simp: core_def Handle_Done_def)

lemma op_ext_rfields:
  assumes "op_ext s ns ms ks s'" "r < length (resolvers s)"
  shows "r_type (resolvers s' ! r) = r_type (resolvers s ! r)"
    "r_promise (resolvers s' ! r) = r_promise (resolvers s ! r)"
    "r_value (resolvers s' ! r) = r_value (resolvers s ! r)"
    "r_exception (resolvers s' ! r) = r_exception (resolvers s ! r)"
    "resolver_outcome (resolvers s' ! r) = resolver_outcome (resolvers s ! r)"
  using op_ext_rcore [OF assms] by (auto simp: rcore_def intro: resolver_outcome_cong)

lemma op_ext_outcome:
  assumes "op_ext s ns ms ks s'" "linked s" "p < length (promises s)"
  shows "outcome_of s' p = outcome_of s p"
proof -
  obtain r where r: "r < length (resolvers s)" "p_resolver (promises s ! p) = Some r"
    using assms(2,3) by (rule linked_resolver_of)
  show ?thesis
    using assms(3) r op_ext_fields [OF assms(1,3)] op_ext_rfields [OF assms(1) r(1)]
      op_ext_length [OF assms(1)]
    by (simp add: outcome_of_def)
qed

lemma op_ext_store_tokens:
  assumes "op_ext s ns ms ks s'" "\<And>x. x \<in> set ns \<Longrightarrow> p_awaiters x = []"
  shows "store_tokens q s' = store_tokens q s"
proof -
  have eq: "awaiters_tokens q (p_awaiters x) =
      (case core x of (_, _, _, _, _, as) \<Rightarrow> awaiters_tokens q as)" for x :: "'a promise"
    by (simp add: core_def awaiters_tokens_coro)
  have map_eq: "map (\<lambda>x. awaiters_tokens q (p_awaiters x)) xs =
      map (\<lambda>c. case c of (_, _, _, _, _, as) \<Rightarrow> awaiters_tokens q as) (map core xs)"
    for xs :: "'a promise list"
    by (simp add: eq)
  have zero: "sum_list (map (\<lambda>x. awaiters_tokens q (p_awaiters x)) ns) = 0"
    using assms(2) by (simp add: sum_list_map_eq_0_iff_nat)
  obtain ps where "promises s' = ps @ ns" "map core ps = map core (promises s)"
    using assms(1) by (auto simp: op_ext_def)
  then show ?thesis using zero by (simp add: store_tokens_def map_eq)
qed

lemma less_append_cases:
  "(i::nat) < n + length xs \<Longrightarrow> (i < n \<Longrightarrow> P) \<Longrightarrow> (\<And>j. i = n + j \<Longrightarrow> j < length xs \<Longrightarrow> P) \<Longrightarrow> P"
  by (metis add_less_cancel_left le_Suc_ex not_le)

lemma linked_op_ext_quiet:
  assumes "op_ext s [] [] [] s'" "linked s"
  shows "linked s'"
proof -
  have len: "length (promises s') = length (promises s)"
    "length (resolvers s') = length (resolvers s)" "length (rejects s') = length (rejects s)"
    using op_ext_length [OF assms(1)] by auto
  show ?thesis
    using assms(2) unfolding linked_def len
    by (auto simp: op_ext_fields [OF assms(1)] op_ext_rfields [OF assms(1)]
        op_ext_j_resolver [OF assms(1)])
qed

lemma linked_op_ext_fresh:
  assumes ext: "op_ext s ns ms ks s'" and fr: "fresh s ns ms ks h" and lk: "linked s"
  shows "linked s'"
proof -
  let ?p = "length (promises s)" and ?r = "length (resolvers s)"
  obtain x where ns: "ns = [x]" "ms = [linked_resolver (p_type x) ?p]"
      "map j_resolver ks = [?r]" "p_resolver x = Some ?r"
    using fr by (auto simp: fresh_def)
  obtain k where ks: "ks = [k]" "j_resolver k = ?r" using ns(3) by auto
  have len: "length (promises s') = Suc ?p" "length (resolvers s') = Suc ?r"
    "length (rejects s') = Suc (length (rejects s))"
    using op_ext_length [OF ext] ns ks by auto
  have new: "promises s' ! ?p = x" "resolvers s' ! ?r = linked_resolver (p_type x) ?p"
    "rejects s' ! length (rejects s) = k"
    using op_ext_new [OF ext, of 0] ns ks by auto
  have old: "\<exists>r < Suc ?r. p_resolver (promises s' ! p) = Some r \<and>
      r_promise (resolvers s' ! r) = Some p \<and>
      r_type (resolvers s' ! r) = p_type (promises s' ! p)" if p: "p < ?p" for p
  proof -
    obtain r where "r < ?r" "p_resolver (promises s ! p) = Some r"
      "r_promise (resolvers s ! r) = Some p" "r_type (resolvers s ! r) = p_type (promises s ! p)"
      using lk p by (rule linked_resolver_of)
    then show ?thesis
      using op_ext_fields [OF ext p] op_ext_rfields [OF ext \<open>r < ?r\<close>] by auto
  qed
  have old': "\<exists>p < Suc ?p. r_promise (resolvers s' ! r) = Some p \<and>
      p_resolver (promises s' ! p) = Some r" if r: "r < ?r" for r
  proof -
    obtain p where "p < ?p" "r_promise (resolvers s ! r) = Some p"
      "p_resolver (promises s ! p) = Some r" using lk r by (rule linked_promise_of)
    then show ?thesis
      using op_ext_fields [OF ext \<open>p < ?p\<close>] op_ext_rfields [OF ext r] by auto
  qed
  have oldj: "j_resolver (rejects s' ! j) < Suc ?r" if "j < length (rejects s)" for j
    using lk that op_ext_j_resolver [OF ext that] by (fastforce simp: linked_def)
  show ?thesis
    unfolding linked_def len less_Suc_eq_le le_less
    using old old' oldj new ns(4) ks(2) by (auto simp: less_Suc_eq)
qed

lemma linked_op_effect: "op_effect s s' new \<Longrightarrow> linked s \<Longrightarrow> linked s'"
  unfolding op_effect_def by (blast intro: linked_op_ext_quiet linked_op_ext_fresh)

lemma op_effect_ext:
  assumes "op_effect s s' new"
  obtains ns ms ks where "op_ext s ns ms ks s'" "\<And>x. x \<in> set ns \<Longrightarrow> p_awaiters x = []"
  using assms unfolding op_effect_def fresh_def by fastforce

subsection \<open>What a step of a frame may change\<close>

definition evolves :: "'o frame \<Rightarrow> 'o store \<Rightarrow> 'o store \<Rightarrow> bool" where
  "evolves f s s' \<longleftrightarrow>
     length (promises s) \<le> length (promises s') \<and>
     length (resolvers s) \<le> length (resolvers s') \<and>
     (\<forall>p < length (promises s).
        p_type (promises s' ! p) = p_type (promises s ! p) \<and>
        p_with_resolver (promises s' ! p) = p_with_resolver (promises s ! p) \<and>
        p_resolver (promises s' ! p) = p_resolver (promises s ! p) \<and>
        (frame_token p f = 0 \<longrightarrow>
           p_handle (promises s' ! p) = p_handle (promises s ! p) \<and>
           p_delayed_return (promises s' ! p) = p_delayed_return (promises s ! p))) \<and>
     (\<forall>r < length (resolvers s).
        r_type (resolvers s' ! r) = r_type (resolvers s ! r) \<and>
        r_promise (resolvers s' ! r) = r_promise (resolvers s ! r) \<and>
        (r_resolved (resolvers s ! r) \<longrightarrow> r_resolved (resolvers s' ! r)) \<and>
        (resolver_outcome (resolvers s ! r) \<noteq> None \<longrightarrow>
           resolver_outcome (resolvers s' ! r) = resolver_outcome (resolvers s ! r)) \<and>
        (settle_token r f = 0 \<longrightarrow>
           resolver_outcome (resolvers s' ! r) = resolver_outcome (resolvers s ! r)))"

lemma evolves_promise:
  assumes "evolves f s s'" "p < length (promises s)"
  shows "p < length (promises s')" "p_type (promises s' ! p) = p_type (promises s ! p)"
    "p_resolver (promises s' ! p) = p_resolver (promises s ! p)"
    "frame_token p f = 0 \<Longrightarrow> p_handle (promises s' ! p) = p_handle (promises s ! p)"
    "frame_token p f = 0 \<Longrightarrow>
       p_delayed_return (promises s' ! p) = p_delayed_return (promises s ! p)"
  using assms by (auto simp: evolves_def)

lemma evolves_resolver:
  assumes "evolves f s s'" "r < length (resolvers s)"
  shows "r < length (resolvers s')"
    "r_resolved (resolvers s ! r) \<Longrightarrow> r_resolved (resolvers s' ! r)"
    "resolver_outcome (resolvers s ! r) = Some x \<Longrightarrow> resolver_outcome (resolvers s' ! r) = Some x"
    "settle_token r f = 0 \<Longrightarrow>
       resolver_outcome (resolvers s' ! r) = resolver_outcome (resolvers s ! r)"
  using assms by (auto simp: evolves_def)

text \<open>An outcome, once there, stays.\<close>

lemma evolves_outcome:
  assumes "evolves f s s'" "linked s" "outcome_of s p = Some x"
  shows "outcome_of s' p = Some x"
proof -
  have p: "p < length (promises s)" using assms(3) by (auto simp: outcome_of_def split: if_splits)
  obtain r where r: "r < length (resolvers s)" "p_resolver (promises s ! p) = Some r"
    using assms(2) p by (rule linked_resolver_of)
  have "resolver_outcome (resolvers s ! r) = Some x"
    using assms(3) p r by (simp add: outcome_of_def)
  then show ?thesis
    using evolves_promise [OF assms(1) p] evolves_resolver(3) [OF assms(1) r(1)] r
    by (simp add: outcome_of_def)
qed

text \<open>A frame that shares no token with the stepping one stays valid.\<close>

lemma ready_evolves:
  assumes "evolves f s s'" "linked s" "ready s p" "frame_token p f = 0"
  shows "ready s' p"
proof -
  have p: "p < length (promises s)" using assms(3) by (simp add: ready_def)
  show ?thesis
    using assms(3) evolves_promise [OF assms(1) p] assms(4)
      evolves_outcome [OF assms(1,2)] evolves_promise(1) [OF assms(1)]
    by (auto simp: ready_def split: coroutine.splits)
qed

lemma waiting_on_evolves:
  assumes "evolves f s s'" "waiting_on s p q" "frame_token p f = 0"
  shows "waiting_on s' p q"
proof -
  have p: "p < length (promises s)" using assms(2) by (simp add: waiting_on_def)
  show ?thesis
    using assms(2) evolves_promise [OF assms(1) p] assms(3) evolves_promise(1) [OF assms(1)]
    by (auto simp: waiting_on_def)
qed

lemma awaiter_token_pos: "0 < awaiter_token p a \<longleftrightarrow> a = ACoroutine p"
  by (cases a) auto

lemma frame_ok_evolves:
  assumes ev: "evolves f s s'" and lk: "linked s" and ok: "frame_ok s g"
    and co: "\<And>p. 0 < frame_token p g \<Longrightarrow> frame_token p f = 0"
    and se: "\<And>r. 0 < settle_token r g \<Longrightarrow> settle_token r f = 0"
  shows "frame_ok s' g"
proof (cases "(s, g)" rule: frame_ok.cases)
  case (5 s1 as)
  have "awaiter_ready s' a" if "a \<in> set as" for a
  proof (cases a)
    case (ACoroutine p)
    have "awaiter_token p a \<le> awaiters_tokens p as"
      using that by (rule sum_list_member_le_nat)
    then have "frame_token p f = 0" using co [of p] ACoroutine 5 by simp
    then show ?thesis
      using ok that ACoroutine 5 ready_evolves [OF ev lk] by fastforce
  qed simp
  then show ?thesis using 5 by simp
qed (use ok co se evolves_promise [OF ev] evolves_resolver [OF ev] ready_evolves [OF ev lk]
      waiting_on_evolves [OF ev] in \<open>auto simp: running_def\<close>)

end
