(* ===== verification/Preservation.thy ===== *)
theory Preservation
  imports Evolution
begin

text \<open>
  Every step of a frame keeps the invariant: \<open>step_ok f s s' pushed\<close> collects what one step of the
  frame \<open>f\<close> guarantees (the heap evolves and stays consistent, the frames it pushes are valid, and
  both ledgers balance); one lemma per kind of frame proves it.
\<close>

subsection \<open>Writes to one promise\<close>

definition keeps_links :: "('o promise \<Rightarrow> 'o promise) \<Rightarrow> bool" where
  "keeps_links g \<longleftrightarrow> (\<forall>x. p_type (g x) = p_type x \<and> p_with_resolver (g x) = p_with_resolver x \<and>
     p_resolver (g x) = p_resolver x)"

lemma linked_cong:
  assumes "length (promises s') = length (promises s)"
    "length (resolvers s') = length (resolvers s)" "rejects s' = rejects s"
    "\<And>p. p < length (promises s) \<Longrightarrow> p_resolver (promises s' ! p) = p_resolver (promises s ! p) \<and>
       p_type (promises s' ! p) = p_type (promises s ! p)"
    "\<And>r. r < length (resolvers s) \<Longrightarrow> r_promise (resolvers s' ! r) = r_promise (resolvers s ! r) \<and>
       r_type (resolvers s' ! r) = r_type (resolvers s ! r)"
  shows "linked s' \<longleftrightarrow> linked s"
proof -
  have "(\<exists>r < length (resolvers s). p_resolver (promises s' ! p) = Some r \<and>
        r_promise (resolvers s' ! r) = Some p \<and>
        r_type (resolvers s' ! r) = p_type (promises s' ! p)) \<longleftrightarrow>
      (\<exists>r < length (resolvers s). p_resolver (promises s ! p) = Some r \<and>
        r_promise (resolvers s ! r) = Some p \<and>
        r_type (resolvers s ! r) = p_type (promises s ! p))" if "p < length (promises s)" for p
    using assms(4) [OF that] assms(5) by auto
  moreover have "(\<exists>p < length (promises s). r_promise (resolvers s' ! r) = Some p \<and>
        p_resolver (promises s' ! p) = Some r) \<longleftrightarrow>
      (\<exists>p < length (promises s). r_promise (resolvers s ! r) = Some p \<and>
        p_resolver (promises s ! p) = Some r)" if "r < length (resolvers s)" for r
    using assms(4) assms(5) [OF that] by auto
  ultimately show ?thesis unfolding linked_def assms(1-3) by simp
qed

lemma keeps_links_fields:
  assumes "keeps_links g"
  shows "p_type (upd_nth p g ps ! q) = p_type (ps ! q)"
    "p_with_resolver (upd_nth p g ps ! q) = p_with_resolver (ps ! q)"
    "p_resolver (upd_nth p g ps ! q) = p_resolver (ps ! q)"
  using assms nth_upd_nth_same [of p_type g] nth_upd_nth_same [of p_with_resolver g]
    nth_upd_nth_same [of p_resolver g]
  by (simp_all add: keeps_links_def)

lemma upd_promise_linked:
  assumes "keeps_links g"
  shows "linked (upd_promise p g s) \<longleftrightarrow> linked s"
  by (rule linked_cong) (auto simp: keeps_links_fields [OF assms])

lemma upd_promise_outcome:
  assumes "keeps_links g"
  shows "outcome_of (upd_promise p g s) q = outcome_of s q"
  by (simp add: outcome_of_def keeps_links_fields [OF assms] split: option.split)

lemma upd_promise_unsettled [simp]: "unsettled r (upd_promise p g s) = unsettled r s"
  by (simp add: unsettled_def)

lemma upd_promise_evolves:
  assumes "keeps_links g"
    "frame_token p f = 0 \<Longrightarrow> (\<And>x. p_handle (g x) = p_handle x \<and> p_delayed_return (g x) = p_delayed_return x)"
  shows "evolves f s (upd_promise p g s)"
  unfolding evolves_def
proof (intro conjI allI impI)
  fix q assume "q < length (promises s)" "frame_token q f = 0"
  then show "p_handle (promises (upd_promise p g s) ! q) = p_handle (promises s ! q)"
    "p_delayed_return (promises (upd_promise p g s) ! q) = p_delayed_return (promises s ! q)"
    using assms(2) by (cases "p = q"; simp)+
qed (auto simp: keeps_links_fields [OF assms(1)])

lemma Handle_Done_upd:
  "p < length (promises s) \<Longrightarrow> Handle_Done (upd_promise p g s) q =
     (case p_handle (if p = q then g (promises s ! p) else promises s ! q) of
        NoHandle \<Rightarrow> True | _ \<Rightarrow> False)"
  by (auto simp: Handle_Done_def)

lemma store_tokens_upd:
  assumes "q < length (promises s)"
  shows "store_tokens p (upd_promise q g s) + awaiters_tokens p (p_awaiters (promises s ! q)) =
     store_tokens p s + awaiters_tokens p (p_awaiters (g (promises s ! q)))"
  using sum_list_update_nat [OF assms, of "\<lambda>x. awaiters_tokens p (p_awaiters x)" "g (promises s ! q)"]
  by (simp add: store_tokens_def upd_nth_def)

lemma store_tokens_upd_same:
  "(\<And>x. p_awaiters (g x) = p_awaiters x) \<Longrightarrow> store_tokens p (upd_promise q g s) = store_tokens p s"
  by (simp add: store_tokens_def sum_list_upd_nth_same)

lemma store_tokens_upd_resolver [simp]: "store_tokens p (upd_resolver r g s) = store_tokens p s"
  by (simp add: store_tokens_def)

subsection \<open>What one step guarantees\<close>

definition awaiters_kept :: "'o store \<Rightarrow> 'o store \<Rightarrow> bool" where
  "awaiters_kept s s' \<longleftrightarrow>
     (\<forall>q < length (promises s'). \<forall>p. ACoroutine p \<in> set (p_awaiters (promises s' ! q)) \<longrightarrow>
        (q < length (promises s) \<and> ACoroutine p \<in> set (p_awaiters (promises s ! q))) \<or>
        waiting_on s' p q)"

definition step_ok :: "'o frame \<Rightarrow> 'o store \<Rightarrow> 'o store \<Rightarrow> 'o frame list \<Rightarrow> bool" where
  "step_ok f s s' pushed \<longleftrightarrow>
     evolves f s s' \<and> store_ok s' \<and> awaiters_kept s s' \<and> (\<forall>g \<in> set pushed. frame_ok s' g) \<and>
     (\<forall>p. sum_list (map (frame_token p) pushed) + store_tokens p s' + live p s =
          frame_token p f + store_tokens p s + live p s') \<and>
     (\<forall>r. sum_list (map (settle_token r) pushed) + unsettled r s =
          settle_token r f + unsettled r s')"

lemma awaiters_kept_refl [simp]: "awaiters_kept s s"
  by (simp add: awaiters_kept_def)

lemma awaiters_kept_subset:
  "length (promises s') = length (promises s) \<Longrightarrow>
     (\<And>q. q < length (promises s) \<Longrightarrow>
        set (p_awaiters (promises s' ! q)) \<subseteq> set (p_awaiters (promises s ! q))) \<Longrightarrow>
     awaiters_kept s s'"
  unfolding awaiters_kept_def by auto

lemma evolves_refl [simp]: "evolves f s s"
  by (simp add: evolves_def)

lemma step_ok_same_store:
  assumes "store_ok s" "\<forall>g \<in> set pushed. frame_ok s g"
    "\<And>p. sum_list (map (frame_token p) pushed) = frame_token p f"
    "\<And>r. sum_list (map (settle_token r) pushed) = settle_token r f"
  shows "step_ok f s s pushed"
  using assms by (simp add: step_ok_def)

text \<open>A write to the coroutine the frame owns, which stays alive, and to no awaiter.\<close>

lemma step_ok_upd_owner:
  assumes ok: "store_ok s" and p: "p < length (promises s)" and tok: "frame_token p f \<noteq> 0"
    and g: "keeps_links g" "\<And>x. p_awaiters (g x) = p_awaiters x"
    and live: "p_handle (promises s ! p) \<noteq> NoHandle" "p_handle (g (promises s ! p)) \<noteq> NoHandle"
    and fr: "\<forall>h \<in> set pushed. frame_ok (upd_promise p g s) h"
    and t: "\<And>q. sum_list (map (frame_token q) pushed) = frame_token q f"
    and r: "\<And>r. sum_list (map (settle_token r) pushed) = settle_token r f"
  shows "step_ok f s (upd_promise p g s) pushed"
proof -
  let ?s = "upd_promise p g s"
  have hd: "Handle_Done ?s q = Handle_Done s q" for q
    using p live by (auto simp: Handle_Done_upd) (auto simp: Handle_Done_def split: coroutine.splits)
  have aw: "p_awaiters (promises ?s ! q) = p_awaiters (promises s ! q)" for q
    using g(2) by (simp add: nth_upd_nth_same)
  have "evolves f s ?s" using g(1) tok by (intro upd_promise_evolves) auto
  moreover have "store_ok ?s"
    using ok by (simp add: store_ok_def upd_promise_linked [OF g(1)] no_lost_wakeup_def hd
        upd_promise_outcome [OF g(1)] aw [simplified])
  moreover have "awaiters_kept s ?s" by (rule awaiters_kept_subset) (simp_all add: aw [simplified])
  moreover have "live q ?s = live q s" for q by (simp add: live_def hd)
  ultimately show ?thesis
    using fr t r by (simp add: step_ok_def store_tokens_upd_same [OF g(2)])
qed

subsection \<open>Steps of a coroutine\<close>

lemma keeps_links_simps [simp]:
  "keeps_links (\<lambda>y. y\<lparr>p_delayed_return := d\<rparr>)"
  "keeps_links (\<lambda>y. y\<lparr>p_handle := h\<rparr>)"
  "keeps_links (\<lambda>y. y\<lparr>p_handle := h, p_function := b\<rparr>)"
  "keeps_links (\<lambda>y. y\<lparr>p_awaiters := as, p_self_owned := b\<rparr>)"
  "keeps_links (\<lambda>y. y\<lparr>p_use_count := u y, p_awaiters := a y\<rparr>)"
  by (simp_all add: keeps_links_def)

lemma running_handle: "running s p \<longleftrightarrow> p < length (promises s) \<and> p_handle (promises s ! p) = Running"
  by (auto simp: running_def split: coroutine.splits)

lemma waiting_on_handle:
  "waiting_on s p q \<longleftrightarrow> p < length (promises s) \<and> q < length (promises s) \<and>
     p_delayed_return (promises s ! p) = None \<and> (\<exists>k. p_handle (promises s ! p) = Suspended q k)"
  by (auto simp: waiting_on_def split: coroutine.splits)

lemma ready_cases:
  assumes "ready s p"
  obtains (init) g where "p < length (promises s)" "p_delayed_return (promises s ! p) = None"
      "p_handle (promises s ! p) = Initial g"
    | (susp) q k where "p < length (promises s)" "p_delayed_return (promises s ! p) = None"
      "p_handle (promises s ! p) = Suspended q k" "q < length (promises s)" "done_at s q"
  using assms unfolding ready_def by (cases "p_handle (promises s ! p)") auto

lemma co_return_ok:
  assumes "co_return p x fs s = Next (s', st, new)" "store_ok s" "frame_ok s (Run (Coroutine p) g)"
  shows "\<exists>pushed. st = pushed @ fs \<and> new = [] \<and> step_ok (Run (Coroutine p) g) s s' pushed"
proof -
  obtain d where s': "s' = upd_promise p (\<lambda>y. y\<lparr>p_delayed_return := d\<rparr>) s"
    and st: "st = [FinalSuspend p] @ fs" "new = []"
    using assms(1) by (auto simp: co_return_def Let_def split: if_splits)
  have "step_ok (Run (Coroutine p) g) s s' [FinalSuspend p]"
    unfolding s' by (rule step_ok_upd_owner) (use assms(2,3) in \<open>auto simp: running_handle\<close>)
  with st show ?thesis by blast
qed

lemma co_await_ok:
  assumes "co_await t p q k fs s = Next (s', st, new)" "store_ok s"
    "frame_ok s (Run (Coroutine p) g)"
  shows "\<exists>pushed. st = pushed @ fs \<and> new = [] \<and> step_ok (Run (Coroutine p) g) s s' pushed"
proof -
  consider (ready) x where "s' = s" "st = [Run (Coroutine p) (k x)] @ fs" "new = []"
    | (susp) "s' = upd_promise p (\<lambda>y. y\<lparr>p_handle := Suspended q k\<rparr>) s"
        "st = [Suspend p q] @ fs" "new = []" "q < length (promises s)"
    using assms(1)
    by (auto simp: co_await_def valid_promise_def with_shared_def split: if_splits)
  then show ?thesis
  proof cases
    case (ready x)
    have "step_ok (Run (Coroutine p) g) s s [Run (Coroutine p) (k x)]"
      by (rule step_ok_same_store) (use assms(2,3) in auto)
    with ready show ?thesis by blast
  next
    case susp
    have "step_ok (Run (Coroutine p) g) s s' [Suspend p q]"
      unfolding susp(1)
      by (rule step_ok_upd_owner)
        (use assms(2,3) susp(4) in \<open>auto simp: running_handle waiting_on_handle nth_upd_nth_same\<close>)
    with susp show ?thesis by blast
  qed
qed

lemma resume_ok:
  assumes "resume t p fs s = Next (s', st, new)" "store_ok s" "frame_ok s (Resume p)"
  shows "\<exists>pushed. st = pushed @ fs \<and> new = [] \<and> step_ok (Resume p) s s' pushed"
proof -
  have r: "ready s p" using assms(3) by simp
  obtain g where s': "s' = upd_promise p (\<lambda>y. y\<lparr>p_handle := Running\<rparr>) s"
    and st: "st = [Run (Coroutine p) g] @ fs" "new = []"
    using assms(1)
    by (auto simp: resume_def with_shared_def Let_def split: if_splits coroutine.splits)
  have p: "p < length (promises s)" "p_delayed_return (promises s ! p) = None"
    "p_handle (promises s ! p) \<noteq> NoHandle"
    using r by (cases rule: ready_cases; simp)+
  have "step_ok (Resume p) s s' [Run (Coroutine p) g]"
    unfolding s' by (rule step_ok_upd_owner) (use assms(2) p in \<open>auto simp: running_handle\<close>)
  with st show ?thesis by blast
qed

lemma final_suspend_ok:
  assumes "final_suspend p fs s = Next (s', st, new)" "store_ok s" "frame_ok s (FinalSuspend p)"
  shows "\<exists>pushed. st = pushed @ fs \<and> new = [] \<and> step_ok (FinalSuspend p) s s' pushed"
proof -
  let ?y = "promises s ! p"
  have run: "running s p" using assms(3) by simp
  have ok: "linked s" using assms(2) by (simp add: store_ok_def)
  have p: "p < length (promises s)" using run by (simp add: running_def)
  obtain r where r: "r < length (resolvers s)" "p_resolver ?y = Some r"
    using ok p by (rule linked_resolver_of)
  consider (ret) d where "s' = upd_promise p (\<lambda>y. y\<lparr>p_delayed_return := None\<rparr>) s"
        "st = [Exchange r d, FinalCleanup p] @ fs" "new = []"
    | (void) "s' = s" "st = [Exchange r (Inr VVoid), FinalCleanup p] @ fs" "new = []"
        "p_delayed_return ?y = None"
    | (none) "s' = s" "st = [FinalCleanup p] @ fs" "new = []" "p_delayed_return ?y = None"
    using assms(1) r(2) by (auto simp: final_suspend_def Let_def split: option.splits if_splits)
  then show ?thesis
  proof cases
    case (ret d)
    have "step_ok (FinalSuspend p) s s' [Exchange r d, FinalCleanup p]"
      unfolding ret(1) by (rule step_ok_upd_owner)
        (use assms(2) run r in \<open>auto simp: running_handle nth_upd_nth_same\<close>)
    with ret show ?thesis by blast
  next
    case void
    have "step_ok (FinalSuspend p) s s [Exchange r (Inr VVoid), FinalCleanup p]"
      by (rule step_ok_same_store) (use assms(2) void(4) run r in auto)
    with void show ?thesis by blast
  next
    case none
    have "step_ok (FinalSuspend p) s s [FinalCleanup p]"
      by (rule step_ok_same_store) (use assms(2) none(4) run in auto)
    with none show ?thesis by blast
  qed
qed

lemma step_awaiters_ok:
  assumes "store_ok s" "frame_ok s (Awaiters (a # as))"
  shows "step_ok (Awaiters (ACoroutine h # as)) s s [Resume h, Awaiters as]
      \<or> a \<noteq> ACoroutine h"
    "step_ok (Awaiters (AFunction i g # as)) s s [Run Plain g, Awaiters as]
      \<or> a \<noteq> AFunction i g"
  using assms by (auto intro!: step_ok_same_store)

text \<open>Suspending on a pending promise hands the coroutine over to its list of awaiters.\<close>

lemma await_suspend_ok:
  assumes "await_suspend t p q fs s = Next (s', st, new)" "store_ok s" "frame_ok s (Suspend p q)"
  shows "\<exists>pushed. st = pushed @ fs \<and> new = [] \<and> step_ok (Suspend p q) s s' pushed"
proof -
  have w: "waiting_on s p q" using assms(3) by simp
  then have pq: "p < length (promises s)" "q < length (promises s)"
    by (auto simp: waiting_on_def)
  have lk: "linked s" using assms(2) by (simp add: store_ok_def)
  let ?g = "\<lambda>x. x\<lparr>p_use_count := p_use_count x + 1, p_awaiters := p_awaiters x @ [ACoroutine p]\<rparr>"
  let ?s = "upd_promise q ?g s"
  consider (settled) "done_at s q" "s' = s" "st = [Resume p] @ fs" "new = []"
    | (wait) "\<not> done_at s q" "s' = ?s" "st = [] @ fs" "new = []"
    using assms(1) pq lk
    by (auto simp: await_suspend_def with_unique_def Await_coroutine_def Let_def IsDone_linked
        split: if_splits)
  then show ?thesis
  proof cases
    case settled
    have "step_ok (Suspend p q) s s [Resume p]"
      by (rule step_ok_same_store)
        (use assms(2) w settled(1) in \<open>auto simp: waiting_on_handle ready_def\<close>)
    with settled show ?thesis by blast
  next
    case wait
    have hd: "Handle_Done ?s h = Handle_Done s h" for h
      using pq by (simp add: Handle_Done_upd) (simp add: Handle_Done_def)
    have oc: "outcome_of ?s h = outcome_of s h" for h
      by (rule upd_promise_outcome) simp
    have wt: "waiting_on ?s p q"
      using w by (auto simp: waiting_on_handle nth_upd_nth)
    have "evolves (Suspend p q) s ?s" by (rule upd_promise_evolves) auto
    moreover have "store_ok ?s"
      using assms(2) wait(1) by (auto simp: store_ok_def upd_promise_linked no_lost_wakeup_def hd oc
          nth_upd_nth)
    moreover have "awaiters_kept s ?s"
      using wt by (auto simp: awaiters_kept_def nth_upd_nth)
    moreover have "store_tokens h ?s = of_bool (p = h) + store_tokens h s" for h
      using store_tokens_upd [OF pq(2), of h ?g] by simp
    moreover have "live h ?s = live h s" for h by (simp add: live_def hd)
    ultimately have "step_ok (Suspend p q) s ?s []" by (simp add: step_ok_def)
    with wait show ?thesis by blast
  qed
qed

subsection \<open>Steps that release awaiters\<close>

lemma OnResolved_cases:
  assumes "OnResolved p s = (as, s')"
  obtains (settled) "Handle_Done s p" "as = p_awaiters (promises s ! p)"
      "s' = upd_promise p (\<lambda>x. x\<lparr>p_awaiters := [], p_self_owned := False\<rparr>) s"
    | (busy) "\<not> Handle_Done s p" "as = []" "s' = s"
  using assms by (auto simp: OnResolved_def split: if_splits)

text \<open>
  A settled promise hands its awaiters to the thread; only the coroutine of the promise itself may
  have changed between \<open>s\<close> and \<open>s1\<close>.
\<close>

lemma OnResolved_ok:
  assumes "OnResolved p s = (as, s')" "p < length (promises s)" "done_at s p" "linked s"
    and reg: "\<And>a. a \<in> set (p_awaiters (promises s ! p)) \<Longrightarrow> awaiter_waiting s p a"
    and lost: "\<And>q. q < length (promises s) \<Longrightarrow> q \<noteq> p \<Longrightarrow> done_at s q \<Longrightarrow> Handle_Done s q \<Longrightarrow>
        p_awaiters (promises s ! q) = []"
  shows "linked s'" "no_lost_wakeup s'" "\<forall>a \<in> set as. awaiter_ready s' a"
    "awaiters_tokens q as + store_tokens q s' = store_tokens q s"
    "\<And>f. evolves f s s'" "awaiters_kept s s'" "\<And>q. live q s' = live q s"
    "resolvers s' = resolvers s" "length (promises s') = length (promises s)"
proof -
  let ?g = "\<lambda>x. x\<lparr>p_awaiters := [], p_self_owned := False\<rparr>"
  have hd: "Handle_Done (upd_promise p ?g s) q = Handle_Done s q" for q
    using assms(2) by (simp add: Handle_Done_upd) (simp add: Handle_Done_def)
  have oc: "outcome_of (upd_promise p ?g s) q = outcome_of s q" for q
    by (rule upd_promise_outcome) simp
  have rd: "awaiter_ready (upd_promise p ?g s) a" if "a \<in> set (p_awaiters (promises s ! p))" for a
    using reg [OF that] assms(2,3)
    by (cases a) (auto simp: waiting_on_handle ready_def oc nth_upd_nth)
  show "linked s'" using assms(1,4) by (cases rule: OnResolved_cases) (auto simp: upd_promise_linked)
  show "no_lost_wakeup s'"
    using assms(1,2) lost
    by (cases rule: OnResolved_cases) (auto simp: no_lost_wakeup_def hd oc nth_upd_nth)
  show "\<forall>a \<in> set as. awaiter_ready s' a"
    using assms(1) rd by (cases rule: OnResolved_cases) auto
  show "awaiters_tokens q as + store_tokens q s' = store_tokens q s"
    using assms(1) store_tokens_upd [OF assms(2), of q ?g] by (cases rule: OnResolved_cases) auto
  show "evolves f s s'" for f
    using assms(1) by (cases rule: OnResolved_cases) (auto intro: upd_promise_evolves)
  show "awaiters_kept s s'"
    using assms(1)
    by (cases rule: OnResolved_cases) (auto intro!: awaiters_kept_subset simp: nth_upd_nth split: if_splits)
  show "live q s' = live q s" for q
    using assms(1) by (cases rule: OnResolved_cases) (auto simp: live_def hd)
  show "resolvers s' = resolvers s" "length (promises s') = length (promises s)"
    using assms(1) by (cases rule: OnResolved_cases; auto)+
qed

lemma evolves_trans: "evolves f s s1 \<Longrightarrow> evolves f s1 s2 \<Longrightarrow> evolves f s s2"
  unfolding evolves_def by (auto simp: le_trans)

lemma awaiters_ok_D:
  "awaiters_ok s \<Longrightarrow> q < length (promises s) \<Longrightarrow> a \<in> set (p_awaiters (promises s ! q)) \<Longrightarrow>
     awaiter_waiting s q a"
  by (auto simp: awaiters_ok_def)

lemma no_lost_wakeup_D:
  "no_lost_wakeup s \<Longrightarrow> q < length (promises s) \<Longrightarrow> done_at s q \<Longrightarrow> Handle_Done s q \<Longrightarrow>
     p_awaiters (promises s ! q) = []"
  by (simp add: no_lost_wakeup_def)

text \<open>Storing an outcome in the resolver of \<open>p\<close> settles \<open>p\<close> and no other promise.\<close>

lemma store_outcome_effect:
  fixes x :: outcome
  assumes lk: "linked s" and r: "r < length (resolvers s)" and p: "r_promise (resolvers s ! r) = Some p"
    and pending: "resolver_outcome (resolvers s ! r) = None"
  defines "s1 \<equiv> upd_resolver r (store_outcome x) s"
  shows "linked s1" "done_at s1 p" "\<And>q. q \<noteq> p \<Longrightarrow> outcome_of s1 q = outcome_of s q"
    "\<And>q. q < length (promises s) \<Longrightarrow> done_at s q \<Longrightarrow> q \<noteq> p"
    "\<And>y. evolves (Settle r y) s s1" "p < length (promises s)"
proof -
  obtain p' where p': "p' < length (promises s)" "r_promise (resolvers s ! r) = Some p'"
      "p_resolver (promises s ! p') = Some r"
    using lk r by (rule linked_promise_of)
  with p have pp: "p < length (promises s)" "p_resolver (promises s ! p) = Some r" by auto
  show "p < length (promises s)" by fact
  have same: "r_promise (resolvers s1 ! q) = r_promise (resolvers s ! q)"
    "r_type (resolvers s1 ! q) = r_type (resolvers s ! q)" for q
    unfolding s1_def upd_sel by (rule nth_upd_nth_same; simp)+
  show "linked s1" using lk same by (subst linked_cong [where s = s]) (auto simp: s1_def)
  show "done_at s1 p" using pp r by (auto simp: outcome_of_def s1_def)
  show "outcome_of s1 q = outcome_of s q" if "q \<noteq> p" for q
  proof (cases "q < length (promises s)")
    case True
    obtain r' where "p_resolver (promises s ! q) = Some r'" "r_promise (resolvers s ! r') = Some q"
      using lk True by (rule linked_resolver_of)
    moreover with that p have "r' \<noteq> r" by auto
    ultimately show ?thesis by (simp add: outcome_of_def s1_def)
  qed (simp add: outcome_of_def s1_def)
  show "q \<noteq> p" if "q < length (promises s)" "done_at s q" for q
    using that pp pending by (auto simp: outcome_of_def)
  show "evolves (Settle r y) s s1" for y
    using pending by (auto simp: evolves_def s1_def nth_upd_nth)
qed

lemma settle_ok:
  assumes st: "settle t r x fs s = Next (s', st, new)" and ok: "store_ok s" "awaiters_ok s"
    "frame_ok s (Settle r x)"
  shows "\<exists>pushed. st = pushed @ fs \<and> new = [] \<and> step_ok (Settle r x) s s' pushed"
proof -
  let ?s = "upd_resolver r (store_outcome x) s"
  have r: "r < length (resolvers s)" "resolver_outcome (resolvers s ! r) = None"
    "r_resolved (resolvers s ! r)" using ok(3) by auto
  have lk: "linked s" using ok by (simp add: store_ok_def)
  obtain p as where p: "r_promise (resolvers s ! r) = Some p" and on: "OnResolved p ?s = (as, s')"
    and st': "st = [Awaiters as] @ fs" "new = []"
    using st by (auto simp: settle_def with_unique_def Let_def split: option.splits if_splits prod.splits)
  note eff = store_outcome_effect [OF lk r(1) p r(2)]
  have waiting: "awaiter_waiting ?s q a = awaiter_waiting s q a" for q a
    by (cases a) (auto simp: waiting_on_def)
  have reg: "awaiter_waiting ?s p a" if "a \<in> set (p_awaiters (promises ?s ! p))" for a
    using awaiters_ok_D [OF ok(2) eff(6)] that by (simp add: waiting)
  have lost: "p_awaiters (promises ?s ! q) = []"
    if "q < length (promises ?s)" "q \<noteq> p" "done_at ?s q" "Handle_Done ?s q" for q
    using ok(1) that eff(3) [OF that(2)] no_lost_wakeup_D
    by (fastforce simp: store_ok_def Handle_Done_def)
  have rok: "\<forall>y \<in> set (resolvers ?s). resolver_ok y"
  proof -
    have "r_value (resolvers s ! r) = None" "r_exception (resolvers s ! r) = None"
      using r(2) by (auto simp: resolver_outcome_None)
    then have "resolver_ok (store_outcome x (resolvers s ! r))"
      using r(3) by (cases x) (auto simp: resolver_ok_def)
    then show ?thesis
      using ok(1) set_update_subset_insert [of "resolvers s" r]
      by (auto simp: store_ok_def upd_nth_def)
  qed
  have len: "p < length (promises ?s)" using eff(6) by simp
  note on_ok = OnResolved_ok [OF on len eff(2) eff(1) reg lost, simplified]
  have "store_ok s'" using on_ok(1,2,8) rok by (simp add: store_ok_def)
  moreover have "evolves (Settle r x) s s'" using eff(5) on_ok(5) by (rule evolves_trans)
  moreover have "awaiters_kept s s'" using on_ok(6) by (simp add: awaiters_kept_def)
  moreover have "live q s' = live q s" for q using on_ok(7) by (simp add: live_def Handle_Done_def)
  moreover have "unsettled q s = settle_token q (Settle r x) + unsettled q s'" for q
    using on_ok(8) r by (auto simp: unsettled_def nth_upd_nth)
  ultimately have "step_ok (Settle r x) s s' [Awaiters as]"
    using on_ok(3,4) by (simp add: step_ok_def)
  with st' show ?thesis by blast
qed

lemma final_cleanup_ok:
  assumes st: "final_cleanup t p fs s = Next (s', st, new)" and ok: "store_ok s" "awaiters_ok s"
    "frame_ok s (FinalCleanup p)"
  shows "\<exists>pushed. st = pushed @ fs \<and> new = [] \<and> step_ok (FinalCleanup p) s s' pushed"
proof -
  let ?g = "\<lambda>y. y\<lparr>p_handle := NoHandle, p_function := False\<rparr>"
  let ?s = "upd_promise p ?g s"
  have run: "p < length (promises s)" "p_handle (promises s ! p) = Running"
    using ok(3) by (auto simp: running_handle)
  have lk: "linked s" and lk': "linked ?s" using ok by (auto simp: store_ok_def upd_promise_linked)
  have oc: "outcome_of ?s q = outcome_of s q" for q by (rule upd_promise_outcome) simp
  have aw: "p_awaiters (promises ?s ! q) = p_awaiters (promises s ! q)" for q
    by (simp add: nth_upd_nth_same)
  have hd: "Handle_Done ?s q \<longleftrightarrow> q = p \<or> Handle_Done s q" for q
    using run by (auto simp: Handle_Done_upd) (auto simp: Handle_Done_def)
  have live: "live q s = of_bool (q = p) + live q ?s" for q
    using run by (auto simp: live_def hd Handle_Done_def)
  have ev: "evolves (FinalCleanup p) s ?s" by (rule upd_promise_evolves) auto
  have reg: "awaiter_waiting ?s p a" if "a \<in> set (p_awaiters (promises ?s ! p))" for a
  proof (cases a)
    case (ACoroutine h)
    have "waiting_on s h p"
      using awaiters_ok_D [OF ok(2) run(1), of a] that ACoroutine by (simp add: aw [simplified])
    moreover from this have "h \<noteq> p" using run by (auto simp: waiting_on_handle)
    ultimately show ?thesis using ACoroutine by (simp add: waiting_on_handle)
  qed simp
  have lost: "p_awaiters (promises ?s ! q) = []"
    if "q < length (promises ?s)" "q \<noteq> p" "done_at ?s q" "Handle_Done ?s q" for q
    using ok(1) that no_lost_wakeup_D [of s q] by (simp add: store_ok_def hd oc aw [simplified])
  have tok: "store_tokens q ?s = store_tokens q s" for q by (simp add: store_tokens_upd_same)
  consider (settled) as where "done_at s p" "OnResolved p ?s = (as, s')" "st = [Awaiters as] @ fs" "new = []"
    | (pending) "\<not> done_at s p" "s' = ?s" "st = [] @ fs" "new = []"
    using st run IsDone_linked [OF lk', of p]
    by (auto simp: final_cleanup_def with_unique_def Let_def oc split: if_splits prod.splits)
  then show ?thesis
  proof cases
    case (settled as)
    note on_ok = OnResolved_ok [OF settled(2) _ _ lk' reg lost, unfolded upd_sel length_upd_nth oc, OF run(1) settled(1)]
    have "store_ok s'" using on_ok(1,2,8) ok(1) by (simp add: store_ok_def)
    moreover have "evolves (FinalCleanup p) s s'" using ev on_ok(5) by (rule evolves_trans)
    moreover have "awaiters_kept s s'" using on_ok(6) by (simp add: awaiters_kept_def aw [simplified])
    moreover have "unsettled q s' = unsettled q s" for q using on_ok(8) by (simp add: unsettled_def)
    ultimately have "step_ok (FinalCleanup p) s s' [Awaiters as]"
      using on_ok(3,4,7) live tok by (simp add: step_ok_def)
    with settled show ?thesis by blast
  next
    case pending
    have "store_ok ?s"
      using ok(1) lk' lost pending(1)
      by (auto simp: store_ok_def no_lost_wakeup_def oc aw [simplified] hd)
    moreover have "awaiters_kept s ?s" by (rule awaiters_kept_subset) (simp_all add: aw [simplified])
    ultimately have "step_ok (FinalCleanup p) s ?s []"
      using ev live tok by (simp add: step_ok_def)
    with pending show ?thesis by blast
  qed
qed

subsection \<open>Atomic operations\<close>

text \<open>Only a won exchange sets a flag, and it pushes the frame that will settle the resolver.\<close>

definition flags_ok :: "'o store \<Rightarrow> 'o store \<Rightarrow> 'o frame list \<Rightarrow> bool" where
  "flags_ok s s' new \<longleftrightarrow>
     (\<forall>r < length (resolvers s). r_resolved (resolvers s' ! r) \<longleftrightarrow>
        r_resolved (resolvers s ! r) \<or> (\<exists>y. Settle r y \<in> set new)) \<and>
     (\<forall>r y. Settle r y \<in> set new \<longrightarrow> r < length (resolvers s) \<and> \<not> r_resolved (resolvers s ! r))"

text \<open>No operation adds an awaiter to a settled promise.\<close>

definition awaiters_shrink :: "'o store \<Rightarrow> 'o store \<Rightarrow> bool" where
  "awaiters_shrink s s' \<longleftrightarrow>
     (\<forall>q < length (promises s). done_at s q \<longrightarrow>
        set (p_awaiters (promises s' ! q)) \<subseteq> set (p_awaiters (promises s ! q)))"

lemma flags_ok_same: "resolvers s' = resolvers s @ ms \<Longrightarrow> \<forall>r y. Settle r y \<notin> set new \<Longrightarrow> flags_ok s s' new"
  by (simp add: flags_ok_def nth_append)

lemma awaiters_shrink_same:
  "promises s' = upd_nth p g (promises s) @ ns \<Longrightarrow> (\<And>x. set (p_awaiters (g x)) \<subseteq> set (p_awaiters x)) \<Longrightarrow>
     awaiters_shrink s s'"
  by (auto simp: awaiters_shrink_def nth_append nth_upd_nth split: if_splits)

lemma awaiters_shrink_eq: "promises s' = promises s @ ns \<Longrightarrow> awaiters_shrink s s'"
  by (auto simp: awaiters_shrink_def nth_append)

lemma resolve_op_flags:
  "resolve_op r x s = Next (s', new, y) \<Longrightarrow> flags_ok s s' new \<and> awaiters_shrink s s'"
  by (auto simp: resolve_op_def exchange_resolved_def Let_def flags_ok_def nth_upd_nth
      intro: awaiters_shrink_eq [of _ _ "[]"] split: if_splits)

lemma reject_op_flags:
  assumes "reject_op j e s = Next (s', new, y)"
  shows "flags_ok s s' new \<and> awaiters_shrink s s'"
proof -
  let ?s = "upd_reject j (\<lambda>x. x\<lparr>j_rejected := True\<rparr>) s"
  have oc: "outcome_of ?s q = outcome_of s q" for q
    by (simp add: outcome_of_def split: option.split)
  consider "s' = ?s" "new = []"
    | "resolve_op (j_resolver (rejects s ! j)) (Inl e) ?s = Next (s', new, y)"
    using assms by (auto simp: reject_op_def exchange_rejected_def Let_def split: if_splits)
  then show ?thesis
  proof cases
    case 1
    then show ?thesis by (auto intro: flags_ok_same [of _ _ "[]"] awaiters_shrink_eq [of _ _ "[]"])
  next
    case 2
    from resolve_op_flags [OF this] show ?thesis
      by (simp add: flags_ok_def awaiters_shrink_def oc)
  qed
qed

lemma Await_function_shrink:
  assumes "linked s" "q < length (promises s)" "IsDone s q = Next False"
    "promises s' = upd_nth q g (promises s) @ ns"
  shows "awaiters_shrink s s'"
  using assms IsDone_linked [of s q]
  by (auto simp: awaiters_shrink_def nth_append nth_upd_nth split: if_splits)

lemma try_await_flags:
  assumes "linked s" "p < length (promises s)" "try_await t p f s = Next (s', new, y)"
  shows "flags_ok s s' new \<and> awaiters_shrink s s'"
proof -
  consider "s' = s" "new = []"
    | g where "new = []" "s' = upd_promise p g s" "IsDone s p = Next False"
    using assms(3) by (auto simp: try_await_def with_unique_def Let_def ret_def
        dest!: Await_function_Next split: if_splits)
  then show ?thesis
    using assms(1,2)
    by cases (auto intro: flags_ok_same [of _ _ "[]"] awaiters_shrink_eq [of _ _ "[]"]
        Await_function_shrink [of _ p _ _ "[]"])
qed

lemma try_await_new_flags:
  assumes "linked s" "p < length (promises s)" "try_await_new t p T2 f s = Next (s', new, y)"
  shows "flags_ok s s' new \<and> awaiters_shrink s s'"
proof -
  consider (old) "s' = s" "new = []"
    | (await) i g where "new = []" "s' = upd_promise p
        (\<lambda>x. x\<lparr>p_use_count := i, p_awaiters := p_awaiters x @ [AFunction i g]\<rparr>)
        (snd (snd (snd (Promise_Create T2 s))))" "IsDone s p = Next False"
    using assms(3)
    by (auto simp: try_await_new_def with_unique_def Let_def ret_def Promise_Create_eq
        dest!: Await_function_Next split: if_splits)
  then show ?thesis
  proof cases
    case old
    then show ?thesis by (auto intro: flags_ok_same [of _ _ "[]"] awaiters_shrink_eq [of _ _ "[]"])
  next
    case (await i g)
    then have "flags_ok s s' new"
      by (intro flags_ok_same) (auto simp: Promise_Create_eq)
    moreover have "awaiters_shrink s s'"
      using assms(1,2) await(3)
      by (rule Await_function_shrink) (simp add: await(2) Promise_Create_eq upd_nth_append assms(2))
    ultimately show ?thesis by simp
  qed
qed

lemma exec_op_flags:
  assumes "exec_op t a s = Next (s', new, x)" "linked s"
  shows "flags_ok s s' new \<and> awaiters_shrink s s'"
proof -
  have same: ?thesis if "promises s' = promises s @ ns" "resolvers s' = resolvers s @ ms"
      "\<forall>r y. Settle r y \<notin> set new" for ns ms
    using that flags_ok_same awaiters_shrink_eq by blast
  have upd: ?thesis if "s' = upd_promise p g s" "\<And>x. set (p_awaiters (g x)) \<subseteq> set (p_awaiters x)"
      "new = []" for p g
    using that flags_ok_same [of s' s "[]"] awaiters_shrink_same [of s' p g s "[]"] by simp
  have quiet: ?thesis if "s' = s" "new = []" using that same [of "[]" "[]"] by simp
  show ?thesis
  proof (cases a)
    case (OResolve r v)
    then show ?thesis using assms(1) resolve_op_flags [of r "Inr v"] by simp
  next
    case (OReject j e)
    then show ?thesis using assms(1) reject_op_flags [of j e] by simp
  next
    case (OTryAwait p f)
    then show ?thesis
      using assms try_await_flags by (fastforce simp: valid_promise_def split: if_splits)
  next
    case (OTryAwaitNew p T2 f)
    then show ?thesis
      using assms try_await_new_flags by (fastforce simp: valid_promise_def split: if_splits)
  next
    case (OUnAwait p i)
    then have "s' = s \<and> new = [] \<or> new = [] \<and>
        s' = upd_promise p (\<lambda>x. x\<lparr>p_awaiters := erase_first (is_function i) (p_awaiters x)\<rparr>) s"
      using assms(1)
      by (auto simp: op_ext_simps UnAwait_def split: if_splits)
    then show ?thesis
    proof (elim disjE conjE)
      assume "s' = upd_promise p (\<lambda>x. x\<lparr>p_awaiters := erase_first (is_function i) (p_awaiters x)\<rparr>) s"
        "new = []"
      then show ?thesis by (intro upd) (auto dest: subsetD [OF set_erase_first])
    qed (rule quiet)
  next
    case (OLockOutcome p)
    then show ?thesis using assms(1) by (intro upd) (auto simp: op_ext_simps split: if_splits)
  next
    case (OUnlockShared p)
    then show ?thesis using assms(1) by (intro upd) (auto simp: op_ext_simps split: if_splits)
  next
    case (OLockShared p)
    then show ?thesis using assms(1) by (intro upd) (auto simp: op_ext_simps split: if_splits)
  next
    case (OTouch p)
    then show ?thesis using assms(1) by (intro upd) (auto simp: op_ext_simps split: if_splits)
  next
    case (ODetach p)
    then have "s' = s \<and> new = [] \<or> new = [] \<and> s' = upd_promise p (\<lambda>x. x\<lparr>p_self_owned := True\<rparr>) s"
      using assms(1) by (auto simp: op_ext_simps Detach_def split: if_splits)
    then show ?thesis
    proof (elim disjE conjE)
      assume "s' = upd_promise p (\<lambda>x. x\<lparr>p_self_owned := True\<rparr>) s" "new = []"
      then show ?thesis by (intro upd) auto
    qed (rule quiet)
  next
    case (OCreate T)
    then show ?thesis using assms(1) by (intro same) (auto simp: op_ext_simps Promise_Create_eq)
  next
    case (OStart T w body)
    then show ?thesis using assms(1) by (intro same) (auto simp: CreateImpl_eq)
  next
    case (OAtomic f)
    then show ?thesis
      using assms(1) by (intro same [of "[]" "[]"]) (auto simp: op_ext_simps split: prod.splits)
  qed (rule quiet; use assms(1) in \<open>auto simp: op_ext_simps split: if_splits\<close>)+
qed

lemma op_evolves:
  assumes "op_effect s s' new" "flags_ok s s' new"
  shows "evolves f s s'"
proof -
  obtain ns ms ks where ext: "op_ext s ns ms ks s'"
    using assms(1) by (auto simp: op_effect_def)
  show ?thesis
    using op_ext_length [OF ext] op_ext_fields [OF ext] op_ext_rfields [OF ext] assms(2)
    by (auto simp: evolves_def flags_ok_def)
qed

lemma op_awaiters_kept:
  assumes "op_effect s s' new"
  shows "awaiters_kept s s'"
proof -
  obtain ns ms ks where ext: "op_ext s ns ms ks s'" and ns: "\<And>x. x \<in> set ns \<Longrightarrow> p_awaiters x = []"
    using assms op_effect_ext by metis
  show ?thesis
    unfolding awaiters_kept_def
  proof (intro allI impI)
    fix q p assume "q < length (promises s')" and p: "ACoroutine p \<in> set (p_awaiters (promises s' ! q))"
    then have "q < length (promises s) + length ns" using op_ext_length [OF ext] by simp
    then show "(q < length (promises s) \<and> ACoroutine p \<in> set (p_awaiters (promises s ! q))) \<or>
        waiting_on s' p q"
    proof (rule less_append_cases)
      assume "q < length (promises s)"
      then show ?thesis using p op_ext_fields(6) [OF ext] ACoroutine_coro by metis
    next
      fix j assume "q = length (promises s) + j" "j < length ns"
      then show ?thesis using p ns [of "ns ! j"] op_ext_new(1) [OF ext] by simp
    qed
  qed
qed

lemma op_store_ok:
  assumes "op_effect s s' new" "flags_ok s s' new" "awaiters_shrink s s'" "store_ok s"
  shows "store_ok s'"
proof -
  obtain ns ms ks where ext: "op_ext s ns ms ks s'" and ns: "\<And>x. x \<in> set ns \<Longrightarrow> p_awaiters x = []"
    and ms: "\<And>x. x \<in> set ms \<Longrightarrow> resolver_ok x"
    using assms(1) unfolding op_effect_def fresh_def by (fastforce simp: resolver_ok_def)
  have lk: "linked s" and lost: "no_lost_wakeup s" and rok: "\<forall>r \<in> set (resolvers s). resolver_ok r"
    using assms(4) by (auto simp: store_ok_def)
  have len: "length (promises s') = length (promises s) + length ns"
    "length (resolvers s') = length (resolvers s) + length ms"
    using op_ext_length [OF ext] by auto
  have "resolver_ok (resolvers s' ! r)" if "r < length (resolvers s) + length ms" for r
    using that
  proof (rule less_append_cases)
    assume r: "r < length (resolvers s)"
    then have "resolver_ok (resolvers s ! r)" using rok by simp
    then show ?thesis
      using op_ext_rfields [OF ext r] r assms(2) by (auto simp: resolver_ok_def flags_ok_def)
  next
    fix j assume "r = length (resolvers s) + j" "j < length ms"
    then show ?thesis using ms op_ext_new(2) [OF ext] by simp
  qed
  then have "\<forall>r \<in> set (resolvers s'). resolver_ok r" by (auto simp: in_set_conv_nth len)
  moreover have "p_awaiters (promises s' ! q) = []"
    if "q < length (promises s) + length ns" "done_at s' q" "Handle_Done s' q" for q
    using that(1)
  proof (rule less_append_cases)
    assume q: "q < length (promises s)"
    then have "done_at s q" "Handle_Done s q"
      using that op_ext_outcome [OF ext lk q] op_ext_fields(7) [OF ext q] by simp_all
    then show ?thesis
      using no_lost_wakeup_D [OF lost q] assms(3) q by (auto simp: awaiters_shrink_def)
  next
    fix j assume "q = length (promises s) + j" "j < length ns"
    then show ?thesis using ns op_ext_new(1) [OF ext] by simp
  qed
  ultimately show ?thesis
    using linked_op_effect [OF assms(1) lk] by (simp add: store_ok_def no_lost_wakeup_def len)
qed

lemma op_settle_ledger:
  assumes "op_effect s s' new" "flags_ok s s' new" "store_ok s"
  shows "sum_list (map (settle_token r) new) + unsettled r s = unsettled r s'"
proof -
  obtain ns ms ks where ext: "op_ext s ns ms ks s'"
    and ms: "\<And>x. x \<in> set ms \<Longrightarrow> \<not> r_resolved x"
    and new: "(\<exists>q y. new = [Settle q y]) \<or> (\<forall>r. sum_list (map (settle_token r) new) = 0) \<and>
      (\<forall>r y. Settle r y \<notin> set new)"
    using assms(1) unfolding op_effect_def fresh_def by fastforce
  show ?thesis
  proof (cases "r < length (resolvers s)")
    case True
    have out: "\<not> r_resolved (resolvers s ! r) \<Longrightarrow> resolver_outcome (resolvers s ! r) = None"
      using assms(3) True by (auto simp: store_ok_def resolver_ok_def)
    show ?thesis
      using new assms(2) True op_ext_rfields [OF ext True] op_ext_length [OF ext] out
      by (auto simp: flags_ok_def unsettled_def)
  next
    case False
    have "\<not> r_resolved (resolvers s' ! r)" if "r < length (resolvers s')"
    proof -
      have "r = length (resolvers s) + (r - length (resolvers s))" "r - length (resolvers s) < length ms"
        using that False op_ext_length [OF ext] by auto
      then show ?thesis using ms op_ext_new(2) [OF ext] by (metis nth_mem)
    qed
    then show ?thesis using False new assms(2) by (auto simp: unsettled_def flags_ok_def)
  qed
qed

lemma op_coroutine_ledger:
  assumes "op_effect s s' new"
  shows "sum_list (map (frame_token p) new) + store_tokens p s' + live p s = store_tokens p s + live p s'"
proof -
  obtain ns ms ks where ext: "op_ext s ns ms ks s'"
    and cases: "(ns = [] \<and> (new = [] \<or> (\<exists>r y. new = [Settle r y]))) \<or>
         (fresh s ns ms ks NoHandle \<and> new = []) \<or>
         (\<exists>g. fresh s ns ms ks (Initial g) \<and> new = [Resume (length (promises s))])"
    using assms unfolding op_effect_def by blast
  have "store_tokens p s' = store_tokens p s"
    by (rule op_ext_store_tokens [OF ext]) (use cases in \<open>auto simp: fresh_def\<close>)
  moreover have "live p s' = live p s + sum_list (map (frame_token p) new)"
  proof (cases "p < length (promises s)")
    case True
    then show ?thesis
      using cases op_ext_fields(7) [OF ext True] op_ext_length [OF ext] by (auto simp: live_def)
  next
    case nlt: False
    show ?thesis
    proof (cases "p = length (promises s)")
      case True
      then show ?thesis
        using cases op_ext_length [OF ext] op_ext_new(1) [OF ext, of 0]
        by (auto simp: live_def fresh_def Handle_Done_def)
    next
      case False
      with nlt show ?thesis
        using cases op_ext_length [OF ext] by (auto simp: live_def fresh_def)
    qed
  qed
  ultimately show ?thesis by simp
qed

lemma op_frames_ok:
  assumes "op_effect s s' new" "flags_ok s s' new" "store_ok s" "g \<in> set new"
  shows "frame_ok s' g"
proof -
  obtain ns ms ks where ext: "op_ext s ns ms ks s'"
    and cases: "(\<exists>r y. g = Settle r y) \<or>
         (\<exists>h. fresh s ns ms ks (Initial h) \<and> g = Resume (length (promises s)))"
    using assms(1,4) unfolding op_effect_def by fastforce
  from cases show ?thesis
  proof (elim disjE exE conjE)
    fix r y assume g: "g = Settle r y"
    then have r: "r < length (resolvers s)" "\<not> r_resolved (resolvers s ! r)" "r_resolved (resolvers s' ! r)"
      using assms(2,4) by (auto simp: flags_ok_def)
    then have "resolver_outcome (resolvers s ! r) = None"
      using assms(3) by (auto simp: store_ok_def resolver_ok_def)
    then show ?thesis using g r op_ext_rfields [OF ext r(1)] op_ext_length [OF ext] by simp
  next
    fix h assume "fresh s ns ms ks (Initial h)" "g = Resume (length (promises s))"
    then show ?thesis
      using op_ext_new(1) [OF ext, of 0] op_ext_length [OF ext] by (auto simp: fresh_def ready_def)
  qed
qed

end
