(* ===== verification/Safety.thy ===== *)
theory Safety
  imports Preservation
begin

text \<open>
  The invariant holds in every reachable machine. The two ledgers (who may resume a coroutine, who
  may settle a resolver) are two instances of one locale, whose laws are that a step conserves the
  tokens; unique ownership follows inside the locale. From the invariant: which assertions of the
  C++ code can fail, that a promise settles at most once, and that no wake-up is lost.
\<close>

subsection \<open>One step of a frame\<close>

lemma run_call_ok:
  assumes ex: "exec_op t a s = Next (s', new, x)" and ok: "store_ok s" "frame_ok s (Run c g)"
  shows "step_ok (Run c g) s s' (new @ [Run c h])"
proof -
  have lk: "linked s" using ok by (simp add: store_ok_def)
  note eff = exec_op_effect [OF ex] and fl = exec_op_flags [OF ex lk]
  have ev: "evolves f s s'" for f using op_evolves [OF eff] fl by blast
  have "frame_ok s' (Run c h)"
  proof (cases c)
    case (Coroutine p)
    then show ?thesis
      using ok(2) evolves_promise [OF ev [of "Run Plain (Return VVoid)"], of p]
      by (simp add: running_handle)
  qed simp
  moreover have "frame_token p (Run c h) = frame_token p (Run c g)" for p by (cases c) auto
  ultimately show ?thesis
    using ev op_store_ok [OF eff _ _ ok(1)] op_awaiters_kept [OF eff] op_frames_ok [OF eff _ ok(1)]
      op_coroutine_ledger [OF eff] op_settle_ledger [OF eff _ ok(1)] fl
    by (auto simp: step_ok_def add.assoc)
qed

lemma resolve_op_effect: "resolve_op r x s = Next (s', new, y) \<Longrightarrow> op_effect s s' new"
  using op_ext_resolve_op unfolding op_effect_def by fastforce

lemma exchange_ok:
  assumes ex: "resolve_op r x s = Next (s', new, y)" and ok: "store_ok s"
  shows "step_ok (Exchange r x) s s' new"
proof -
  note eff = resolve_op_effect [OF ex] and fl = resolve_op_flags [OF ex]
  show ?thesis
    using op_evolves [OF eff] op_store_ok [OF eff _ _ ok] op_awaiters_kept [OF eff]
      op_frames_ok [OF eff _ ok] op_coroutine_ledger [OF eff] op_settle_ledger [OF eff _ ok] fl
    by (simp add: step_ok_def)
qed

text \<open>A step replaces the innermost frame and starts at most threads with a plain body.\<close>

theorem step_frame_ok:
  assumes st: "step_frame t f fs s = Next (s', st, new)"
    and ok: "store_ok s" "awaiters_ok s" "frame_ok s f"
  shows "\<exists>pushed. st = pushed @ fs \<and> step_ok f s s' pushed \<and> (\<forall>th \<in> set new. \<exists>g. th = [Run Plain g])"
proof (cases "(t, f, fs, s)" rule: step_frame.cases)
  case (7 t' c a k fs' s1)
  then obtain news x where ex: "exec_op t a s = Next (s', news, x)"
    and r: "st = (news @ [Run c (k x)]) @ fs" "new = (case a of OSpawn g \<Rightarrow> [[Run Plain g]] | _ \<Rightarrow> [])"
    using st by auto
  have "step_ok f s s' (news @ [Run c (k x)])" using run_call_ok [OF ex ok(1)] ok(3) 7 by simp
  then show ?thesis using r by (cases a) auto
next
  case (8 t' r x fs' s1)
  then obtain news y where ex: "resolve_op r x s = Next (s', news, y)" "st = news @ fs" "new = []"
    using st by auto
  then show ?thesis using exchange_ok [OF ex(1) ok(1)] 8 by auto
next
  case (1 t' v fs' s1)
  then have "step_ok f s s []" using ok(1) by (intro step_ok_same_store) auto
  then show ?thesis using st 1 by auto
next
  case (3 t' p v fs' s1)
  then show ?thesis using st ok co_return_ok [OF _ ok(1), of p "Inr v"] by fastforce
next
  case (4 t' p e fs' s1)
  then show ?thesis using st ok co_return_ok [OF _ ok(1), of p "Inl e"] by fastforce
next
  case (6 t' p q k fs' s1)
  then show ?thesis using st ok co_await_ok [OF _ ok(1), of t p q k] by fastforce
next
  case (9 t' r x fs' s1)
  then show ?thesis using st ok settle_ok [OF _ ok(1,2), of t r x] by fastforce
next
  case (10 t' fs' s1)
  then have "step_ok f s s []" using ok(1) by (intro step_ok_same_store) auto
  then show ?thesis using st 10 by auto
next
  case (11 t' h as fs' s1)
  then show ?thesis using st ok(3) step_awaiters_ok(1) [OF ok(1), of _ as h] by fastforce
next
  case (12 t' i g as fs' s1)
  then show ?thesis using st ok(3) step_awaiters_ok(2) [OF ok(1), of _ as i g] by fastforce
next
  case (13 t' p q fs' s1)
  then show ?thesis using st ok await_suspend_ok [OF _ ok(1), of t p q] by fastforce
next
  case (14 t' p fs' s1)
  then show ?thesis using st ok resume_ok [OF _ ok(1), of t p] by fastforce
next
  case (15 t' p fs' s1)
  then show ?thesis using st ok final_suspend_ok [OF _ ok(1), of p] by fastforce
next
  case (16 t' p fs' s1)
  then show ?thesis using st ok final_cleanup_ok [OF _ ok(1,2), of t p] by fastforce
qed (use st in auto)

subsection \<open>Conserved tokens\<close>

locale ledger =
  fixes tok :: "'k \<Rightarrow> 'o frame \<Rightarrow> nat"
    and stock :: "'k \<Rightarrow> 'o store \<Rightarrow> nat"
    and due :: "'k \<Rightarrow> 'o store \<Rightarrow> nat"
  assumes due_le: "due k s \<le> 1"
    and plain: "tok k (Run Plain g) = 0"
    and empty: "stock k (empty_store b) = due k (empty_store b)"
    and conserve: "step_ok f s s' pushed \<Longrightarrow>
      sum_list (map (tok k) pushed) + stock k s' + due k s = tok k f + stock k s + due k s'"
begin

abbreviation balanced :: "'o machine \<Rightarrow> bool" where
  "balanced m \<equiv> \<forall>k. ledger_total tok stock k m = due k (mem m)"

lemma balanced_init: "balanced (init b gs)"
  by (simp add: ledger_total_def init_def empty plain comp_def)

lemma balanced_step:
  assumes bal: "balanced m" and t: "t < length (threads m)" "threads m ! t = f # fs"
    and ok: "step_ok f (mem m) s' pushed" and new: "\<forall>th \<in> set new. \<exists>g. th = [Run Plain g]"
  shows "balanced \<lparr>mem = s', threads = (threads m)[t := pushed @ fs] @ new\<rparr>"
proof
  fix k
  let ?sum = "\<lambda>fs. sum_list (map (tok k) fs)"
  have none: "sum_list (map ?sum new) = 0"
    using new by (auto simp: sum_list_map_eq_0_iff_nat plain)
  have "sum_list (map ?sum ((threads m)[t := pushed @ fs])) + ?sum (f # fs) =
      sum_list (map ?sum (threads m)) + ?sum (pushed @ fs)"
    using sum_list_update_nat [OF t(1), of ?sum "pushed @ fs"] t(2) by simp
  then show "ledger_total tok stock k \<lparr>mem = s', threads = (threads m)[t := pushed @ fs] @ new\<rparr> =
      due k (mem \<lparr>mem = s', threads = (threads m)[t := pushed @ fs] @ new\<rparr>)"
    using conserve [OF ok, of k] bal [rule_format, of k] by (simp add: ledger_total_def none)
qed

text \<open>A token that a frame holds is in no other frame and not in stock.\<close>

lemma holder_alone:
  assumes bal: "balanced m" and t: "t < length (threads m)" "threads m ! t = f # fs"
    and pos: "0 < tok k f"
  shows "tok k f = 1" "stock k (mem m) = 0" "due k (mem m) = 1"
    "\<And>g. g \<in> set fs \<Longrightarrow> tok k g = 0"
    "\<And>t' g. t' < length (threads m) \<Longrightarrow> t' \<noteq> t \<Longrightarrow> g \<in> set (threads m ! t') \<Longrightarrow> tok k g = 0"
proof -
  let ?sum = "\<lambda>fs. sum_list (map (tok k) fs)"
  have total: "sum_list (map ?sum (threads m)) + stock k (mem m) \<le> 1"
    using bal [rule_format, of k] due_le [of k "mem m"] by (simp add: ledger_total_def)
  have th: "?sum (f # fs) \<le> sum_list (map ?sum (threads m))"
    using t sum_list_member_le_nat [of "f # fs" "threads m" ?sum] by (metis nth_mem)
  have own: "tok k f + ?sum fs \<le> 1" using total th by simp
  then have "tok k f = 1" and rest: "?sum fs = 0" using pos by linarith+
  then show "tok k f = 1" by simp
  show "\<And>g. g \<in> set fs \<Longrightarrow> tok k g = 0"
    using rest sum_list_map_eq_0_iff_nat [of "tok k" fs] by blast
  show "stock k (mem m) = 0" "due k (mem m) = 1"
    using total th pos bal [rule_format, of k] due_le [of k "mem m"] by (auto simp: ledger_total_def)
  show "tok k g = 0" if "t' < length (threads m)" "t' \<noteq> t" "g \<in> set (threads m ! t')" for t' g
  proof -
    have "?sum (threads m ! t) + ?sum (threads m ! t') \<le> sum_list (map ?sum (threads m))"
      using t(1) that by (intro sum_list_two_le_nat) auto
    moreover have "?sum (threads m ! t) = tok k f + ?sum fs" by (simp add: t(2))
    ultimately have "?sum (threads m ! t') = 0" using total pos by linarith
    then show ?thesis using that(3) sum_list_map_eq_0_iff_nat [of "tok k"] by blast
  qed
qed

end

lemma store_tokens_empty [simp]: "store_tokens p (empty_store b) = 0"
  by (simp add: store_tokens_def empty_store_def)

interpretation coro: ledger frame_token store_tokens live
  by unfold_locales (auto simp: live_def step_ok_def empty_store_def store_tokens_def)

interpretation settling: ledger settle_token "\<lambda>r s. 0" unsettled
  by unfold_locales (auto simp: unsettled_def step_ok_def empty_store_def)

subsection \<open>The invariant of reachable machines\<close>

lemma step_cases:
  assumes "step t m = Next m'"
  obtains f fs s' st new where "t < length (threads m)" "threads m ! t = f # fs"
    "step_frame t f fs (mem m) = Next (s', st, new)"
    "m' = \<lparr>mem = s', threads = (threads m)[t := st] @ new\<rparr>"
  using assms by (auto simp: step_def split: if_splits list.splits)

lemma machine_ok_D:
  assumes "machine_ok m"
  shows "store_ok (mem m)" "awaiters_ok (mem m)" "linked (mem m)"
    "t < length (threads m) \<Longrightarrow> f \<in> set (threads m ! t) \<Longrightarrow> frame_ok (mem m) f"
    "coro.balanced m" "settling.balanced m"
  using assms by (auto simp: machine_ok_def store_ok_def)

lemma machine_ok_init: "machine_ok (init b gs)"
  using coro.balanced_init [of b gs] settling.balanced_init [of b gs]
  by (auto simp: machine_ok_def init_def empty_store_def store_ok_def awaiters_ok_def linked_def
      no_lost_wakeup_def)

lemma awaiters_ok_step:
  assumes ev: "evolves f s s'" and ok: "awaiters_ok s" "awaiters_kept s s'"
    and own: "\<And>p. 0 < frame_token p f \<Longrightarrow> store_tokens p s = 0"
  shows "awaiters_ok s'"
  unfolding awaiters_ok_def
proof (intro allI impI ballI)
  fix q a assume q: "q < length (promises s')" and a: "a \<in> set (p_awaiters (promises s' ! q))"
  show "awaiter_waiting s' q a"
  proof (cases a)
    case (ACoroutine p)
    consider "waiting_on s' p q"
      | "q < length (promises s)" "ACoroutine p \<in> set (p_awaiters (promises s ! q))"
      using ok(2) q a ACoroutine unfolding awaiters_kept_def by blast
    then show ?thesis
    proof cases
      case 2
      have "1 \<le> awaiters_tokens p (p_awaiters (promises s ! q))"
        using sum_list_member_le_nat [OF 2(2), of "awaiter_token p"] by simp
      also have "\<dots> \<le> store_tokens p s"
        unfolding store_tokens_def using 2(1)
          sum_list_member_le_nat [of "promises s ! q" "promises s" "\<lambda>x. awaiters_tokens p (p_awaiters x)"]
        by simp
      finally have "frame_token p f = 0" using own [of p] by (cases "frame_token p f") auto
      then show ?thesis
        using waiting_on_evolves [OF ev] awaiters_ok_D [OF ok(1) 2] ACoroutine by simp
    qed (simp add: ACoroutine)
  qed simp
qed

lemma machine_ok_step:
  assumes ok: "machine_ok m" and st: "step t m = Next m'"
  shows "machine_ok m'"
  using st
proof (cases rule: step_cases)
  case (1 f fs s' st new)
  note D = machine_ok_D [OF ok]
  have f: "frame_ok (mem m) f" using D(4) [OF 1(1)] 1(2) by simp
  obtain pushed where p: "st = pushed @ fs" "step_ok f (mem m) s' pushed"
      "\<forall>th \<in> set new. \<exists>g. th = [Run Plain g]"
    using step_frame_ok [OF 1(3) D(1,2) f] by blast
  have ev: "evolves f (mem m) s'" and kept: "awaiters_kept (mem m) s'" and so: "store_ok s'"
    using p(2) by (auto simp: step_ok_def)
  have old: "frame_ok s' g"
    if g: "g \<in> set fs \<or> (\<exists>t'. t' < length (threads m) \<and> t' \<noteq> t \<and> g \<in> set (threads m ! t'))" for g
  proof (rule frame_ok_evolves [OF ev D(3)])
    show "frame_ok (mem m) g" using g D(4) [OF 1(1)] D(4) 1(2) by auto
    show "frame_token p f = 0" if "0 < frame_token p g" for p
      using coro.holder_alone(4,5) [OF D(5) 1(1,2), of p] that g by (metis neq0_conv)
    show "settle_token r f = 0" if "0 < settle_token r g" for r
      using settling.holder_alone(4,5) [OF D(6) 1(1,2), of r] that g by (metis neq0_conv)
  qed
  have frames: "frame_ok s' g" if th: "th \<in> set ((threads m)[t := st] @ new)" "g \<in> set th" for th g
  proof -
    consider "th \<in> set new" | i where "i < length (threads m)" "th = ((threads m)[t := st]) ! i"
      using th(1) by (auto simp: in_set_conv_nth)
    then show ?thesis
    proof cases
      case 1
      then show ?thesis using p(3) th(2) by fastforce
    next
      case i: (2 i)
      show ?thesis
        using i th(2) p(1,2) old by (cases "i = t") (auto simp: step_ok_def)
    qed
  qed
  have "awaiters_ok s'"
    using coro.holder_alone(2) [OF D(5) 1(1,2)] by (intro awaiters_ok_step [OF ev D(2) kept]) auto
  then show ?thesis
    using so frames coro.balanced_step [OF D(5) 1(1,2) p(2,3)]
      settling.balanced_step [OF D(6) 1(1,2) p(2,3)]
    unfolding machine_ok_def 1(4) p(1) by simp
qed

lemma machine_ok_steps: "steps m m' \<Longrightarrow> machine_ok m \<Longrightarrow> machine_ok m'"
  by (induction rule: steps.induct) (auto intro: machine_ok_step)

lemma reachable_machine_ok: "reachable m \<Longrightarrow> machine_ok m"
  by (induction rule: reachable.induct) (auto intro: machine_ok_init machine_ok_step)

end
