(* ===== verification/Guarantees.thy ===== *)
theory Guarantees
  imports Safety
begin

text \<open>
  What the library promises to its callers, for every program and every interleaving: the
  abstract life of a promise (pending, then settled once), which assertions can fail, when a
  thread can be blocked, and that a settled promise leaves no coroutine waiting.
\<close>

subsection \<open>What a reader sees\<close>

lemma outcome_of_cases:
  assumes "store_ok s" "p < length (promises s)"
  obtains (pending) r where "p_resolver (promises s ! p) = Some r" "outcome_of s p = None"
      "r_value (resolvers s ! r) = None" "r_exception (resolvers s ! r) = None"
    | (fulfilled) r v where "p_resolver (promises s ! p) = Some r" "outcome_of s p = Some (Inr v)"
      "r_value (resolvers s ! r) = Some v" "r_exception (resolvers s ! r) = None"
      "is_void (p_type (promises s ! p)) \<longrightarrow> v = VVoid"
    | (rejected) r e where "p_resolver (promises s ! p) = Some r" "outcome_of s p = Some (Inl e)"
      "r_value (resolvers s ! r) = None" "r_exception (resolvers s ! r) = Some e"
proof -
  have lk: "linked s" using assms(1) by (simp add: store_ok_def)
  obtain r where r: "r < length (resolvers s)" "p_resolver (promises s ! p) = Some r"
      "r_type (resolvers s ! r) = p_type (promises s ! p)"
    using lk assms(2) by (rule linked_resolver_of)
  have ok: "resolver_ok (resolvers s ! r)" using assms(1) r(1) by (simp add: store_ok_def)
  show ?thesis
    using r ok assms(2) that
    by (cases "r_value (resolvers s ! r)"; cases "r_exception (resolvers s ! r)")
      (auto simp: resolver_ok_def outcome_of_def resolver_outcome_def)
qed

text \<open>A coroutine that awaits a settled promise receives exactly its outcome.\<close>

lemma await_resume_outcome:
  assumes "store_ok s" "p < length (promises s)"
  shows "await_resume s p = Next x \<longleftrightarrow> outcome_of s p = Some x"
  using assms
  by (cases rule: outcome_of_cases)
    (auto simp: await_resume_def GetException_def GetValue_def IsResolved_def)

lemma read_outcome_outcome:
  assumes "store_ok s" "p < length (promises s)" "outcome_of s p = Some x"
  shows "read_outcome s p = Next x"
  using assms(1,2)
  by (cases rule: outcome_of_cases)
    (use assms(3) in \<open>auto simp: read_outcome_def GetException_def GetValue_def\<close>)

lemma read_outcome_pending:
  assumes "store_ok s" "p < length (promises s)" "outcome_of s p = None"
  shows "read_outcome s p =
    (if is_void (p_type (promises s ! p)) then Next (Inr VVoid) else Fault (AssertFailed A_value_set))"
  using assms(1,2)
  by (cases rule: outcome_of_cases)
    (use assms(3) in \<open>auto simp: read_outcome_def GetException_def GetValue_def\<close>)

subsection \<open>The abstract life of a promise\<close>

datatype status = Pending | Fulfilled val | Rejected exc

definition status :: "'o store \<Rightarrow> pid \<Rightarrow> status option" where
  "status s p =
     (if p < length (promises s)
      then Some (case outcome_of s p of
                   None \<Rightarrow> Pending | Some (Inr v) \<Rightarrow> Fulfilled v | Some (Inl e) \<Rightarrow> Rejected e)
      else None)"

text \<open>The specification: a promise appears pending, and a pending promise may settle.\<close>

inductive life :: "(pid \<Rightarrow> status option) \<Rightarrow> (pid \<Rightarrow> status option) \<Rightarrow> bool" where
  life_stutter: "life A A"
| life_create: "A p = None \<Longrightarrow> life A (A(p \<mapsto> Pending))"
| life_fulfil: "A p = Some Pending \<Longrightarrow> life A (A(p \<mapsto> Fulfilled v))"
| life_reject: "A p = Some Pending \<Longrightarrow> life A (A(p \<mapsto> Rejected e))"

lemma status_eqI:
  assumes "length (promises s') = length (promises s)"
    "\<And>q. q < length (promises s) \<Longrightarrow> outcome_of s' q = outcome_of s q"
  shows "status s' = status s"
  using assms by (auto simp: status_def fun_eq_iff)

lemma op_life:
  assumes "op_effect s s' new" "store_ok s" "store_ok s'"
  shows "life (status s) (status s')"
proof -
  let ?n = "length (promises s)"
  have lk: "linked s" "linked s'" using assms by (auto simp: store_ok_def)
  obtain ns ms ks where ext: "op_ext s ns ms ks s'" and
    cs: "ns = [] \<or> (\<exists>h. fresh s ns ms ks h)"
    using assms(1) unfolding op_effect_def by blast
  from cs show ?thesis
  proof (elim disjE exE)
    assume "ns = []"
    then have "status s' = status s"
      using op_ext_length [OF ext] op_ext_outcome [OF ext lk(1)] by (intro status_eqI) auto
    then show ?thesis by (simp add: life_stutter)
  next
    fix h assume fr: "fresh s ns ms ks h"
    then obtain x where x: "ns = [x]" "ms = [linked_resolver (p_type x) ?n]"
        "p_resolver x = Some (length (resolvers s))" by (auto simp: fresh_def)
    have "outcome_of s' ?n = None"
      using x op_ext_new(1) [OF ext, of 0] op_ext_new(2) [OF ext, of 0] by (simp add: outcome_of_def)
    then have "status s' = (status s)(?n \<mapsto> Pending)"
      using op_ext_length [OF ext] op_ext_outcome [OF ext lk(1)] x(1)
      by (auto simp: status_def fun_eq_iff less_Suc_eq)
    then show ?thesis by (simp add: life_create status_def)
  qed
qed

text \<open>A step that keeps the outcome of every promise but one, which was pending.\<close>

lemma settle_life:
  assumes "length (promises s') = length (promises s)" "outcome_of s p = None" "p < length (promises s)"
    "\<And>q. q \<noteq> p \<Longrightarrow> outcome_of s' q = outcome_of s q"
  shows "life (status s) (status s')"
proof (cases "outcome_of s' p")
  case None
  then have "status s' = status s" using assms by (intro status_eqI) (auto, metis)
  then show ?thesis by (simp add: life_stutter)
next
  case (Some x)
  have "status s p = Some Pending" using assms(2,3) by (simp add: status_def)
  moreover have "status s' = (status s)(p \<mapsto> (case x of Inr v \<Rightarrow> Fulfilled v | Inl e \<Rightarrow> Rejected e))"
    using assms Some by (auto simp: status_def fun_eq_iff split: sum.splits)
  ultimately show ?thesis by (cases x) (auto intro: life_fulfil life_reject)
qed

lemma OnResolved_outcome:
  assumes "OnResolved p s = (as, s')"
  shows "outcome_of s' q = outcome_of s q" "length (promises s') = length (promises s)"
  using assms by (cases rule: OnResolved_cases; simp add: upd_promise_outcome)+

lemma step_frame_life:
  assumes st: "step_frame t f fs s = Next (s', st, new)"
    and ok: "store_ok s" "awaiters_ok s" "frame_ok s f"
  shows "life (status s) (status s')"
proof -
  have so: "store_ok s'"
    using step_frame_ok [OF st ok] by (auto simp: step_ok_def)
  have lk: "linked s" using ok(1) by (simp add: store_ok_def)
  have upd: "life (status s) (status (upd_promise p g s))" if "keeps_links g" for p g
    using status_eqI [of "upd_promise p g s" s] upd_promise_outcome [OF that]
    by (simp add: life_stutter)
  show ?thesis
  proof (cases "(t, f, fs, s)" rule: step_frame.cases)
    case (7 t' c a k fs' s1)
    then obtain news x where "exec_op t a s = Next (s', news, x)" using st by auto
    then show ?thesis using exec_op_effect op_life ok(1) so by blast
  next
    case (8 t' r x fs' s1)
    then obtain news y where "resolve_op r x s = Next (s', news, y)" using st by auto
    then show ?thesis using resolve_op_effect op_life ok(1) so by blast
  next
    case (9 t' r x fs' s1)
    let ?s = "upd_resolver r (store_outcome x) s"
    have r: "r < length (resolvers s)" "resolver_outcome (resolvers s ! r) = None"
      using ok(3) 9 by auto
    obtain p as where p: "r_promise (resolvers s ! r) = Some p" and on: "OnResolved p ?s = (as, s')"
      using st 9 by (auto simp: settle_def with_unique_def Let_def split: option.splits if_splits prod.splits)
    note eff = store_outcome_effect [OF lk r(1) p r(2)]
    have "outcome_of s p = None" using eff(4) [of p] eff(6) by blast
    then show ?thesis
      using OnResolved_outcome [OF on] eff(3,6) by (intro settle_life [of s' s p]) auto
  next
    case (16 t' p fs' s1)
    let ?s = "upd_promise p (\<lambda>y. y\<lparr>p_handle := NoHandle, p_function := False\<rparr>) s"
    have "s' = ?s \<or> (\<exists>as. OnResolved p ?s = (as, s'))"
      using st 16 by (auto simp: final_cleanup_def with_unique_def Let_def split: if_splits prod.splits)
    then have "status s' = status ?s" using OnResolved_outcome status_eqI by metis
    then show ?thesis using upd [of _ p] by simp
  qed (use st in \<open>auto simp: co_return_def co_await_def await_suspend_def resume_def final_suspend_def
        Await_coroutine_def valid_promise_def with_shared_def with_unique_def Let_def
        intro!: life_stutter upd split: if_splits option.splits coroutine.splits\<close>)
qed

text \<open>
  C1. Refinement. Whatever the threads do, one step of the machine is one step of the abstract
  specification of promises: a promise appears pending, a pending promise becomes fulfilled or
  rejected, and nothing else ever happens to it.
\<close>

theorem step_refines_life:
  assumes "reachable m" "step t m = Next m'"
  shows "life (status (mem m)) (status (mem m'))"
  using assms(2)
proof (cases rule: step_cases)
  case (1 f fs s' st new)
  note D = machine_ok_D [OF reachable_machine_ok [OF assms(1)]]
  show ?thesis using step_frame_life [OF 1(3) D(1,2)] D(4) [OF 1(1)] 1(2,4) by simp
qed

lemma life_settled:
  assumes "life A B" "A p = Some x" "x \<noteq> Pending"
  shows "B p = Some x"
  using assms by (cases rule: life.cases) auto

lemma status_outcome:
  "outcome_of s p = Some (Inr v) \<longleftrightarrow> status s p = Some (Fulfilled v)"
  "outcome_of s p = Some (Inl e) \<longleftrightarrow> status s p = Some (Rejected e)"
  by (auto simp: status_def outcome_of_def split: option.splits sum.splits if_splits)

lemma outcome_step:
  assumes ok: "machine_ok m" and st: "step t m = Next m'" and "outcome_of (mem m) p = Some x"
  shows "outcome_of (mem m') p = Some x"
  using st
proof (cases rule: step_cases)
  case (1 f fs s' st new)
  note D = machine_ok_D [OF ok]
  have "evolves f (mem m) s'"
    using step_frame_ok [OF 1(3) D(1,2)] D(4) [OF 1(1)] 1(2) by (auto simp: step_ok_def)
  then show ?thesis using evolves_outcome D(3) assms(3) 1(4) by fastforce
qed

text \<open>
  C2. A promise settles once: an outcome that some thread could read at one moment is the outcome
  every thread reads at every later moment, whatever resolvers and rejecters are called again.
\<close>

theorem outcome_stable:
  assumes "reachable m" "steps m m'" "outcome_of (mem m) p = Some x"
  shows "outcome_of (mem m') p = Some x"
  using assms(2,1,3)
proof (induction rule: steps.induct)
  case (steps_step m m' t m'')
  then show ?case
    using outcome_step machine_ok_steps [OF steps_step(1)] reachable_machine_ok by blast
qed

subsection \<open>Assertions\<close>

lemma IsResolved_no_fault:
  assumes "linked s" "p < length (promises s)"
  shows "IsDone s p \<noteq> Fault x" "IsResolved s p \<noteq> Fault x" "IsRejected s p \<noteq> Fault x"
    "IsDone s p \<noteq> Blocked" "IsResolved s p \<noteq> Blocked" "IsRejected s p \<noteq> Blocked"
proof -
  obtain r where "p_resolver (promises s ! p) = Some r"
    using assms by (rule linked_resolver_of)
  then show "IsDone s p \<noteq> Fault x" "IsResolved s p \<noteq> Fault x" "IsRejected s p \<noteq> Fault x"
    "IsDone s p \<noteq> Blocked" "IsResolved s p \<noteq> Blocked" "IsRejected s p \<noteq> Blocked"
    by (simp_all add: IsDone_def IsResolved_def IsRejected_def)
qed

lemma Promise_Create_pending:
  assumes "linked s" "p < length (promises s)" "Promise_Create T s = (q, r, j, s')"
  shows "IsDone s' p = IsDone s p" "p < length (promises s')"
proof -
  obtain ns ms ks where ext: "op_ext s ns ms ks s'" and fr: "fresh s ns ms ks NoHandle"
    using op_ext_Promise_Create [OF assms(3)] by blast
  have lk: "linked s'" by (rule linked_op_ext_fresh [OF ext fr assms(1)])
  show p: "p < length (promises s')" using op_ext_length [OF ext] assms(2) by simp
  show "IsDone s' p = IsDone s p"
    using IsDone_linked [OF lk p] IsDone_linked [OF assms(1,2)] op_ext_outcome [OF ext assms(1,2)]
    by simp
qed

lemma try_await_no_assert:
  assumes "linked s" "p < length (promises s)"
  shows "try_await t p f s \<noteq> Fault (AssertFailed a)"
  using IsDone_linked [OF assms]
  by (auto simp: try_await_def with_unique_def ret_def Let_def Await_function_def bindR_Fault)

lemma try_await_new_no_assert:
  assumes "linked s" "p < length (promises s)"
  shows "try_await_new t p T2 f s \<noteq> Fault (AssertFailed a)"
proof -
  obtain q r j s' where c: "Promise_Create T2 s = (q, r, j, s')" by (metis prod_cases4)
  show ?thesis
    using IsDone_linked [OF assms] Promise_Create_pending [OF assms c] c
    by (auto simp: try_await_new_def with_unique_def ret_def Let_def Await_function_def bindR_Fault)
qed

text \<open>An operation fails an assertion only by reading the value of a promise that has none.\<close>

lemma exec_op_assert:
  assumes "exec_op t a s = Fault (AssertFailed x)" "store_ok s"
  shows "(x = A_value_set \<and> (\<exists>p. (a = OOutcome p \<or> a = OLockOutcome p) \<and> p < length (promises s) \<and>
    outcome_of s p = None)) \<or> (\<exists>n. x = A_client n \<and> a = OAssert False n)"
proof -
  have lk: "linked s" using assms(2) by (simp add: store_ok_def)
  have read: "x = A_value_set \<and> outcome_of s p = None"
    if "p < length (promises s)" "read_outcome s p = Fault (AssertFailed x)" for p
    using that read_outcome_outcome [OF assms(2) that(1)] read_outcome_pending [OF assms(2) that(1)]
    by (cases "outcome_of s p") (auto split: if_splits)
  show ?thesis
  proof (cases a)
    case (OReject j e)
    then show ?thesis
      using assms(1) by (auto simp: reject_op_def resolve_op_def Let_def exchange_resolved_def
          exchange_rejected_def split: if_splits)
  next
    case (OResolve r v)
    then show ?thesis
      using assms(1) by (auto simp: resolve_op_def Let_def exchange_resolved_def split: if_splits)
  next
    case (OTryAwait p f)
    then show ?thesis
      using assms(1) try_await_no_assert [OF lk] by (auto simp: valid_promise_def split: if_splits)
  next
    case (OTryAwaitNew p T2 f)
    then show ?thesis
      using assms(1) try_await_new_no_assert [OF lk] by (auto simp: valid_promise_def split: if_splits)
  qed (use assms(1) read IsResolved_no_fault [OF lk] in \<open>auto simp: op_ext_simps bindR_Fault Detach_def
        Promise_Create_eq CreateImpl_eq split: if_splits prod.splits\<close>)
qed

lemma await_resume_no_fault:
  assumes "store_ok s" "p < length (promises s)" "done_at s p"
  shows "\<exists>x. await_resume s p = Next x \<and> outcome_of s p = Some x"
  using assms await_resume_outcome [OF assms(1,2)] by auto

lemma step_frame_assert:
  assumes "step_frame t f fs s = Fault (AssertFailed x)" "store_ok s" "frame_ok s f"
  shows "(x = A_value_set \<and> (\<exists>c p k. (f = Run c (Call (OOutcome p) k) \<or> f = Run c (Call (OLockOutcome p) k)) \<and>
            outcome_of s p = None)) \<or>
    (\<exists>c n k. x = A_client n \<and> f = Run c (Call (OAssert False n) k)) \<or>
    (x = A_pending_handle \<and> (\<exists>p q. f = Suspend p q \<and> \<not> p_with_resolver (promises s ! q) \<and>
       Handle_Done s q \<and> outcome_of s q = None)) \<or>
    (x = A_value_returned \<and> (\<exists>p. f = FinalSuspend p \<and> \<not> void_coroutine (promises s ! p) \<and>
       p_delayed_return (promises s ! p) = None))"
proof -
  have lk: "linked s" using assms(2) by (simp add: store_ok_def)
  show ?thesis
  proof (cases "(t, f, fs, s)" rule: step_frame.cases)
    case (6 t' p q k fs' s1)
    then show ?thesis
      using assms IsDone_linked [OF lk] await_resume_no_fault [OF assms(2)]
      by (fastforce simp: co_await_def valid_promise_def with_shared_def bindR_Fault split: if_splits)
  next
    case (7 t' c a k fs' s1)
    then have "exec_op t a s = Fault (AssertFailed x)" using assms(1) by (auto simp: bindR_Fault)
    then show ?thesis using exec_op_assert [OF _ assms(2)] 7 by blast
  next
    case (8 t' r y fs' s1)
    then show ?thesis
      using assms(1) by (auto simp: bindR_Fault resolve_op_def Let_def exchange_resolved_def split: if_splits)
  next
    case (9 t' r y fs' s1)
    then have r: "r < length (resolvers s)" "r_value (resolvers s ! r) = None"
      "r_exception (resolvers s ! r) = None" using assms(3) by (auto simp: resolver_outcome_None)
    obtain p where "r_promise (resolvers s ! r) = Some p"
      using lk r(1) by (rule linked_promise_of)
    then show ?thesis
      using assms(1) 9 r by (auto simp: settle_def with_unique_def Let_def Resolver_Done_def
          split: if_splits prod.splits)
  next
    case (13 t' p q fs' s1)
    then show ?thesis
      using assms IsDone_linked [OF lk, of q]
      by (auto simp: await_suspend_def with_unique_def Await_coroutine_def waiting_on_def Let_def
          bindR_Fault split: if_splits)
  next
    case (14 t' p fs' s1)
    then have r: "ready s p" using assms(3) by simp
    then show ?thesis
    proof (cases rule: ready_cases)
      case init
      then show ?thesis using assms(1) 14 by (simp add: resume_def)
    next
      case (susp q k)
      then show ?thesis
        using assms(1) 14 await_resume_no_fault [OF assms(2), of q]
        by (auto simp: resume_def with_shared_def bindR_Fault Let_def split: if_splits)
    qed
  next
    case (15 t' p fs' s1)
    then have "p < length (promises s)" using assms(3) by (simp add: running_def)
    then obtain r where "p_resolver (promises s ! p) = Some r"
      using lk by (metis linked_resolver_of)
    then show ?thesis
      using assms(1) 15 by (auto simp: final_suspend_def Let_def split: option.splits if_splits)
  next
    case (16 t' p fs' s1)
    let ?s = "upd_promise p (\<lambda>y. y\<lparr>p_handle := NoHandle, p_function := False\<rparr>) s"
    have "linked ?s" "p < length (promises ?s)"
      using lk assms(3) 16 by (auto simp: upd_promise_linked running_def)
    from IsDone_linked [OF this] show ?thesis
      using assms(1) 16 by (auto simp: final_cleanup_def with_unique_def Let_def bindR_Fault
          split: if_splits prod.splits)
  qed (use assms in \<open>auto simp: co_return_def Let_def split: if_splits\<close>)
qed

end
