(* ===== verification/Completion.thy ===== *)
theory Completion
  imports Guarantees
begin

text \<open>
  A coroutine that ends settles its promise. A second invariant follows the end of a coroutine
  through its frames: when \<open>FinalCleanup\<close> clears the handle of a promise whose coroutine returns
  its value (no resolver parameter), the flag of the resolver has been set, by the coroutine
  itself or by a resolver that came first.
\<close>

subsection \<open>The second invariant\<close>

definition claimed :: "'o store \<Rightarrow> pid \<Rightarrow> bool" where
  "claimed s p \<longleftrightarrow>
     (\<forall>r. p_resolver (promises s ! p) = Some r \<longrightarrow> r_resolved (resolvers s ! r))"

definition claim_ok :: "'o store \<Rightarrow> bool" where
  "claim_ok s \<longleftrightarrow>
     (\<forall>p < length (promises s).
        \<not> p_with_resolver (promises s ! p) \<and> Handle_Done s p \<longrightarrow> claimed s p)"

fun returns_ok :: "'o store \<Rightarrow> 'o frame \<Rightarrow> bool" where
  "returns_ok s (FinalSuspend p) =
     (void_coroutine (promises s ! p) \<or> p_delayed_return (promises s ! p) \<noteq> None)"
| "returns_ok s f = True"

definition covers :: "'o frame \<Rightarrow> rid option" where
  "covers f = (case f of Exchange r x \<Rightarrow> Some r | _ \<Rightarrow> None)"

definition cleanup_ok :: "'o store \<Rightarrow> rid option \<Rightarrow> 'o frame \<Rightarrow> bool" where
  "cleanup_ok s c f =
     (case f of
        FinalCleanup p \<Rightarrow> p_with_resolver (promises s ! p) \<or> claimed s p \<or>
          (c \<noteq> None \<and> c = p_resolver (promises s ! p))
      | _ \<Rightarrow> True)"

fun cleanups_ok :: "'o store \<Rightarrow> rid option \<Rightarrow> 'o frame list \<Rightarrow> bool" where
  "cleanups_ok s c [] = True"
| "cleanups_ok s c (f # fs) = (cleanup_ok s c f \<and> cleanups_ok s (covers f) fs)"

definition claims_ok :: "'o machine \<Rightarrow> bool" where
  "claims_ok m \<longleftrightarrow> claim_ok (mem m) \<and>
     (\<forall>fs \<in> set (threads m). cleanups_ok (mem m) None fs \<and> (\<forall>f \<in> set fs. returns_ok (mem m) f))"

lemma covers_simps [simp]:
  "covers (Exchange r x) = Some r" "covers (Run c g) = None" "covers (Settle r x) = None"
  "covers (Awaiters as) = None" "covers (Suspend p q) = None" "covers (Resume p) = None"
  "covers (FinalSuspend p) = None" "covers (FinalCleanup p) = None"
  by (simp_all add: covers_def)

lemma cleanup_ok_simps [simp]:
  "cleanup_ok s c (Exchange r x)" "cleanup_ok s c (Run a g)" "cleanup_ok s c (Settle r x)"
  "cleanup_ok s c (Awaiters as)" "cleanup_ok s c (Suspend p q)" "cleanup_ok s c (Resume p)"
  "cleanup_ok s c (FinalSuspend p)"
  "cleanup_ok s c (FinalCleanup p) \<longleftrightarrow> p_with_resolver (promises s ! p) \<or> claimed s p \<or>
     (c \<noteq> None \<and> c = p_resolver (promises s ! p))"
  by (simp_all add: cleanup_ok_def)

subsection \<open>The heap only moves forward\<close>

lemma claimed_evolves:
  assumes "evolves f s s'" "linked s" "p < length (promises s)" "claimed s p"
  shows "claimed s' p"
proof -
  obtain r where "r < length (resolvers s)" "p_resolver (promises s ! p) = Some r"
    using assms(2,3) by (rule linked_resolver_of)
  then show ?thesis
    using assms evolves_promise(3) [OF assms(1,3)] evolves_resolver(2) [OF assms(1)]
    by (simp add: claimed_def)
qed

lemma evolves_with_resolver:
  "evolves f s s' \<Longrightarrow> p < length (promises s) \<Longrightarrow>
     p_with_resolver (promises s' ! p) = p_with_resolver (promises s ! p)"
  by (simp add: evolves_def)

lemma cleanups_ok_evolves:
  assumes "evolves f s s'" "linked s" "\<forall>g \<in> set fs. frame_ok s g" "cleanups_ok s c fs"
  shows "cleanups_ok s' c fs"
  using assms(3,4)
proof (induction fs arbitrary: c)
  case (Cons g gs)
  have "cleanup_ok s' c g"
  proof (cases g)
    case (FinalCleanup p)
    then have "p < length (promises s)" using Cons.prems(1) by (simp add: running_def)
    then show ?thesis
      using Cons.prems(2) FinalCleanup claimed_evolves [OF assms(1,2)]
        evolves_with_resolver [OF assms(1)] evolves_promise(3) [OF assms(1)] by auto
  qed (simp_all add: cleanup_ok_def)
  then show ?case using Cons by simp
qed simp

lemma cleanups_ok_cover:
  assumes "cleanups_ok s (Some r) fs" "r_resolved (resolvers s ! r)"
  shows "cleanups_ok s None fs"
proof (cases fs)
  case (Cons f gs)
  then show ?thesis using assms by (cases f) (auto simp: claimed_def)
qed simp

definition quiet_frame :: "'o frame \<Rightarrow> bool" where
  "quiet_frame f \<longleftrightarrow>
     (case f of Exchange r x \<Rightarrow> False | FinalCleanup p \<Rightarrow> False | FinalSuspend p \<Rightarrow> False | _ \<Rightarrow> True)"

lemma quiet_frame_simps [simp]:
  "quiet_frame (Run c g)" "quiet_frame (Settle r x)" "quiet_frame (Awaiters as)"
  "quiet_frame (Suspend p q)" "quiet_frame (Resume p)"
  by (simp_all add: quiet_frame_def)

lemma quiet_frame_ok: "quiet_frame f \<Longrightarrow> cleanup_ok s c f \<and> covers f = None \<and> returns_ok s f"
  by (cases f) (auto simp: quiet_frame_def)

lemma cleanups_ok_quiet:
  "\<forall>f \<in> set gs. quiet_frame f \<Longrightarrow> cleanups_ok s None fs \<Longrightarrow> cleanups_ok s None (gs @ fs)"
  by (induction gs) (auto simp: quiet_frame_ok)

lemma returns_ok_evolves:
  assumes "evolves f s s'" "frame_ok s g" "returns_ok s g"
    "\<And>p. 0 < frame_token p g \<Longrightarrow> frame_token p f = 0"
  shows "returns_ok s' g"
proof (cases g)
  case (FinalSuspend p)
  then have "p < length (promises s)" "frame_token p f = 0"
    using assms(2,4) by (auto simp: running_def)
  then show ?thesis
    using FinalSuspend assms(3) evolves_promise [OF assms(1)] evolves_with_resolver [OF assms(1)]
    by (simp add: void_coroutine_def)
qed simp_all

subsection \<open>Which frames a step pushes\<close>

lemma op_effect_quiet_frames: "op_effect s s' new \<Longrightarrow> \<forall>f \<in> set new. quiet_frame f"
  by (auto simp: op_effect_def)

lemma resolve_op_claims:
  "resolve_op r x s = Next (s', new, y) \<Longrightarrow> r < length (resolvers s) \<and> r_resolved (resolvers s' ! r)"
  by (auto simp: resolve_op_def exchange_resolved_def Let_def split: if_splits)

lemma step_frame_pushes:
  assumes st: "step_frame t f fs s = Next (s', pushed @ fs, new)"
    and f: "\<And>p. f \<noteq> FinalSuspend p" "\<And>p g. f = Run (Coroutine p) g \<Longrightarrow> \<exists>q k. g = CoAwait q k \<or> (\<exists>a. g = Call a k)"
  shows "\<forall>g \<in> set pushed. quiet_frame g"
proof (cases "(t, f, fs, s)" rule: step_frame.cases)
  case (7 t' c a k fs' s1)
  then show ?thesis
    using st op_effect_quiet_frames [OF exec_op_effect] by fastforce
next
  case (8 t' r x fs' s1)
  then show ?thesis
    using st op_effect_quiet_frames [OF resolve_op_effect] by fastforce
qed (use st f in \<open>auto simp: co_await_def await_suspend_def resume_def settle_def final_cleanup_def
      Await_coroutine_def valid_promise_def with_shared_def with_unique_def Let_def
      split: if_splits option.splits coroutine.splits prod.splits\<close>)

text \<open>Only the end of a coroutine clears a handle, and only \<open>Create\<close> makes a promise without one.\<close>

lemma op_handles:
  assumes "op_effect s s' new" "p < length (promises s')" "Handle_Done s' p"
  shows "p < length (promises s) \<and> Handle_Done s p \<or> p_with_resolver (promises s' ! p)"
proof (cases "p < length (promises s)")
  case True
  obtain ns ms ks where "op_ext s ns ms ks s'" using assms(1) by (auto simp: op_effect_def)
  from op_ext_fields(7) [OF this True] show ?thesis using assms(3) True by simp
next
  case False
  obtain ns ms ks h where ext: "op_ext s ns ms ks s'" and fr: "ns = [] \<or> fresh s ns ms ks h"
    using assms(1) unfolding op_effect_def by blast
  have "ns \<noteq> []" using False assms(2) op_ext_length [OF ext] by auto
  then obtain x where x: "ns = [x]" "p_handle x = h" "h = NoHandle \<longrightarrow> p_with_resolver x"
    using fr by (auto simp: fresh_def)
  have "p = length (promises s)" using False assms(2) op_ext_length [OF ext] x(1) by simp
  then have "promises s' ! p = x" using op_ext_new(1) [OF ext, of 0] x(1) by simp
  then show ?thesis using x assms(3) by (auto simp: Handle_Done_def split: coroutine.splits)
qed

lemma OnResolved_handles:
  assumes "OnResolved p s = (as, s')"
  shows "Handle_Done s' q \<longleftrightarrow> Handle_Done s q"
  using assms
  by (cases rule: OnResolved_cases) (auto simp: Handle_Done_def nth_upd_nth_same)

lemma upd_handles:
  assumes "\<And>x. p_handle (g x) = p_handle x \<or> p_handle (g x) \<noteq> NoHandle" "Handle_Done (upd_promise p g s) q"
  shows "Handle_Done s q"
proof (cases "p = q \<and> p < length (promises s)")
  case True
  then show ?thesis
    using assms(1) [of "promises s ! p"] assms(2)
    by (auto simp: Handle_Done_def split: coroutine.splits)
next
  case False
  then have "promises (upd_promise p g s) ! q = promises s ! q"
    by (cases "p = q") (auto simp: upd_nth_def list_update_beyond)
  then show ?thesis using assms(2) by (simp add: Handle_Done_def)
qed

lemma step_frame_handles:
  assumes st: "step_frame t f fs s = Next (s', st, new)" and p: "p < length (promises s')" "Handle_Done s' p"
  shows "p < length (promises s) \<and> (Handle_Done s p \<or> f = FinalCleanup p) \<or> p_with_resolver (promises s' ! p)"
proof (cases "(t, f, fs, s)" rule: step_frame.cases)
  case (7 t' c a k fs' s1)
  then show ?thesis using st p op_handles [OF exec_op_effect] by fastforce
next
  case (8 t' r x fs' s1)
  then show ?thesis using st p op_handles [OF resolve_op_effect] by fastforce
next
  case (9 t' r x fs' s1)
  then obtain q as where "OnResolved q (upd_resolver r (store_outcome x) s) = (as, s')"
    using st by (auto simp: settle_def with_unique_def Let_def split: option.splits if_splits prod.splits)
  from OnResolved_handles [OF this, of p] OnResolved_outcome(2) [OF this] show ?thesis
    using p by (simp add: Handle_Done_def)
next
  case (16 t' q fs' s1)
  let ?s = "upd_promise q (\<lambda>y. y\<lparr>p_handle := NoHandle, p_function := False\<rparr>) s"
  have "s' = ?s \<or> (\<exists>as. OnResolved q ?s = (as, s'))"
    using st 16 by (auto simp: final_cleanup_def with_unique_def Let_def split: if_splits prod.splits)
  then have "Handle_Done ?s p" "p < length (promises s)"
    using p OnResolved_handles OnResolved_outcome(2) by fastforce+
  then show ?thesis using 16 by (cases "q = p") (auto simp: Handle_Done_def)
qed (use st p in \<open>auto simp: co_return_def co_await_def await_suspend_def resume_def final_suspend_def
      Await_coroutine_def valid_promise_def with_shared_def with_unique_def Let_def
      dest: upd_handles [rotated] split: if_splits option.splits coroutine.splits\<close>)

lemma claim_ok_step:
  assumes st: "step_frame t f fs s = Next (s', st, new)" and ev: "evolves f s s'"
    and ok: "linked s" "claim_ok s" "cleanups_ok s None (f # fs)" "frame_ok s f"
  shows "claim_ok s'"
  unfolding claim_ok_def
proof (intro allI impI, elim conjE)
  fix p assume p: "p < length (promises s')" "\<not> p_with_resolver (promises s' ! p)" "Handle_Done s' p"
  then have q: "p < length (promises s)" "Handle_Done s p \<or> f = FinalCleanup p"
    using step_frame_handles [OF st p(1,3)] by auto
  then have "\<not> p_with_resolver (promises s ! p)" using evolves_with_resolver [OF ev] p(2) by simp
  then have "claimed s p" using q ok by (auto simp: claim_ok_def)
  then show "claimed s' p" using claimed_evolves [OF ev ok(1) q(1)] by simp
qed

lemma final_suspend_claims:
  assumes "final_suspend p fs s = Next (s', st, new)" "returns_ok s (FinalSuspend p)"
    "p < length (promises s)" "cleanups_ok s' None fs"
  shows "cleanups_ok s' None st"
  using assms by (auto simp: final_suspend_def Let_def void_coroutine_def split: option.splits if_splits)

lemma stack_claims_step:
  assumes st: "step_frame t f fs s = Next (s', pushed @ fs, new)" and ev: "evolves f s s'"
    and ok: "linked s" "cleanups_ok s None (f # fs)" "\<forall>g \<in> set (f # fs). frame_ok s g" "returns_ok s f"
  shows "cleanups_ok s' None (pushed @ fs) \<and> (\<forall>g \<in> set pushed. returns_ok s' g)"
proof -
  have keep: "cleanups_ok s' (covers f) fs"
    using cleanups_ok_evolves [OF ev ok(1), of fs] ok(2,3) by simp
  have fs: "cleanups_ok s' None fs"
  proof (cases "\<exists>r x. f = Exchange r x")
    case True
    then obtain r x where f: "f = Exchange r x" by blast
    then have "r_resolved (resolvers s' ! r)" using st resolve_op_claims by fastforce
    then show ?thesis using keep f cleanups_ok_cover by simp
  qed (use keep in \<open>cases f; simp\<close>)
  consider (fin) p where "f = FinalSuspend p"
    | (ret) p x where "f = Run (Coroutine p) (finish x)"
    | (other) "\<And>p. f \<noteq> FinalSuspend p" "\<And>p g. f = Run (Coroutine p) g \<Longrightarrow> \<exists>q k. g = CoAwait q k \<or> (\<exists>a. g = Call a k)"
  proof (cases f)
    case (Run c g)
    show thesis
    proof (cases g)
      case (Return v)
      then show thesis using Run that(2) [of _ "Inr v"] that(3) by (cases c) auto
    next
      case (Throw e)
      then show thesis using Run that(2) [of _ "Inl e"] that(3) by (cases c) auto
    qed (use Run that(3) in auto)
  qed (use that in auto)
  then show ?thesis
  proof cases
    case fin
    have r: "p < length (promises s)" "cleanups_ok s' None (pushed @ fs)"
      using fin st ok(3,4) fs final_suspend_claims [of p fs s s' "pushed @ fs" new]
      by (auto simp: running_def)
    moreover have "\<forall>g \<in> set pushed. returns_ok s' g"
      using fin st by (auto simp: final_suspend_def Let_def split: option.splits if_splits)
    ultimately show ?thesis by simp
  next
    case (ret p x)
    then have "co_return p x fs s = Next (s', pushed @ fs, new)" using st by (cases x) auto
    then have "pushed = [FinalSuspend p]" "returns_ok s' (FinalSuspend p)"
      using ok(3) ret
      by (auto simp: co_return_def Let_def running_def void_coroutine_def split: if_splits sum.splits)
    then show ?thesis using fs by simp
  next
    case other
    have "\<forall>g \<in> set pushed. quiet_frame g"
      using st by (rule step_frame_pushes) (rule other, erule other)
    then show ?thesis
      using cleanups_ok_quiet [OF _ fs] quiet_frame_ok by blast
  qed
qed

lemma claims_ok_step:
  assumes ok: "machine_ok m" and cl: "claims_ok m" and st: "step t m = Next m'"
  shows "claims_ok m'"
  using st
proof (cases rule: step_cases)
  case (1 f fs s' st new)
  note D = machine_ok_D [OF ok]
  have fr: "\<forall>g \<in> set (f # fs). frame_ok (mem m) g" using D(4) [OF 1(1)] 1(2) by simp
  have C: "claim_ok (mem m)" "cleanups_ok (mem m) None (f # fs)" "\<forall>g \<in> set (f # fs). returns_ok (mem m) g"
    using cl 1(1,2) unfolding claims_ok_def by (metis nth_mem)+
  obtain pushed where p: "st = pushed @ fs" "step_ok f (mem m) s' pushed"
      "\<forall>th \<in> set new. \<exists>g. th = [Run Plain g]"
    using step_frame_ok [OF 1(3) D(1,2)] fr by auto
  have ev: "evolves f (mem m) s'" using p(2) by (simp add: step_ok_def)
  have st': "cleanups_ok s' None st \<and> (\<forall>g \<in> set pushed. returns_ok s' g)"
    using stack_claims_step [OF 1(3) [unfolded p(1)] ev D(3) C(2) fr] C(3) p(1) by simp
  have fs: "returns_ok s' g" if "g \<in> set fs" for g
    using that fr C(3) coro.holder_alone(4) [OF D(5) 1(1,2)]
    by (intro returns_ok_evolves [OF ev]) fastforce+
  have other: "cleanups_ok s' None th \<and> (\<forall>g \<in> set th. returns_ok s' g)"
    if th: "i < length (threads m)" "i \<noteq> t" "th = threads m ! i" for i th
  proof -
    have "frame_ok (mem m) g" "returns_ok (mem m) g" "cleanups_ok (mem m) None th" if "g \<in> set th" for g
      using D(4) [OF th(1)] cl th that unfolding claims_ok_def by auto
    moreover have "frame_token p f = 0" if "g \<in> set th" "0 < frame_token p g" for p g
      using coro.holder_alone(5) [OF D(5) 1(1,2) _ th(1,2), of p g] that th(3) by (metis neq0_conv)
    ultimately show ?thesis
      using cleanups_ok_evolves [OF ev D(3), of th None] returns_ok_evolves [OF ev] by (cases th) auto
  qed
  have "cleanups_ok s' None th \<and> (\<forall>g \<in> set th. returns_ok s' g)"
    if th: "th \<in> set ((threads m)[t := st] @ new)" for th
  proof -
    consider "th \<in> set new" | i where "i < length (threads m)" "th = ((threads m)[t := st]) ! i"
      using th by (auto simp: in_set_conv_nth)
    then show ?thesis
    proof cases
      case 1
      then show ?thesis using p(3) by fastforce
    next
      case i: (2 i)
      then show ?thesis using st' fs other [of i] p(1) by (cases "i = t") auto
    qed
  qed
  then show ?thesis
    using claim_ok_step [OF 1(3) ev D(3) C(1,2)] fr by (simp add: claims_ok_def 1(4))
qed

lemma reachable_claims_ok: "reachable m \<Longrightarrow> claims_ok m"
proof (induction rule: reachable.induct)
  case (reachable_init b gs)
  then show ?case by (auto simp: claims_ok_def claim_ok_def init_def empty_store_def)
next
  case (reachable_step m t m')
  then show ?case using claims_ok_step reachable_machine_ok by blast
qed

subsection \<open>Consequences\<close>

lemma sum_list_pos_member:
  fixes f :: "'a \<Rightarrow> nat"
  shows "0 < sum_list (map f xs) \<Longrightarrow> \<exists>x \<in> set xs. 0 < f x"
  by (induction xs) auto

lemma settle_token_pos: "0 < settle_token r f \<longleftrightarrow> (\<exists>x. f = Settle r x)"
  by (cases f) auto

text \<open>A resolver whose flag is set has its outcome, or a thread is about to store it.\<close>

lemma settling_thread:
  assumes "reachable m" "r < length (resolvers (mem m))" "r_resolved (resolvers (mem m) ! r)"
  shows "resolver_outcome (resolvers (mem m) ! r) \<noteq> None \<or>
    (\<exists>t < length (threads m). \<exists>x. Settle r x \<in> set (threads m ! t))"
proof (rule disjCI)
  assume "\<nexists>t. t < length (threads m) \<and> (\<exists>x. Settle r x \<in> set (threads m ! t))"
  then have none: "settle_token r f = 0" if "fs \<in> set (threads m)" "f \<in> set fs" for fs f
    using that settle_token_pos [of r f] by (metis in_set_conv_nth neq0_conv)
  then have "ledger_total settle_token (\<lambda>r s. 0) r m = 0"
    by (simp add: ledger_total_def sum_list_map_eq_0_iff_nat)
  then have "unsettled r (mem m) = 0"
    using machine_ok_D(6) [OF reachable_machine_ok [OF assms(1)]] by simp
  then show "resolver_outcome (resolvers (mem m) ! r) \<noteq> None"
    using assms(2,3) by (simp add: unsettled_def)
qed


definition quiescent :: "'o machine \<Rightarrow> bool" where
  "quiescent m \<longleftrightarrow> (\<forall>fs \<in> set (threads m). fs = [])"

lemma idle_coroutine_settled:
  assumes "reachable m" "quiescent m" "p < length (promises (mem m))"
  shows "p_with_resolver (promises (mem m) ! p) \<or> \<not> Handle_Done (mem m) p \<or> outcome_of (mem m) p \<noteq> None"
proof (rule ccontr)
  assume a: "\<not> ?thesis"
  have "linked (mem m)" using machine_ok_D(3) [OF reachable_machine_ok [OF assms(1)]] .
  then obtain r where r: "r < length (resolvers (mem m))" "p_resolver (promises (mem m) ! p) = Some r"
    using assms(3) by (rule linked_resolver_of)
  have "r_resolved (resolvers (mem m) ! r)"
    using reachable_claims_ok [OF assms(1)] assms(3) a r
    by (simp add: claims_ok_def claim_ok_def claimed_def)
  moreover have "\<forall>t < length (threads m). threads m ! t = []"
    using assms(2) by (simp add: quiescent_def)
  ultimately show False
    using settling_thread [OF assms(1) r(1)] r(2) assms(3) a by (auto simp: outcome_of_def)
qed

text \<open>
  C15. Liveness of completion: once all threads are idle, every coroutine promise whose coroutine
  has run to its end is settled; the end of a coroutine is never forgotten.
\<close>

theorem finished_coroutine_settled:
  assumes "reachable m" "quiescent m" "p < length (promises (mem m))"
    "\<not> p_with_resolver (promises (mem m) ! p)" "Handle_Done (mem m) p"
  shows "outcome_of (mem m) p \<noteq> None"
  using idle_coroutine_settled [OF assms(1-3)] assms(4,5) by blast

text \<open>
  C3. No lost wake-up: once all threads are idle, a coroutine suspended on a promise is registered
  with that promise, and the promise is still pending or its own coroutine has not ended.
\<close>

theorem no_lost_wakeup_quiescent:
  assumes "reachable m" "quiescent m" "p < length (promises (mem m))"
    "p_handle (promises (mem m) ! p) = Suspended q k"
  shows "q < length (promises (mem m)) \<and> ACoroutine p \<in> set (p_awaiters (promises (mem m) ! q)) \<and>
    (outcome_of (mem m) q = None \<or> \<not> Handle_Done (mem m) q)"
proof -
  note D = machine_ok_D [OF reachable_machine_ok [OF assms(1)]]
  have "live p (mem m) = 1" using assms(3,4) by (simp add: live_def Handle_Done_def)
  moreover have "sum_list (map (\<lambda>fs. sum_list (map (frame_token p) fs)) (threads m)) = 0"
    using assms(2) by (auto simp: sum_list_map_eq_0_iff_nat quiescent_def)
  ultimately have "0 < store_tokens p (mem m)"
    using D(5) by (metis add_0 ledger_total_def less_one)
  then obtain q' where q': "q' < length (promises (mem m))"
      "0 < awaiters_tokens p (p_awaiters (promises (mem m) ! q'))"
    unfolding store_tokens_def using sum_list_pos_member by (metis in_set_conv_nth)
  then have a: "ACoroutine p \<in> set (p_awaiters (promises (mem m) ! q'))"
    using sum_list_pos_member awaiter_token_pos by metis
  from awaiters_ok_D [OF D(2) q'(1) a] have "q' = q" using assms(4) by (auto simp: waiting_on_handle)
  moreover have "no_lost_wakeup (mem m)" using D(1) by (simp add: store_ok_def)
  ultimately show ?thesis
    using q'(1) a no_lost_wakeup_D [of "mem m" q] by fastforce
qed

text \<open>
  C17. A coroutine that has not ended is owned once: it is named by exactly one entry of one list
  of awaiters or by one frame of one thread, so that no two threads can ever resume it; a finished
  coroutine is named nowhere.
\<close>

theorem coroutine_owned_once:
  assumes "reachable m"
  shows "(\<Sum>fs\<leftarrow>threads m. \<Sum>f\<leftarrow>fs. frame_token p f) + store_tokens p (mem m) =
    of_bool (p < length (promises (mem m)) \<and> \<not> Handle_Done (mem m) p)"
  using machine_ok_D(5) [OF reachable_machine_ok [OF assms]]
  by (simp add: ledger_total_def live_def)

subsection \<open>Blocking\<close>


lemma bindR_Blocked: "bindR m f = Blocked \<longleftrightarrow> m = Blocked \<or> (\<exists>a. m = Next a \<and> f a = Blocked)"
  by (cases m) auto


lemma reads_not_Blocked [simp]:
  "IsDone s p \<noteq> Blocked" "IsResolved s p \<noteq> Blocked" "IsRejected s p \<noteq> Blocked"
  "await_resume s p \<noteq> Blocked" "read_outcome s p \<noteq> Blocked" "Detach p s \<noteq> Blocked"
  "Await_function p f s \<noteq> Blocked" "Await_coroutine p h s \<noteq> Blocked"
  by (auto simp: IsDone_def IsResolved_def IsRejected_def await_resume_def read_outcome_def
      GetException_def GetValue_def Detach_def Await_function_def Await_coroutine_def bindR_Blocked
      Let_def split: option.splits if_splits)




end
