(* ===== verification/Samples.thy ===== *)
theory Samples
  imports Completion
begin

text \<open>
  Small client programs, used to evaluate the model on concrete schedules: a coroutine that awaits
  a promise which the main thread settles, and two threads that race to settle one promise.
\<close>

text \<open>Create a promise, start a coroutine that awaits it, and settle it when asked to.\<close>

definition await_sample :: "bool \<Rightarrow> unit prog" where
  "await_sample b =
     callP (OCreate TInt) (\<lambda>v. with_handles v (\<lambda>p r j.
       callP (OStart TInt False (\<lambda>r' j'. CoAwait p finish)) (\<lambda>w.
         if b then callP (OResolve r (VInt 7)) Return else Return VVoid)))"

definition await_machine :: "bool \<Rightarrow> nat \<Rightarrow> unit machine" where
  "await_machine b n = after (init () [await_sample b]) (replicate n 0)"

lemma reachable_await_machine [simp]: "reachable (await_machine b n)"
  unfolding await_machine_def by (intro reachable_after reachable_init)




subsection \<open>The guarantees on concrete runs\<close>

lemma step_next: "fault_of (step t m) = None \<Longrightarrow> \<not> is_blocked (step t m) \<Longrightarrow> step t m = Next (after m [t])"
  using Next_if [of "step t m"] by (auto simp: after_def)

text \<open>The step at which the sample's promise is settled, seen by the specification.\<close>

theorem step_refines_life_witness:
  "status (mem (await_machine True 6)) 0 = Some Pending \<and>
   status (mem (after (await_machine True 6) [0])) 0 = Some (Fulfilled (VInt 7)) \<and>
   life (status (mem (await_machine True 6))) (status (mem (after (await_machine True 6) [0])))"
proof -
  have "step 0 (await_machine True 6) = Next (after (await_machine True 6) [0])"
    by (rule step_next) code_simp+
  from step_refines_life [OF reachable_await_machine this]
  have "life (status (mem (await_machine True 6))) (status (mem (after (await_machine True 6) [0])))" .
  moreover have "status (mem (await_machine True 6)) 0 = Some Pending" by code_simp
  moreover have "status (mem (after (await_machine True 6) [0])) 0 = Some (Fulfilled (VInt 7))"
    by code_simp
  ultimately show ?thesis by simp
qed

theorem outcome_stable_witness:
  "outcome_of (mem (after (await_machine True 8) [0, 0, 0, 0])) 0 = Some (Inr (VInt 7))"
proof -
  have "outcome_of (mem (await_machine True 8)) 0 = Some (Inr (VInt 7))" by code_simp
  with reachable_await_machine steps_after show ?thesis by (rule outcome_stable)
qed


theorem finished_coroutine_settled_witness:
  "outcome_of (mem (await_machine True 18)) 1 \<noteq> None"
proof (rule finished_coroutine_settled [OF reachable_await_machine])
  show "quiescent (await_machine True 18)" by code_simp
  show "1 < length (promises (mem (await_machine True 18)))" by code_simp
  show "\<not> p_with_resolver (promises (mem (await_machine True 18)) ! 1)" by code_simp
  show "Handle_Done (mem (await_machine True 18)) 1" by code_simp
qed

theorem no_lost_wakeup_witness:
  "ACoroutine 1 \<in> set (p_awaiters (promises (mem (await_machine False 6)) ! 0)) \<and>
   outcome_of (mem (await_machine False 6)) 0 = None"
proof -
  have "quiescent (await_machine False 6)" "1 < length (promises (mem (await_machine False 6)))"
    "outcome_of (mem (await_machine False 6)) 0 = None" by code_simp+
  moreover have "waiting_on (mem (await_machine False 6)) 1 0" by code_simp
  then obtain k where "p_handle (promises (mem (await_machine False 6)) ! 1) = Suspended 0 k"
    by (auto simp: waiting_on_handle)
  ultimately show ?thesis
    using no_lost_wakeup_quiescent [OF reachable_await_machine] by blast
qed

theorem coroutine_owned_once_witness:
  "(\<Sum>fs\<leftarrow>threads (await_machine True 7). \<Sum>f\<leftarrow>fs. frame_token 1 f) +
     store_tokens 1 (mem (await_machine True 7)) = 1"
proof -
  have "1 < length (promises (mem (await_machine True 7)))" "\<not> Handle_Done (mem (await_machine True 7)) 1"
    by code_simp+
  then show ?thesis using coroutine_owned_once [OF reachable_await_machine, of 1 True 7] by simp
qed


end
