(* ===== verification/Finite_Runs.thy ===== *)
theory Finite_Runs
  imports Safety "HOL-Library.Multiset"
begin

text \<open>
  Every run is finite. The bodies of threads, callbacks and coroutines are finite trees, but the
  loops of the library could still go round for ever: awaiters register awaiters, coroutines resume
  coroutines, settling a promise runs code that settles the next one. A machine is measured by the
  multiset of what is left to run: the bodies in its frames, in the awaiter lists and in suspended
  coroutines, with a token for each step of the library's own bookkeeping. Every step replaces
  elements of the multiset by smaller ones.
\<close>

subsection \<open>Parts of a body\<close>

fun progs_of :: "'o op \<Rightarrow> 'o prog set" where
  "progs_of (OStart T w b) = {b r j | r j. True}"
| "progs_of (OTryAwait p f) = {f}"
| "progs_of (OTryAwaitNew p T f) = {f r j | r j. True}"
| "progs_of (OSpawn f) = {f}"
| "progs_of a = {}"

fun subs :: "'o prog \<Rightarrow> 'o prog set" where
  "subs (CoAwait p k) = range k"
| "subs (Call a k) = range k \<union> progs_of a"
| "subs m = {}"

definition part :: "('o prog \<times> 'o prog) set" where
  "part = {(m', m). m' \<in> subs m}"

lemma part_acc:
  fixes m :: "'o prog" and a :: "'o op"
  shows "m \<in> Wellfounded.acc part" and "\<forall>m \<in> progs_of a. m \<in> Wellfounded.acc part"
proof (induction m and a rule: prog.induct op.induct)
  case (Call a k)
  show ?case by (rule accI) (use Call in \<open>auto simp: part_def\<close>)
next
  case (CoAwait p k)
  show ?case by (rule accI) (use CoAwait in \<open>auto simp: part_def\<close>)
next
  case (Return v)
  show ?case by (rule accI) (simp add: part_def)
next
  case (Throw e)
  show ?case by (rule accI) (simp add: part_def)
qed auto

lemma wf_part: "wf part"
  using part_acc by (intro acc_wfI) blast

subsection \<open>Tokens\<close>

datatype 'o token =
    Step nat                       \<comment> \<open>bookkeeping that is due\<close>
  | Body "'o prog" bool            \<comment> \<open>a body that runs or may run (true) or waits in its co\_await\<close>

inductive_set below :: "('o token \<times> 'o token) set" where
  below_step: "i < j \<Longrightarrow> (Step i, Step j) \<in> below"
| below_body: "(Step i, Body m b) \<in> below"
| below_part: "(m', m) \<in> part \<Longrightarrow> (Body m' b', Body m b) \<in> below"
| below_wait: "(Body m False, Body m True) \<in> below"

declare below.intros [intro]

lemma below_simps [simp]:
  "(Step i, Step j) \<in> below \<longleftrightarrow> i < j" "(Step i, Body m b) \<in> below" "(Body m False, Body m True) \<in> below"
  by (auto elim: below.cases)

fun rank :: "'o token \<Rightarrow> nat \<times> 'o prog \<times> nat" where
  "rank (Step i) = (0, Return VVoid, i)"
| "rank (Body m b) = (1, m, of_bool b)"

lemma wf_below: "wf below"
proof (rule wf_subset)
  show "wf (inv_image (less_than <*lex*> part <*lex*> less_than) rank)"
    by (intro wf_inv_image wf_lex_prod wf_part wf_less_than)
  show "below \<subseteq> inv_image (less_than <*lex*> part <*lex*> less_than) rank"
    by (auto elim!: below.cases)
qed

text \<open>The end of a body is bookkeeping.\<close>

definition tok :: "'o prog \<Rightarrow> 'o token" where
  "tok m = (case m of Return v \<Rightarrow> Step 10 | Throw e \<Rightarrow> Step 10 | _ \<Rightarrow> Body m True)"

lemma tok_simps [simp]:
  "tok (Return v) = Step 10" "tok (Throw e) = Step 10" "tok (CoAwait p k) = Body (CoAwait p k) True"
  "tok (Call a k) = Body (Call a k) True"
  by (simp_all add: tok_def)

lemma tok_below: "m' \<in> subs m \<Longrightarrow> (tok m', Body m b) \<in> below"
  by (cases m') (auto simp: part_def)

fun awaiter_load :: "'o awaiter \<Rightarrow> 'o token multiset" where
  "awaiter_load (ACoroutine h) = {#Step 4#}"
| "awaiter_load (AFunction i g) = {#Step 5, tok g#}"

abbreviation awaiters_load :: "'o awaiter list \<Rightarrow> 'o token multiset" where
  "awaiters_load as \<equiv> sum_list (map awaiter_load as)"

fun handle_load :: "'o coroutine \<Rightarrow> 'o token multiset" where
  "handle_load (Initial g) = {#tok g#}"
| "handle_load (Suspended q k) = {#Body (CoAwait q k) False#}"
| "handle_load h = {#}"

definition promise_load :: "'o promise \<Rightarrow> 'o token multiset" where
  "promise_load x = handle_load (p_handle x) + awaiters_load (p_awaiters x)"

definition load :: "'o store \<Rightarrow> 'o token multiset" where
  "load s = sum_list (map promise_load (promises s))"

fun frame_load :: "'o frame \<Rightarrow> 'o token multiset" where
  "frame_load (Run c m) = {#tok m#}"
| "frame_load (Exchange r x) = {#Step 7#}"
| "frame_load (Settle r x) = {#Step 6#}"
| "frame_load (Awaiters as) = {#Step 1#} + awaiters_load as"
| "frame_load (Suspend p q) = {#Step 8#}"
| "frame_load (Resume p) = {#Step 3#}"
| "frame_load (FinalSuspend p) = {#Step 9#}"
| "frame_load (FinalCleanup p) = {#Step 2#}"

abbreviation frames_load :: "'o frame list \<Rightarrow> 'o token multiset" where
  "frames_load fs \<equiv> sum_list (map frame_load fs)"

definition machine_load :: "'o machine \<Rightarrow> 'o token multiset" where
  "machine_load m = load (mem m) + sum_list (map frames_load (threads m))"

subsection \<open>Descent\<close>

definition descends :: "'o token multiset \<Rightarrow> 'o token multiset \<Rightarrow> bool" where
  "descends A B \<longleftrightarrow>
     (\<exists>I J K. B = I + J \<and> J \<noteq> {#} \<and> A \<subseteq># I + K \<and> (\<forall>k \<in># K. \<exists>j \<in># J. (k, j) \<in> below))"

lemma descends_mult:
  assumes "descends A B"
  shows "(A, B) \<in> mult below"
proof -
  obtain I J K where *: "B = I + J" "J \<noteq> {#}" "A \<subseteq># I + K" "\<forall>k \<in># K. \<exists>j \<in># J. (k, j) \<in> below"
    using assms by (auto simp: descends_def)
  have "(I + K, B) \<in> mult below" unfolding *(1) using *(2,4) by (rule one_step_implies_mult)
  moreover have "A = I + K \<or> (A, I + K) \<in> mult below"
    using *(3) subset_implies_mult by (auto simp: subset_mset.le_less)
  ultimately show ?thesis unfolding mult_def by (auto intro: trancl_trans)
qed

lemma descends_add: "descends A B \<Longrightarrow> descends (C + A) (C + B)"
proof -
  assume "descends A B"
  then obtain I J K where "B = I + J" "J \<noteq> {#}" "A \<subseteq># I + K" "\<forall>k \<in># K. \<exists>j \<in># J. (k, j) \<in> below"
    by (auto simp: descends_def)
  then show ?thesis unfolding descends_def
    by (intro exI [of _ "C + I"] exI [of _ J] exI [of _ K]) (auto simp: add.assoc)
qed

text \<open>The common case: one token goes, smaller ones come, and the rest does not grow.\<close>

lemma descends_one:
  assumes "A \<subseteq># I + K" "\<forall>k \<in># K. (k, j) \<in> below"
  shows "descends A (add_mset j I)"
  unfolding descends_def using assms by (intro exI [of _ I] exI [of _ "{#j#}"] exI [of _ K]) auto

subsection \<open>The load of a store\<close>

lemma sum_list_split_nth:
  fixes f :: "'a \<Rightarrow> 'b multiset"
  assumes "i < length xs"
  shows "sum_list (map f xs) = sum_list (map f (take i xs @ drop (Suc i) xs)) + f (xs ! i)"
  by (subst id_take_nth_drop [OF assms]) (simp add: ac_simps)

definition other_load :: "pid \<Rightarrow> 'o store \<Rightarrow> 'o token multiset" where
  "other_load p s = sum_list (map promise_load (take p (promises s) @ drop (Suc p) (promises s)))"

lemma load_split: "p < length (promises s) \<Longrightarrow> load s = other_load p s + promise_load (promises s ! p)"
  unfolding load_def other_load_def by (rule sum_list_split_nth)

lemma load_upd:
  assumes "p < length (promises s)"
  shows "load (upd_promise p g s) = other_load p s + promise_load (g (promises s ! p))"
  using assms sum_list_split_nth [of p "promises (upd_promise p g s)" promise_load]
  by (simp add: load_def other_load_def upd_nth_def)

lemma load_upd_same: "(\<And>x. promise_load (g x) = promise_load x) \<Longrightarrow> load (upd_promise p g s) = load s"
proof (cases "p < length (promises s)")
  case True
  assume "\<And>x. promise_load (g x) = promise_load x"
  then show ?thesis using load_upd [OF True] load_split [OF True] by simp
qed (simp add: load_def upd_nth_def list_update_beyond)

lemma load_other_fields [simp]:
  "load (upd_resolver r h s) = load s" "load (upd_reject j h' s) = load s" "load (s\<lparr>objects := b\<rparr>) = load s"
  by (simp_all add: load_def)

subsection \<open>The load of an operation\<close>

lemma load_Promise_Create:
  assumes "Promise_Create T s = (p, r, j, s')"
  shows "load s' = load s" "length (promises s) = p" "promises s' = promises s @ [promises s' ! p]"
  using assms by (auto simp: Promise_Create_eq load_def promise_load_def new_promise_def)

lemma load_CreateImpl:
  assumes "CreateImpl T w b s = (p, r, j, s')"
  shows "load s' = load s + {#tok (b r j)#}"
  using assms by (auto simp: CreateImpl_eq load_def promise_load_def new_promise_def)

lemma load_add_awaiter:
  assumes "\<And>x. p_handle (g x) = p_handle x" "\<And>x. p_awaiters (g x) = p_awaiters x @ [a]"
  shows "load (upd_promise p g s) \<subseteq># load s + awaiter_load a"
proof (cases "p < length (promises s)")
  case True
  then show ?thesis using load_upd [OF True] load_split [OF True] assms by (simp add: promise_load_def)
qed (simp add: load_def upd_nth_def list_update_beyond)

lemma load_Await_function:
  assumes "Await_function p f s = Next (i, s')"
  shows "load s' \<subseteq># load s + {#Step 5, tok f#}"
  using assms load_add_awaiter [of _ "AFunction (p_use_count (promises s ! p) + 1) f" p s]
  by (auto simp: Await_function_def Let_def split: if_splits)

lemma sum_list_erase_first: "sum_list (map f (erase_first P xs)) \<subseteq># (sum_list (map f xs) :: 'b multiset)"
  by (induction xs) (auto intro: subset_mset.add_increasing)

lemma load_UnAwait:
  assumes "UnAwait p i s = (b, s')"
  shows "load s' \<subseteq># load s"
proof (cases "p < length (promises s)")
  case True
  then show ?thesis
    using assms load_upd [OF True] load_split [OF True] sum_list_erase_first [of awaiter_load]
    by (auto simp: UnAwait_def promise_load_def split: if_splits)
qed (use assms in \<open>auto simp: UnAwait_def load_def upd_nth_def list_update_beyond split: if_splits\<close>)

lemma load_resolve_op:
  assumes "resolve_op r x s = Next (s', new, y)"
  shows "load s' = load s" "frames_load new \<subseteq># {#Step 6#}"
  using assms by (auto simp: resolve_op_def exchange_resolved_def Let_def split: if_splits)

lemma load_readers [simp]: "load (lock_shared t p s) = load s" "load (unlock_shared t p s) = load s"
  by (simp_all add: lock_shared_def unlock_shared_def load_upd_same promise_load_def)

lemma load_Detach: "Detach p s = Next s' \<Longrightarrow> load s' = load s"
  by (auto simp: Detach_def load_upd_same promise_load_def split: if_splits)

lemma load_reject_op:
  assumes "reject_op j e s = Next (s', new, y)"
  shows "load s' = load s" "frames_load new \<subseteq># {#Step 6#}"
  using assms by (auto simp: reject_op_def exchange_rejected_def Let_def dest: load_resolve_op split: if_splits)

lemma load_try_await:
  assumes "try_await t p f s = Next (s', new, y)"
  shows "load s' + frames_load new \<subseteq># load s + {#Step 5, tok f#}"
  using assms load_Await_function [of p f s]
  by (auto simp: try_await_def with_unique_def ret_def Let_def split: if_splits intro: subset_mset.add_increasing2)

lemma load_try_await_new:
  assumes "try_await_new t p T f s = Next (s', new, y)"
  shows "\<exists>r j. load s' + frames_load new \<subseteq># load s + {#Step 5, tok (f r j)#}"
proof -
  obtain q r j s1 where c: "Promise_Create T s = (q, r, j, s1)" by (metis prod_cases4)
  then show ?thesis
    using assms load_Await_function [of p "f r j" s1] load_Promise_Create(1) [OF c]
    by (intro exI [of _ r] exI [of _ j])
      (auto simp: try_await_new_def with_unique_def ret_def Let_def split: if_splits intro: subset_mset.add_increasing2)
qed

text \<open>The bodies an operation hands to a new thread.\<close>

definition spawned :: "'o op \<Rightarrow> 'o frame list list" where
  "spawned a = (case a of OSpawn g \<Rightarrow> [[Run Plain g]] | _ \<Rightarrow> [])"

abbreviation threads_load :: "'o frame list list \<Rightarrow> 'o token multiset" where
  "threads_load ts \<equiv> sum_list (map frames_load ts)"

lemma exec_op_load:
  assumes "exec_op t a s = Next (s', new, x)"
  shows "\<exists>K. load s' + frames_load new + threads_load (spawned a) \<subseteq># load s + K \<and>
    (\<forall>k \<in># K. (k, Body (Call a h) True) \<in> below)" (is "\<exists>K. ?L \<subseteq># load s + K \<and> ?B K")
proof -
  have quiet: ?thesis if "load s' = load s" "frames_load new \<subseteq># {#Step 6#}" "spawned a = []"
    using that by (intro exI [of _ "{#Step 6#}"]) auto
  have part: "(tok m, Body (Call a h) True) \<in> below" if "m \<in> progs_of a" for m
    using that by (intro tok_below) auto
  show ?thesis
  proof (cases a)
    case (OStart T w b)
    obtain p r j s1 where c: "CreateImpl T w b s = (p, r, j, s1)" by (metis prod_cases4)
    then have "?L = load s + {#tok (b r j), Step 3#}"
      using assms load_CreateImpl [OF c] by (auto simp: OStart spawned_def)
    then show ?thesis using part [of "b r j"] by (intro exI [of _ "{#tok (b r j), Step 3#}"]) (auto simp: OStart)
  next
    case (OTryAwait p f)
    then show ?thesis using assms part [of f] load_try_await [of t p f s]
      by (intro exI [of _ "{#Step 5, tok f#}"]) (auto simp: valid_promise_def spawned_def split: if_splits)
  next
    case (OTryAwaitNew p T f)
    then obtain r j where "?L \<subseteq># load s + {#Step 5, tok (f r j)#}"
      using assms load_try_await_new [of t p T f s] by (auto simp: valid_promise_def spawned_def split: if_splits)
    then show ?thesis using part [of "f r j"] by (intro exI [of _ "{#Step 5, tok (f r j)#}"]) (auto simp: OTryAwaitNew)
  next
    case (OUnAwait p i)
    then have "?L \<subseteq># load s" using assms load_UnAwait [of p i s]
      by (auto simp: valid_promise_def with_unique_def ret_def spawned_def Let_def split: if_splits prod.splits)
    then show ?thesis by (intro exI [of _ "{#}"]) auto
  next
    case (OSpawn g)
    then show ?thesis using assms part [of g]
      by (intro exI [of _ "{#tok g#}"]) (auto simp: ret_def spawned_def)
  next
    case (OCreate T)
    obtain p r j s1 where c: "Promise_Create T s = (p, r, j, s1)" by (metis prod_cases4)
    then show ?thesis using assms load_Promise_Create(1) [OF c]
      by (intro quiet) (auto simp: OCreate ret_def spawned_def)
  next
    case (OResolve r v)
    then show ?thesis using assms load_resolve_op [of r "Inr v" s s' new x] by (intro quiet) (auto simp: spawned_def)
  next
    case (OReject j e)
    then show ?thesis using assms load_reject_op [of j e s s' new x] by (intro quiet) (auto simp: spawned_def)
  next
    case (OTouch p)
    then show ?thesis using assms
      by (intro quiet) (auto simp: valid_promise_def with_unique_def ret_def spawned_def Let_def load_upd_same promise_load_def split: if_splits)
  next
    case (ODetach p)
    then show ?thesis using assms load_Detach [of p s]
      by (intro quiet) (auto simp: valid_promise_def with_unique_def ret_def spawned_def Let_def split: if_splits)
  qed (use assms in \<open>auto intro!: exI [of _ "{#}"] simp: valid_promise_def with_shared_def ret_def spawned_def Let_def split: if_splits prod.splits\<close>)
qed

subsection \<open>One lemma per kind of frame\<close>

lemma co_return_load:
  assumes "co_return p x fs s = Next (s', st, new)"
  shows "st = FinalSuspend p # fs \<and> new = [] \<and> load s' = load s"
  using assms by (auto simp: co_return_def Let_def load_upd_same promise_load_def split: if_splits)

lemma load_set_handle:
  assumes "\<And>y. p_handle (g y) = h" "\<And>y. p_awaiters (g y) = p_awaiters y" "p < length (promises s)"
  shows "load (upd_promise p g s) + handle_load (p_handle (promises s ! p)) = load s + handle_load h"
  using load_upd [OF assms(3), of g] load_split [OF assms(3)] assms(1,2) by (simp add: promise_load_def)

lemma co_await_load:
  assumes "co_await t p q k fs s = Next (s', st, new)" "running s p"
  shows "(\<exists>x. st = Run (Coroutine p) (k x) # fs \<and> s' = s \<and> new = []) \<or>
    st = Suspend p q # fs \<and> new = [] \<and> load s' = load s + {#Body (CoAwait q k) False#}"
  using assms load_set_handle [of "\<lambda>y. y\<lparr>p_handle := Suspended q k\<rparr>" "Suspended q k" p s]
  by (auto simp: co_await_def valid_promise_def with_shared_def running_handle split: if_splits)

lemma await_suspend_load:
  assumes "await_suspend t p q fs s = Next (s', st, new)"
  shows "new = [] \<and> (st = Resume p # fs \<and> s' = s \<or> st = fs \<and> load s' \<subseteq># load s + {#Step 4#})"
  using assms load_add_awaiter [of _ "ACoroutine p" q s]
  by (auto simp: await_suspend_def with_unique_def Await_coroutine_def Let_def split: if_splits)

lemma resume_load:
  assumes "resume t p fs s = Next (s', st, new)" "p < length (promises s)" "linked s"
  shows "\<exists>m. st = Run (Coroutine p) m # fs \<and> new = [] \<and>
    (load s' + {#tok m#} = load s \<or> (\<exists>q k x. m = k x \<and> load s' + {#Body (CoAwait q k) False#} = load s))"
proof -
  have r: "p_resolver (promises s ! p) \<noteq> None" using assms(2,3) by (auto simp: linked_def)
  show ?thesis
    using assms(1) r load_set_handle [of "\<lambda>y. y\<lparr>p_handle := Running\<rparr>" Running p s, OF _ _ assms(2)]
    by (auto simp: resume_def with_shared_def Let_def split: coroutine.splits if_splits)
qed

lemma load_OnResolved:
  assumes "OnResolved p s = (as, s')" "p < length (promises s)"
  shows "load s' + awaiters_load as = load s"
  using assms load_upd [OF assms(2)] load_split [OF assms(2)]
  by (auto simp: OnResolved_def promise_load_def split: if_splits)

lemma settle_load:
  assumes "settle t r x fs s = Next (s', st, new)" "r < length (resolvers s)" "linked s"
  shows "\<exists>as. st = Awaiters as # fs \<and> new = [] \<and> load s' + awaiters_load as = load s"
proof -
  obtain p where "r_promise (resolvers s ! r) = Some p" "p < length (promises s)"
    using assms(2,3) unfolding linked_def by blast
  then show ?thesis using assms(1) load_OnResolved [of p "upd_resolver r (store_outcome x) s"]
    by (auto simp: settle_def with_unique_def Let_def split: if_splits prod.splits)
qed

lemma final_suspend_load:
  assumes "final_suspend p fs s = Next (s', st, new)"
  shows "new = [] \<and> load s' = load s \<and>
    (st = FinalCleanup p # fs \<or> (\<exists>r x. st = Exchange r x # FinalCleanup p # fs))"
  using assms
  by (auto simp: final_suspend_def Let_def load_upd_same promise_load_def split: option.splits if_splits)

lemma final_cleanup_load:
  assumes "final_cleanup t p fs s = Next (s', st, new)" "p < length (promises s)"
  shows "new = [] \<and> (\<exists>as. (st = Awaiters as # fs \<or> st = fs \<and> as = []) \<and> load s' + awaiters_load as \<subseteq># load s)"
proof -
  let ?s = "upd_promise p (\<lambda>y. y\<lparr>p_handle := NoHandle, p_function := False\<rparr>) s"
  have "load ?s + handle_load (p_handle (promises s ! p)) = load s"
    using load_set_handle [of "\<lambda>y. y\<lparr>p_handle := NoHandle, p_function := False\<rparr>" NoHandle p s] assms(2) by simp
  then have "load ?s \<subseteq># load s" by (metis mset_subset_eq_add_left)
  then show ?thesis using assms load_OnResolved [of p ?s]
    by (auto simp: final_cleanup_def with_unique_def Let_def split: if_splits prod.splits)
qed

subsection \<open>Every step descends\<close>

abbreviation frame_descends :: "'o frame \<Rightarrow> 'o frame list \<Rightarrow> 'o store \<Rightarrow> 'o store \<Rightarrow> 'o frame list \<Rightarrow> 'o frame list list \<Rightarrow> bool" where
  "frame_descends f fs s s' st new \<equiv>
     descends (load s' + frames_load st + threads_load new) (load s + frames_load (f # fs))"

lemma call_descends:
  assumes "exec_op t a s = Next (s', news, x)"
  shows "frame_descends (Run c (Call a k)) fs s s' (news @ Run c (k x) # fs) (spawned a)"
proof -
  obtain K where K: "load s' + frames_load news + threads_load (spawned a) \<subseteq># load s + K"
    "\<forall>y \<in># K. (y, Body (Call a k) True) \<in> below"
    using exec_op_load [OF assms] by blast
  have "load s' + frames_load (news @ Run c (k x) # fs) + threads_load (spawned a)
      \<subseteq># (load s + frames_load fs) + (K + {#tok (k x)#})"
    using K(1) by (simp add: ac_simps)
  moreover have "\<forall>y \<in># K + {#tok (k x)#}. (y, Body (Call a k) True) \<in> below"
    using K(2) tok_below [of "k x"] by auto
  ultimately have "descends (load s' + frames_load (news @ Run c (k x) # fs) + threads_load (spawned a))
      (add_mset (Body (Call a k) True) (load s + frames_load fs))"
    by (rule descends_one)
  then show ?thesis by simp
qed

lemma co_await_descends:
  assumes "co_await t p q k fs s = Next (s', st, new)" "running s p"
  shows "frame_descends (Run (Coroutine p) (CoAwait q k)) fs s s' st new"
  using co_await_load [OF assms]
proof (elim disjE exE conjE)
  fix x assume "st = Run (Coroutine p) (k x) # fs" "s' = s" "new = []"
  then show ?thesis using tok_below [of "k x" "CoAwait q k" True]
    by (auto intro!: descends_one [of _ _ "{#tok (k x)#}"])
next
  assume "st = Suspend p q # fs" "new = []" "load s' = load s + {#Body (CoAwait q k) False#}"
  then show ?thesis
    by (auto intro!: descends_one [of _ _ "{#Body (CoAwait q k) False, Step 8#}"])
qed

lemma await_suspend_descends:
  assumes "await_suspend t p q fs s = Next (s', st, new)"
  shows "frame_descends (Suspend p q) fs s s' st new"
  using await_suspend_load [OF assms]
  by (elim conjE disjE)
    (auto intro!: descends_one [of "add_mset (Step 3) _" _ "{#Step 3#}"] descends_one [of "load s' + _" _ "{#Step 4#}"])

lemma resume_descends:
  assumes "resume t p fs s = Next (s', st, new)" "p < length (promises s)" "linked s"
  shows "frame_descends (Resume p) fs s s' st new"
proof -
  obtain m where m: "st = Run (Coroutine p) m # fs" "new = []"
    "load s' + {#tok m#} = load s \<or> (\<exists>q k x. m = k x \<and> load s' + {#Body (CoAwait q k) False#} = load s)"
    using resume_load [OF assms] by blast
  from m(3) show ?thesis
  proof (elim disjE exE conjE)
    assume "load s' + {#tok m#} = load s"
    then have "load s = add_mset (tok m) (load s')" by simp
    then show ?thesis by (simp add: m(1,2) descends_one [of _ _ "{#}"])
  next
    fix q k x assume *: "m = k x" "load s' + {#Body (CoAwait q k) False#} = load s"
    have "descends (add_mset (tok m) (load s' + frames_load fs))
        (add_mset (Body (CoAwait q k) False) (add_mset (Step 3) (load s' + frames_load fs)))"
      using tok_below [of "k x" "CoAwait q k" False] by (intro descends_one [of _ _ "{#tok m#}"]) (auto simp: *(1))
    moreover have "load s = add_mset (Body (CoAwait q k) False) (load s')" using *(2) by simp
    ultimately show ?thesis by (simp add: m(1,2) add_mset_commute)
  qed
qed

lemma settle_descends:
  assumes "settle t r x fs s = Next (s', st, new)" "r < length (resolvers s)" "linked s"
  shows "frame_descends (Settle r x) fs s s' st new"
proof -
  obtain as where "st = Awaiters as # fs" "new = []" "load s' + awaiters_load as = load s"
    using settle_load [OF assms] by blast
  then show ?thesis by (auto intro!: descends_one [of _ _ "{#Step 1#}"])
qed

lemma final_suspend_descends:
  assumes "final_suspend p fs s = Next (s', st, new)"
  shows "frame_descends (FinalSuspend p) fs s s' st new"
  using final_suspend_load [OF assms]
  by (auto intro!: descends_one [of _ _ "{#Step 7, Step 2#}"])

lemma final_cleanup_descends:
  assumes "final_cleanup t p fs s = Next (s', st, new)" "p < length (promises s)"
  shows "frame_descends (FinalCleanup p) fs s s' st new"
proof -
  obtain as where "st = Awaiters as # fs \<or> st = fs \<and> as = []" "new = []" "load s' + awaiters_load as \<subseteq># load s"
    using final_cleanup_load [OF assms] by blast
  then show ?thesis
    by (elim disjE conjE) (simp add: descends_one [of _ _ "{#Step 1#}"] ac_simps, simp add: descends_one [of _ _ "{#}"])
qed

lemma exchange_descends:
  assumes "resolve_op r x s = Next (s', new, y)"
  shows "frame_descends (Exchange r x) fs s s' (new @ fs) []"
  using load_resolve_op [OF assms] by (auto intro!: descends_one [of _ _ "{#Step 6#}"])

lemma co_return_descends:
  assumes "co_return p x fs s = Next (s', st, new)" "tok m = Step 10"
  shows "frame_descends (Run c m) fs s s' st new"
  using co_return_load [OF assms(1)] assms(2) by (auto intro!: descends_one [of _ _ "{#Step 9#}"])

lemma awaiters_descends:
  "frame_descends (Awaiters []) fs s s fs []"
  "frame_descends (Awaiters (ACoroutine h # as)) fs s s (Resume h # Awaiters as # fs) []"
  "frame_descends (Awaiters (AFunction i g # as)) fs s s (Run Plain g # Awaiters as # fs) []"
proof -
  show "frame_descends (Awaiters []) fs s s fs []" by (simp add: descends_one [of _ _ "{#}"])
  have "descends (add_mset (Step 3) (add_mset (Step 1) (load s + (awaiters_load as + frames_load fs))))
      (add_mset (Step 4) (add_mset (Step 1) (load s + (awaiters_load as + frames_load fs))))"
    by (rule descends_one [of _ _ "{#Step 3#}"]) auto
  then show "frame_descends (Awaiters (ACoroutine h # as)) fs s s (Resume h # Awaiters as # fs) []"
    by (simp add: ac_simps add_mset_commute)
  have "descends (add_mset (tok g) (add_mset (Step 1) (load s + (awaiters_load as + frames_load fs))))
      (add_mset (Step 5) (add_mset (tok g) (add_mset (Step 1) (load s + (awaiters_load as + frames_load fs)))))"
    by (rule descends_one [of _ _ "{#}"]) auto
  then show "frame_descends (Awaiters (AFunction i g # as)) fs s s (Run Plain g # Awaiters as # fs) []"
    by (simp add: ac_simps add_mset_commute)
qed

lemma step_frame_descends:
  assumes st: "step_frame t f fs s = Next (s', st, new)" and ok: "linked s" "frame_ok s f"
  shows "frame_descends f fs s s' st new"
proof (cases "(t, f, fs, s)" rule: step_frame.cases)
  case (1 t' v fs' s1)
  then show ?thesis using st by (auto intro!: descends_one [of _ _ "{#}"])
next
  case (3 t' p v fs' s1)
  then show ?thesis using st co_return_descends [of p "Inr v" fs s s' st new "Return v"] by simp
next
  case (4 t' p e fs' s1)
  then show ?thesis using st co_return_descends [of p "Inl e" fs s s' st new "Throw e"] by simp
next
  case (6 t' p q k fs' s1)
  then show ?thesis using st ok(2) co_await_descends [of t p q k fs s s' st new] by simp
next
  case (7 t' c a k fs' s1)
  then obtain news x where "exec_op t a s = Next (s', news, x)" "st = news @ Run c (k x) # fs" "new = spawned a"
    using st by (auto simp: spawned_def)
  then show ?thesis using call_descends [of t a s s' news x c k fs] 7 by simp
next
  case (8 t' r x fs' s1)
  then show ?thesis using st exchange_descends [of r x s s' _ _ fs] by fastforce
next
  case (9 t' r x fs' s1)
  then show ?thesis using st ok settle_descends [of t r x fs s s' st new] by simp
next
  case (10 t' fs' s1)
  then show ?thesis using st awaiters_descends(1) by auto
next
  case (11 t' h as fs' s1)
  then show ?thesis using st awaiters_descends(2) [where h = h and as = as and fs = fs and s = s] by simp
next
  case (12 t' i g as fs' s1)
  then show ?thesis using st awaiters_descends(3) [where i = i and g = g and as = as and fs = fs and s = s] by simp
next
  case (13 t' p q fs' s1)
  then show ?thesis using st await_suspend_descends [of t p q fs s s' st new] by simp
next
  case (14 t' p fs' s1)
  then show ?thesis using st ok resume_descends [of t p fs s s' st new] by (simp add: ready_def)
next
  case (15 t' p fs' s1)
  then show ?thesis using st final_suspend_descends [of p fs s s' st new] by simp
next
  case (16 t' p fs' s1)
  then show ?thesis using st ok final_cleanup_descends [of t p fs s s' st new] by (simp add: running_def)
qed (use st in auto)

lemma sum_list_update_mset:
  fixes f :: "'a \<Rightarrow> 'b multiset"
  assumes "i < length xs"
  shows "sum_list (map f (xs[i := y])) = sum_list (map f (take i xs @ drop (Suc i) xs)) + f y"
  using sum_list_split_nth [of i "xs[i := y]" f] assms by simp

lemma step_descends:
  assumes "step t m = Next m'" "machine_ok m"
  shows "descends (machine_load m') (machine_load m)"
proof -
  obtain f fs s' st new where f: "t < length (threads m)" "threads m ! t = f # fs"
    "step_frame t f fs (mem m) = Next (s', st, new)" "m' = \<lparr>mem = s', threads = (threads m)[t := st] @ new\<rparr>"
    using assms(1) by (auto simp: step_def split: if_splits list.splits)
  have "f \<in> set (threads m ! t)" "threads m ! t \<in> set (threads m)" using f(2) nth_mem [OF f(1)] by (metis list.set_intros(1), simp)
  then have "linked (mem m)" "frame_ok (mem m) f"
    using assms(2) by (auto simp: machine_ok_def store_ok_def)
  then have d: "frame_descends f fs (mem m) s' st new" using step_frame_descends [OF f(3)] by simp
  let ?rest = "threads_load (take t (threads m) @ drop (Suc t) (threads m))"
  have "machine_load m' = ?rest + (load s' + frames_load st + threads_load new)"
    using sum_list_update_mset [OF f(1), of frames_load st] by (simp add: machine_load_def f(4) ac_simps)
  moreover have "machine_load m = ?rest + (load (mem m) + frames_load (f # fs))"
    using sum_list_split_nth [OF f(1), of frames_load] by (simp add: machine_load_def f(2) ac_simps)
  ultimately show ?thesis using descends_add [OF d] by simp
qed

subsection \<open>Finite runs\<close>

lemma wf_steps: "wf {(m', m). reachable m \<and> (\<exists>t. step t m = Next m')}"
proof (rule wf_subset)
  show "wf (inv_image (mult below) machine_load)" by (intro wf_inv_image wf_mult wf_below)
  show "{(m', m). reachable m \<and> (\<exists>t. step t m = Next m')} \<subseteq> inv_image (mult below) machine_load"
    by (auto intro!: descends_mult intro: step_descends [OF _ reachable_machine_ok])
qed

text \<open>
  C14. Termination. No schedule runs for ever: threads, callbacks, continuations and coroutines that
  are finite trees of library calls, started on an empty heap, make only finitely many steps in all,
  whatever they register, resume, settle or spawn and however the scheduler interleaves them.
\<close>

theorem every_run_ends:
  "\<not> (\<exists>ms. ms 0 = init b gs \<and> (\<forall>i. \<exists>t. step t (ms i) = Next (ms (Suc i))))"
proof
  assume "\<exists>ms. ms 0 = init b gs \<and> (\<forall>i. \<exists>t. step t (ms i) = Next (ms (Suc i)))"
  then obtain ms where ms: "ms 0 = init b gs" "\<And>i. \<exists>t. step t (ms i) = Next (ms (Suc i))" by blast
  have "reachable (ms i)" for i
  proof (induction i)
    case 0
    show ?case unfolding ms(1) by (rule reachable_init)
  next
    case (Suc i)
    then show ?case using ms(2) [of i] reachable_step by blast
  qed
  then have "\<forall>i. (ms (Suc i), ms i) \<in> {(m', m). reachable m \<and> (\<exists>t. step t m = Next m')}" using ms(2) by auto
  then show False using wf_steps [unfolded wf_iff_no_infinite_down_chain] by blast
qed

text \<open>
  A machine at rest. From every reachable machine some schedule leads to one in which no
  thread can take a step any more: each is finished, blocked, or stopped by a fault.
\<close>

theorem comes_to_rest:
  assumes "reachable m"
  shows "\<exists>ts m'. run ts m = Next m' \<and> (\<forall>t. is_blocked (step t m') \<or> fault_of (step t m') \<noteq> None)"
  using wf_steps assms
proof (induction m rule: wf_induct_rule)
  case (less m)
  show ?case
  proof (cases "\<exists>t m1. step t m = Next m1")
    case True
    then obtain t m1 where m1: "step t m = Next m1" by blast
    then obtain ts m' where "run ts m1 = Next m'" "\<forall>t. is_blocked (step t m') \<or> fault_of (step t m') \<noteq> None"
      using less.IH [of m1] less.prems reachable_step [OF less.prems m1] by blast
    then show ?thesis using m1 by (intro exI [of _ "t # ts"] exI [of _ m']) auto
  next
    case False
    then have "is_blocked (step t m) \<or> fault_of (step t m) \<noteq> None" for t using Next_if by blast
    then show ?thesis by (intro exI [of _ "[]"] exI [of _ m]) simp
  qed
qed

theorem comes_to_rest_witness:
  "\<exists>ts m'. run ts (init () [callP (OCreate TInt) (\<lambda>_. Return VVoid)]) = Next m' \<and>
     (\<forall>t. is_blocked (step t m') \<or> fault_of (step t m') \<noteq> None)"
  by (rule comes_to_rest [OF reachable_init])

end
