(* ===== verification/Registration.thy ===== *)
theory Registration
  imports Safety
begin

text \<open>
  Registrations with a promise: the use count and the ids of the function awaiters
  (Promise::Await, Promise::UnAwait and Promise::Race in include/promise/details/Promise.inl). The
  count is a std::size\_t that wraps around; the id of an awaiter is the count after its
  registration. As long as a program has made fewer than $2^{64}$ steps no count has wrapped, the ids in
  a list are distinct, and UnAwait removes the awaiter that Await registered.
\<close>

subsection \<open>How a step changes the registrations\<close>

fun function_ids :: "'o awaiter list \<Rightarrow> 64 word list" where
  "function_ids [] = []"
| "function_ids (AFunction i g # as) = i # function_ids as"
| "function_ids (ACoroutine h # as) = function_ids as"

type_synonym 'o registration = "64 word \<times> 'o awaiter list"

definition regs :: "'o store \<Rightarrow> 'o registration list" where
  "regs s = map (\<lambda>x. (p_use_count x, p_awaiters x)) (promises s)"

inductive registers :: "'o registration \<Rightarrow> 'o registration \<Rightarrow> bool" where
  reg_same: "registers (n, as) (n, as)"
| reg_clear: "registers (n, as) (n, [])"
| reg_erase: "registers (n, as) (n, erase_first (is_function i) as)"
| reg_count: "registers (n, as) (n + 1, as)"
| reg_coroutine: "registers (n, as) (n + 1, as @ [ACoroutine h])"
| reg_function: "registers (n, as) (n + 1, as @ [AFunction (n + 1) g])"

definition all_register :: "'o registration list \<Rightarrow> 'o registration list \<Rightarrow> bool" where
  "all_register rs rs' \<longleftrightarrow> (\<exists>old new. rs' = old @ new \<and> list_all2 registers rs old \<and> (\<forall>x \<in> set new. x = (0, [])))"

lemma registers_refl [simp]: "registers x x"
  by (cases x) (simp add: reg_same)

lemma all_registerI: "list_all2 registers rs old \<Longrightarrow> \<forall>x \<in> set new. x = (0, []) \<Longrightarrow> all_register rs (old @ new)"
  unfolding all_register_def by blast

lemma all_register_new [simp]: "all_register rs rs" "all_register rs (rs @ [(0, [])])"
  using all_registerI [of rs rs "[]"] all_registerI [of rs rs "[(0, [])]"] by (simp_all add: list_all2_refl)

lemma all_register_upd:
  assumes "registers (rs ! p) (g (rs ! p))" "\<forall>x \<in> set new. x = (0, [])"
  shows "all_register rs (upd_nth p g rs @ new)"
proof -
  have "list_all2 registers rs (upd_nth p g rs)"
    using assms(1) by (auto simp: list_all2_conv_all_nth nth_upd_nth)
  then show ?thesis using assms(2) by (rule all_registerI)
qed

lemma regs_upd:
  assumes "\<And>x. (p_use_count (g x), p_awaiters (g x)) = h (p_use_count x, p_awaiters x)"
  shows "regs (upd_promise p g s) = upd_nth p h (regs s)"
proof (cases "p < length (promises s)")
  case True
  then show ?thesis using assms by (simp add: regs_def upd_nth_def map_update)
qed (simp add: regs_def upd_nth_def list_update_beyond)

lemma regs_same:
  "(\<And>x. p_use_count (g x) = p_use_count x) \<Longrightarrow> (\<And>x. p_awaiters (g x) = p_awaiters x) \<Longrightarrow> regs (upd_promise p g s) = regs s"
  by (simp add: regs_def map_upd_nth_same)

lemma regs_other [simp]:
  "regs (upd_resolver r h s) = regs s" "regs (upd_reject j h' s) = regs s" "regs (s\<lparr>objects := b\<rparr>) = regs s"
  "regs (lock_shared t p s) = regs s" "regs (unlock_shared t p s) = regs s"
  by (simp_all add: regs_same lock_shared_def unlock_shared_def) (simp_all add: regs_def)

lemma nth_regs: "p < length (promises s) \<Longrightarrow> regs s ! p = (p_use_count (promises s ! p), p_awaiters (promises s ! p))"
  by (simp add: regs_def)

lemma regs_Promise_Create: "Promise_Create T s = (p, r, j, s') \<Longrightarrow> regs s' = regs s @ [(0, [])]"
  by (auto simp: Promise_Create_eq regs_def new_promise_def)

lemma regs_CreateImpl: "CreateImpl T w b s = (p, r, j, s') \<Longrightarrow> regs s' = regs s @ [(0, [])]"
  by (auto simp: CreateImpl_eq regs_def new_promise_def)

lemma regs_resolve_op: "resolve_op r x s = Next (s', new, y) \<Longrightarrow> regs s' = regs s"
  by (auto simp: resolve_op_def exchange_resolved_def split: if_splits)

lemma regs_reject_op: "reject_op j e s = Next (s', new, y) \<Longrightarrow> regs s' = regs s"
  by (auto simp: reject_op_def exchange_rejected_def dest: regs_resolve_op split: if_splits)

lemma regs_Await_function:
  assumes "Await_function p f s = Next (i, s')"
  shows "i = fst (regs s ! p) + 1 \<or> \<not> p < length (promises s)"
    "regs s' = upd_nth p (\<lambda>(n, as). (i, as @ [AFunction i f])) (regs s)"
  using assms by (auto simp: Await_function_def Let_def nth_regs intro: regs_upd split: if_splits)

lemma regs_UnAwait:
  assumes "UnAwait p i s = (b, s')"
  shows "all_register (regs s) (regs s')"
proof -
  have "regs (upd_promise p (\<lambda>x. x\<lparr>p_awaiters := erase_first (is_function i) (p_awaiters x)\<rparr>) s) =
      upd_nth p (\<lambda>(n, as). (n, erase_first (is_function i) as)) (regs s)"
    by (rule regs_upd) simp
  moreover have "registers (regs s ! p) (case regs s ! p of (n, as) \<Rightarrow> (n, erase_first (is_function i) as))"
    by (cases "regs s ! p") (simp add: reg_erase)
  ultimately show ?thesis
    using assms all_register_upd [of "regs s" p _ "[]"] by (auto simp: UnAwait_def split: if_splits)
qed

lemma upd_nth_snoc_less: "p < length xs \<Longrightarrow> upd_nth p g (xs @ ys) = upd_nth p g xs @ ys"
  by (simp add: upd_nth_def list_update_append nth_append)

lemma regs_try_await:
  assumes "try_await t p f s = Next (s', new, y)" "p < length (promises s)"
  shows "all_register (regs s) (regs s')"
proof -
  consider "s' = s" | i where "Await_function p f s = Next (i, s')"
    using assms(1) by (auto simp: try_await_def with_unique_def ret_def Let_def split: if_splits)
  then show ?thesis
  proof cases
    case 2
    note a = regs_Await_function [OF 2]
    have "registers (regs s ! p) (case regs s ! p of (n, as) \<Rightarrow> (i, as @ [AFunction i f]))"
      using a(1) assms(2) by (cases "regs s ! p") (simp add: reg_function)
    then show ?thesis using all_register_upd [of "regs s" p _ "[]"] a(2) by simp
  qed simp
qed

lemma regs_try_await_new:
  assumes "try_await_new t p T f s = Next (s', new, y)" "p < length (promises s)"
  shows "all_register (regs s) (regs s')"
proof -
  obtain q r j s1 where c: "Promise_Create T s = (q, r, j, s1)" by (metis prod_cases4)
  consider "s' = s" | i where "Await_function p (f r j) s1 = Next (i, s')"
    using assms(1) c by (auto simp: try_await_new_def with_unique_def ret_def Let_def split: if_splits)
  then show ?thesis
  proof cases
    case 2
    note a = regs_Await_function [OF 2] and n = regs_Promise_Create [OF c]
    have p: "p < length (regs s)" "p < length (promises s1)"
      using assms(2) c by (auto simp: regs_def Promise_Create_eq)
    then have "registers (regs s ! p) (case regs s ! p of (n, as) \<Rightarrow> (i, as @ [AFunction i (f r j)]))"
      using a(1) by (cases "regs s ! p") (simp add: reg_function n nth_append)
    then show ?thesis using all_register_upd [of "regs s" p _ "[(0, [])]"] a(2) p(1) by (simp add: n upd_nth_snoc_less)
  qed simp
qed

lemma all_register_upd_promise:
  assumes "p < length (promises s)" "\<And>x. (p_use_count (g x), p_awaiters (g x)) = h (p_use_count x, p_awaiters x)"
    "\<And>n as. registers (n, as) (h (n, as))"
  shows "all_register (regs s) (regs (upd_promise p g s))"
  using all_register_upd [of "regs s" p h "[]"] assms regs_upd [of g h p s] by (cases "regs s ! p") simp

lemma exec_op_registers:
  assumes "exec_op t a s = Next (s', new, x)"
  shows "all_register (regs s) (regs s')"
proof (cases a)
  case (OCreate T)
  then show ?thesis using assms by (auto simp: ret_def split: prod.splits dest: regs_Promise_Create)
next
  case (OStart T w b)
  then show ?thesis using assms by (auto split: prod.splits dest: regs_CreateImpl)
next
  case (OTryAwait p f)
  then show ?thesis using assms regs_try_await [of t p f s s' new x] by (auto simp: valid_promise_def split: if_splits)
next
  case (OTryAwaitNew p T f)
  then show ?thesis using assms regs_try_await_new [of t p T f s s' new x] by (auto simp: valid_promise_def split: if_splits)
next
  case (OUnAwait p i)
  then show ?thesis using assms regs_UnAwait [of p i s]
    by (auto simp: valid_promise_def with_unique_def ret_def Let_def split: if_splits prod.splits)
next
  case (OResolve r v)
  then show ?thesis using assms regs_resolve_op [of r "Inr v" s s' new x] by simp
next
  case (OReject j e)
  then show ?thesis using assms regs_reject_op [of j e s s' new x] by simp
next
  case (OTouch p)
  then have "p < length (promises s)" "s' = upd_promise p (\<lambda>x. x\<lparr>p_use_count := p_use_count x + 1\<rparr>) s"
    using assms by (auto simp: valid_promise_def with_unique_def ret_def Let_def split: if_splits)
  then show ?thesis
    by (auto intro!: all_register_upd_promise [where h = "\<lambda>(n, as). (n + 1, as)"] reg_count)
next
  case (ODetach p)
  then show ?thesis using assms
    by (auto simp: valid_promise_def with_unique_def Detach_def ret_def Let_def regs_same split: if_splits)
qed (use assms in \<open>auto simp: valid_promise_def with_shared_def ret_def Let_def split: if_splits prod.splits\<close>)

lemma regs_OnResolved:
  assumes "OnResolved p s = (as, s')" "p < length (promises s)"
  shows "all_register (regs s) (regs s')"
  using assms by (auto simp: OnResolved_def split: if_splits
      intro!: all_register_upd_promise [where h = "\<lambda>(n, as). (n, [])"] reg_clear)

lemma regs_await_suspend:
  assumes "await_suspend t p q fs s = Next (s', st, new)" "q < length (promises s)"
  shows "all_register (regs s) (regs s')"
  using assms by (auto simp: await_suspend_def with_unique_def Await_coroutine_def Let_def split: if_splits
      intro!: all_register_upd_promise [where h = "\<lambda>(n, as). (n + 1, as @ [ACoroutine p])"] reg_coroutine)

lemma regs_settle:
  assumes "settle t r x fs s = Next (s', st, new)" "r < length (resolvers s)" "linked s"
  shows "all_register (regs s) (regs s')"
proof -
  obtain p where "r_promise (resolvers s ! r) = Some p" "p < length (promises s)"
    using assms(2,3) unfolding linked_def by blast
  then show ?thesis using assms(1) regs_OnResolved [of p "upd_resolver r (store_outcome x) s"]
    by (auto simp: settle_def with_unique_def Let_def split: if_splits prod.splits)
qed

lemma regs_final_cleanup:
  assumes "final_cleanup t p fs s = Next (s', st, new)" "p < length (promises s)"
  shows "all_register (regs s) (regs s')"
proof -
  let ?s = "upd_promise p (\<lambda>y. y\<lparr>p_handle := NoHandle, p_function := False\<rparr>) s"
  have "regs ?s = regs s" by (simp add: regs_same)
  then show ?thesis using assms regs_OnResolved [of p ?s]
    by (auto simp: final_cleanup_def with_unique_def Let_def split: if_splits prod.splits)
qed

lemma step_frame_registers:
  assumes st: "step_frame t f fs s = Next (s', st, new)" and ok: "linked s" "frame_ok s f"
  shows "all_register (regs s) (regs s')"
proof (cases "(t, f, fs, s)" rule: step_frame.cases)
  case (7 t' c a k fs' s1)
  then show ?thesis using st exec_op_registers by auto
next
  case (8 t' r x fs' s1)
  then show ?thesis using st regs_resolve_op by fastforce
next
  case (9 t' r x fs' s1)
  then show ?thesis using st ok regs_settle [of t r x fs s s' st new] by simp
next
  case (13 t' p q fs' s1)
  then show ?thesis using st ok regs_await_suspend [of t p q fs s s' st new] by (simp add: waiting_on_def)
next
  case (16 t' p fs' s1)
  then show ?thesis using st ok regs_final_cleanup [of t p fs s s' st new] by (simp add: running_def)
qed (use st in \<open>auto simp: co_return_def co_await_def resume_def final_suspend_def valid_promise_def
    with_shared_def Let_def regs_same split: if_splits option.splits coroutine.splits\<close>)

lemma step_registers:
  assumes "step t m = Next m'" "machine_ok m"
  shows "all_register (regs (mem m)) (regs (mem m'))"
proof -
  obtain f fs s' st new where f: "t < length (threads m)" "threads m ! t = f # fs"
    "step_frame t f fs (mem m) = Next (s', st, new)" "m' = \<lparr>mem = s', threads = (threads m)[t := st] @ new\<rparr>"
    using assms(1) by (auto simp: step_def split: if_splits list.splits)
  have "linked (mem m)" "frame_ok (mem m) f"
    using machine_ok_D(3) [OF assms(2)] machine_ok_D(4) [OF assms(2) f(1)] f(2) by auto
  then show ?thesis using step_frame_registers [OF f(3)] f(4) by simp
qed

subsection \<open>Counts and ids\<close>

fun ids_ok :: "nat \<Rightarrow> 'o registration \<Rightarrow> bool" where
  "ids_ok n (c, as) \<longleftrightarrow> unat c \<le> n \<and> distinct (function_ids as) \<and> (\<forall>i \<in> set (function_ids as). 0 < i \<and> i \<le> c)"

lemma function_ids_append [simp]: "function_ids (as @ bs) = function_ids as @ function_ids bs"
  by (induction as rule: function_ids.induct) auto

lemma function_ids_erase:
  "set (function_ids (erase_first P as)) \<subseteq> set (function_ids as)"
  "distinct (function_ids as) \<Longrightarrow> distinct (function_ids (erase_first P as))"
proof -
  show sub: "set (function_ids (erase_first P as)) \<subseteq> set (function_ids as)" for as
    by (induction as rule: function_ids.induct) auto
  show "distinct (function_ids as) \<Longrightarrow> distinct (function_ids (erase_first P as))"
    by (induction as rule: function_ids.induct) (use sub in auto)
qed

lemma unat_Suc_64: "unat (c :: 64 word) < 2 ^ 64 - 1 \<Longrightarrow> unat (c + 1) = unat c + 1"
  using unat_word_ariths(1) [of c 1] by simp

lemma ids_ok_step:
  assumes "registers x y" "ids_ok n x" "Suc n < 2 ^ 64"
  shows "ids_ok (Suc n) y"
  using assms
proof (induction rule: registers.induct)
  case (reg_erase c as i)
  then show ?case using function_ids_erase [where P = "is_function i" and as = as] by auto
next
  case (reg_function c as g)
  then have c: "unat (c + 1) = unat c + 1" by (intro unat_Suc_64) simp
  then have "\<And>i. i \<le> c \<Longrightarrow> i < c + 1" by (simp add: word_less_nat_alt word_le_nat_alt)
  then show ?case using reg_function c by (auto simp: word_less_nat_alt word_le_nat_alt)
next
  case (reg_count c as)
  then have "unat (c + 1) = unat c + 1" by (intro unat_Suc_64) simp
  then show ?case using reg_count by (auto simp: word_less_nat_alt word_le_nat_alt)
next
  case (reg_coroutine c as h)
  then have "unat (c + 1) = unat c + 1" by (intro unat_Suc_64) simp
  then show ?case using reg_coroutine by (auto simp: word_less_nat_alt word_le_nat_alt)
qed auto

lemma all_ids_ok_step:
  assumes "all_register rs rs'" "\<forall>x \<in> set rs. ids_ok n x" "Suc n < 2 ^ 64"
  shows "\<forall>x \<in> set rs'. ids_ok (Suc n) x"
proof -
  obtain old new where r: "rs' = old @ new" "list_all2 registers rs old" "\<forall>x \<in> set new. x = (0, [])"
    using assms(1) by (auto simp: all_register_def)
  have "ids_ok (Suc n) x" if x: "x \<in> set old" for x
  proof -
    obtain i where "i < length old" "x = old ! i" using x by (auto simp: in_set_conv_nth)
    moreover from this have "registers (rs ! i) x" "rs ! i \<in> set rs" using r(2) by (auto simp: list_all2_conv_all_nth)
    ultimately show ?thesis using ids_ok_step assms(2,3) by blast
  qed
  then show ?thesis using r(1,3) by auto
qed

lemma run_ids_ok:
  assumes "run ts m = Next m'" "reachable m" "\<forall>x \<in> set (regs (mem m)). ids_ok n x" "n + length ts < 2 ^ 64"
  shows "reachable m' \<and> (\<forall>x \<in> set (regs (mem m')). ids_ok (n + length ts) x)"
  using assms
proof (induction ts arbitrary: m n)
  case (Cons t ts)
  then obtain m1 where m1: "step t m = Next m1" "run ts m1 = Next m'" by auto
  have "all_register (regs (mem m)) (regs (mem m1))"
    using step_registers [OF m1(1) reachable_machine_ok [OF Cons.prems(2)]] .
  then have "\<forall>x \<in> set (regs (mem m1)). ids_ok (Suc n) x"
    using all_ids_ok_step Cons.prems(3,4) by fastforce
  then show ?case using Cons.IH [OF m1(2) reachable_step [OF Cons.prems(2) m1(1)], of "Suc n"] Cons.prems(4) by simp
qed simp

lemma init_ids_ok:
  assumes "run ts (init b gs) = Next m" "length ts < 2 ^ 64" "p < length (promises (mem m))"
  shows "ids_ok (length ts) (p_use_count (promises (mem m) ! p), p_awaiters (promises (mem m) ! p))"
proof -
  have "regs (mem (init b gs)) = []" by (simp add: init_def empty_store_def regs_def)
  then have "\<forall>x \<in> set (regs (mem m)). ids_ok (length ts) x"
    using run_ids_ok [OF assms(1) reachable_init, of 0] assms(2) by simp
  moreover have "regs (mem m) ! p \<in> set (regs (mem m))" using assms(3) by (simp add: regs_def)
  ultimately show ?thesis using nth_regs [OF assms(3)] by metis
qed

text \<open>
  C27. Bounds. In the first $2^{64} - 1$ steps of any program no use count wraps around: it is at
  most the number of steps, the ids of the functions registered with a promise are pairwise
  distinct, and they lie between 1 and the use count.
\<close>

theorem registration_ids_distinct:
  assumes "run ts (init b gs) = Next m" "length ts < 2 ^ 64" "p < length (promises (mem m))"
  shows "unat (p_use_count (promises (mem m) ! p)) \<le> length ts \<and>
    distinct (function_ids (p_awaiters (promises (mem m) ! p))) \<and>
    (\<forall>i \<in> set (function_ids (p_awaiters (promises (mem m) ! p))). 0 < i \<and> i \<le> p_use_count (promises (mem m) ! p))"
  using init_ids_ok [OF assms] by simp

lemma is_function_ids: "(\<exists>a \<in> set as. is_function i a) \<longleftrightarrow> i \<in> set (function_ids as)"
  by (induction as rule: function_ids.induct) auto

lemma erase_first_none: "i \<notin> set (function_ids as) \<Longrightarrow> erase_first (is_function i) (as @ bs) = as @ erase_first (is_function i) bs"
  by (induction as rule: function_ids.induct) auto

text \<open>
  C28. Round trip. A function registered with Await is removed by UnAwait with the id that Await
  returned: the awaiters are what they were before, in the same order, and only the use count
  tells that there was a registration; a second UnAwait finds nothing.
\<close>

theorem Await_UnAwait_roundtrip:
  assumes "run ts (init b gs) = Next m" "length ts < 2 ^ 64 - 1" "p < length (promises (mem m))"
    "Await_function p f (mem m) = Next (i, s1)"
  shows "UnAwait p i s1 = (True, upd_promise p (\<lambda>x. x\<lparr>p_use_count := i\<rparr>) (mem m)) \<and>
    (\<forall>s2. UnAwait p i s1 = (True, s2) \<longrightarrow> UnAwait p i s2 = (False, s2))"
proof -
  let ?x = "promises (mem m) ! p"
  have ok: "ids_ok (length ts) (p_use_count ?x, p_awaiters ?x)" using init_ids_ok [OF assms(1) _ assms(3)] assms(2) by simp
  have i: "i = p_use_count ?x + 1"
    and s1: "s1 = upd_promise p (\<lambda>x. x\<lparr>p_use_count := i, p_awaiters := p_awaiters x @ [AFunction i f]\<rparr>) (mem m)"
    using assms(4) by (auto simp: Await_function_def Let_def split: if_splits)
  have "unat i = unat (p_use_count ?x) + 1" unfolding i using ok assms(2) by (intro unat_Suc_64) simp
  then have new: "i \<notin> set (function_ids (p_awaiters ?x))" using ok by (auto simp: word_le_nat_alt)
  have "upd_promise p (\<lambda>x. x\<lparr>p_awaiters := erase_first (is_function i) (p_awaiters x)\<rparr>) s1 =
      upd_promise p (\<lambda>x. x\<lparr>p_use_count := i\<rparr>) (mem m)"
    using assms(3) erase_first_none [OF new, of "[AFunction i f]"] by (simp add: s1 upd_promise_def upd_nth_def)
  then have "UnAwait p i s1 = (True, upd_promise p (\<lambda>x. x\<lparr>p_use_count := i\<rparr>) (mem m))"
    using assms(3) by (simp add: UnAwait_def s1)
  moreover have "UnAwait p i (upd_promise p (\<lambda>x. x\<lparr>p_use_count := i\<rparr>) (mem m)) =
      (False, upd_promise p (\<lambda>x. x\<lparr>p_use_count := i\<rparr>) (mem m))"
    using assms(3) new is_function_ids [of "p_awaiters ?x" i] by (auto simp: UnAwait_def)
  ultimately show ?thesis by simp
qed

subsection \<open>A promise with two registrations\<close>

definition registering :: "unit prog" where
  "registering = callP (OCreate TInt) (\<lambda>h. with_handles h (\<lambda>p r j.
     callP (OTryAwait p (Return VVoid)) (\<lambda>_. callP (OTryAwait p (Return VVoid)) (\<lambda>_. Return VVoid))))"

definition registered :: "unit machine" where
  "registered = after (init () [registering]) [0, 0, 0]"

lemma registered_run: "run [0, 0, 0] (init () [registering]) = Next registered"
proof -
  have "\<not> is_blocked (run [0, 0, 0] (init () [registering]))" "fault_of (run [0, 0, 0] (init () [registering])) = None"
    by code_simp+
  then obtain m where "run [0, 0, 0] (init () [registering]) = Next m" using Next_if by blast
  then show ?thesis unfolding registered_def after_def by (simp only: result.case)
qed

theorem registration_ids_distinct_witness:
  "unat (p_use_count (promises (mem registered) ! 0)) \<le> 3 \<and>
    distinct (function_ids (p_awaiters (promises (mem registered) ! 0))) \<and>
    function_ids (p_awaiters (promises (mem registered) ! 0)) = [1, 2]"
proof -
  have "0 < length (promises (mem registered))"
    "function_ids (p_awaiters (promises (mem registered) ! 0)) = [1, 2]" by code_simp+
  with registration_ids_distinct [OF registered_run, of 0] show ?thesis by simp
qed

theorem Await_UnAwait_roundtrip_witness:
  "\<exists>i s1. Await_function 0 (Return VVoid) (mem registered) = Next (i, s1) \<and>
     UnAwait 0 i s1 = (True, upd_promise 0 (\<lambda>x. x\<lparr>p_use_count := i\<rparr>) (mem registered))"
proof -
  have p: "0 < length (promises (mem registered))" by code_simp
  have "\<not> is_blocked (Await_function 0 (Return VVoid) (mem registered))"
    "fault_of (Await_function 0 (Return VVoid) (mem registered)) = None" by code_simp+
  then obtain i s1 where "Await_function 0 (Return VVoid) (mem registered) = Next (i, s1)"
    by (metis Next_if surj_pair)
  with Await_UnAwait_roundtrip [OF registered_run _ p] show ?thesis by auto
qed

end
