(* ===== verification/Chain.thy ===== *)
theory Chain
  imports Guarantees
begin

text \<open>
  The chaining functions of \<^verbatim>\<open>details::Promise\<close> (include/promise/details/Promise.inl) and the
  functions that build promises (\<^verbatim>\<open>MakePromise\<close>, \<^verbatim>\<open>All\<close>, \<^verbatim>\<open>Race\<close> of
  include/promise/details/helpers.inl) as programs over the atomic operations. A definition keeps
  the branches of the source: whether the promise is settled when the function is called, whether
  it has an exception, whether its type is void, and whether the callback is a promise function.
\<close>

subsection \<open>Promises that are settled from the start\<close>

definition Promise_Resolve :: "cty \<Rightarrow> val \<Rightarrow> 'o prog" where
  "Promise_Resolve T v =
     callP (OCreate T) (\<lambda>h. with_handles h (\<lambda>p r j. callP (OResolve r v) (\<lambda>_. Return (VPromise p))))"

definition Promise_Reject :: "cty \<Rightarrow> exc \<Rightarrow> 'o prog" where
  "Promise_Reject T e =
     callP (OCreate T) (\<lambda>h. with_handles h (\<lambda>p r j. callP (OReject j e) (\<lambda>_. Return (VPromise p))))"

subsection \<open>Making promises from callables\<close>

text \<open>The handles a callable asks for in its first parameters.\<close>

definition resolver_args :: "cty \<Rightarrow> rid \<Rightarrow> jid \<Rightarrow> val list" where
  "resolver_args t r j =
     (case all_args_t t of
        Some (a # b # as) \<Rightarrow>
          if IS_RESOLVER a \<and> IS_REJECTOR b then [VResolve r, VReject j]
          else if IS_RESOLVER a then [VResolve r] else []
      | Some [a] \<Rightarrow> if IS_RESOLVER a then [VResolve r] else []
      | _ \<Rightarrow> [])"

text \<open>
  \<^verbatim>\<open>resolve(m)\<close> inside a \<^verbatim>\<open>try\<close> block whose handler rejects: what the continuations do with
  the result of a callback.
\<close>

definition settle_with :: "rid \<Rightarrow> jid \<Rightarrow> (val \<Rightarrow> val) \<Rightarrow> 'o prog \<Rightarrow> 'o prog" where
  "settle_with r j f m =
     bindP m (\<lambda>x. case x of
         Inr v \<Rightarrow> callP (OResolve r (f v)) (\<lambda>_. Return VVoid)
       | Inl e \<Rightarrow> callP (OReject j e) (\<lambda>_. Return VVoid))"

text \<open>The coroutine overload: Promise<T, W>::Create<false>.\<close>

definition MakeCoroutine_promise :: "'o fn \<Rightarrow> val list \<Rightarrow> 'o prog" where
  "MakeCoroutine_promise f args =
     (let R = return_or_void_t (fn_type f) in
      callP (OStart (return_or_void_t R) (WithResolver R)
               (\<lambda>r j. fn_body f (resolver_args (fn_type f) r j @ args)))
        (\<lambda>h. with_handles h (\<lambda>p r j. Return (VPromise p))))"

text \<open>The overload for functions that return a plain value or take a resolver.\<close>

definition MakeDirect_promise :: "'o fn \<Rightarrow> val list \<Rightarrow> 'o prog" where
  "MakeDirect_promise f args =
     (case MakePromise_Return (fn_type f) of
        None \<Rightarrow> Return VVoid
      | Some T \<Rightarrow>
          callP (OCreate T) (\<lambda>h. with_handles h (\<lambda>p r j.
            let hs = resolver_args (fn_type f) r j in
            thenP (if hs = [] then settle_with r j id (fn_body f args)
                   else bindP (fn_body f (hs @ args)) (\<lambda>x. case x of
                          Inr v \<Rightarrow> Return VVoid
                        | Inl e \<Rightarrow> callP (OReject j e) (\<lambda>_. Return VVoid)))
              (\<lambda>_. Return (VPromise p)))))"

fun normalise :: "'o fn \<Rightarrow> 'o fn" where
  "normalise (Fn (TCallable r as) g) = Fn (TFunction r as) g"
| "normalise f = f"

definition MakePromise :: "'o fn \<Rightarrow> val list \<Rightarrow> 'o prog" where
  "MakePromise f args =
     (let f' = normalise f in
      case MakePromise_overload (fn_type f') of
        MakeCoroutine \<Rightarrow> MakeCoroutine_promise f' args
      | _ \<Rightarrow> MakeDirect_promise f' args)"

text \<open>MakeRPromise: the same with the handles.\<close>

definition MakeRPromise :: "'o fn \<Rightarrow> val list \<Rightarrow> 'o prog" where
  "MakeRPromise f args =
     (let f' = normalise f; R = return_or_void_t (fn_type f') in
      callP (OStart (return_or_void_t R) (WithResolver R)
               (\<lambda>r j. fn_body f' (resolver_args (fn_type f') r j @ args))) Return)"

text \<open>MakeReject: Reject::Apply, and an exception when the handle was used already.\<close>

definition MakeReject :: "bool \<Rightarrow> jid \<Rightarrow> exc \<Rightarrow> 'o prog" where
  "MakeReject RELAXED j e =
     callP (OReject j e) (\<lambda>b.
       if b = VBool True then Return (VBool True)
       else if RELAXED then Return (VBool False)
       else Throw (Exc ''promise::Exception'' ''Promise Already rejected !''))"

subsection \<open>Then with a plain callback\<close>

definition pass_value :: "cty \<Rightarrow> val \<Rightarrow> val list \<Rightarrow> val list" where
  "pass_value T v args = (if is_void T then args else v # args)"

definition then_settled :: "cty \<Rightarrow> cty \<Rightarrow> pid \<Rightarrow> 'o fn \<Rightarrow> val list \<Rightarrow> 'o prog" where
  "then_settled T T2 p f args =
     Call (OOutcome p) (\<lambda>x. case x of
         Inl e \<Rightarrow> Promise_Reject T2 e
       | Inr v \<Rightarrow> bindP (fn_body f (pass_value T v args)) (\<lambda>y. case y of
             Inr w \<Rightarrow> Promise_Resolve T2 w
           | Inl e \<Rightarrow> Promise_Reject T2 e))"

definition then_awaiter :: "cty \<Rightarrow> pid \<Rightarrow> 'o fn \<Rightarrow> val list \<Rightarrow> rid \<Rightarrow> jid \<Rightarrow> 'o prog" where
  "then_awaiter T p f args r j =
     Call (OOutcome p) (\<lambda>x. case x of
         Inl e \<Rightarrow> callP (OReject j e) (\<lambda>_. Return VVoid)
       | Inr v \<Rightarrow> settle_with r j id (fn_body f (pass_value T v args)))"

definition ThenPlain :: "cty \<Rightarrow> pid \<Rightarrow> 'o fn \<Rightarrow> val list \<Rightarrow> 'o prog" where
  "ThenPlain T p f args =
     (let T2 = return_or_void_t (fn_type f) in
      callP (OTryAwaitNew p T2 (then_awaiter T p f args)) (\<lambda>w. case w of
          VPromise q \<Rightarrow> Return (VPromise q)
        | _ \<Rightarrow> then_settled T T2 p f args))"

text \<open>The overloads on an rvalue handle detach the promise once the callback is registered.\<close>

definition detaching :: "pid \<Rightarrow> 'o prog \<Rightarrow> 'o prog" where
  "detaching p m = bindP m (\<lambda>x. callP (ODetach p) (\<lambda>_. finish x))"

subsection \<open>Catch with a plain handler\<close>

definition catch_type :: "cty \<Rightarrow> cty \<Rightarrow> cty" where
  "catch_type T T2 = wpromise_value (CatchReturn2 T T2)"

definition catch_value :: "cty \<Rightarrow> cty \<Rightarrow> val \<Rightarrow> val" where
  "catch_value T T2 v =
     (if is_void T then (if is_void T2 then VVoid else VNullopt) else conv T (catch_type T T2) v)"

definition catch_result :: "cty \<Rightarrow> cty \<Rightarrow> val \<Rightarrow> val" where
  "catch_result T T2 v =
     (if is_void T2 then (if is_void T then VVoid else VNullopt) else conv T2 (catch_type T T2) v)"

text \<open>
  Whether the handler's parameter catches the exception: an \<^verbatim>\<open>std::exception_ptr\<close> takes any,
  a class takes the exceptions of that class and of the classes that derive from it. The class
  hierarchy is the caller's: \<open>isa dynamic static\<close>.
\<close>

definition exception_param :: "cty \<Rightarrow> cty" where
  "exception_param t = (case args_t t of Some (a # as) \<Rightarrow> a | _ \<Rightarrow> TExceptionPtr)"

definition catches :: "(string \<Rightarrow> string \<Rightarrow> bool) \<Rightarrow> cty \<Rightarrow> exc \<Rightarrow> bool" where
  "catches isa t e =
     (case remove_cvref (exception_param t) of
        TExceptionPtr \<Rightarrow> True
      | TNamed n \<Rightarrow> isa (exc_type e) n
      | _ \<Rightarrow> False)"

definition apply_handler :: "(string \<Rightarrow> string \<Rightarrow> bool) \<Rightarrow> 'o fn \<Rightarrow> val list \<Rightarrow> exc \<Rightarrow> 'o prog" where
  "apply_handler isa f args e =
     (if catches isa (fn_type f) e then fn_body f (VExc e # args) else Throw e)"

definition catch_continuation ::
    "(string \<Rightarrow> string \<Rightarrow> bool) \<Rightarrow> cty \<Rightarrow> cty \<Rightarrow> pid \<Rightarrow> 'o fn \<Rightarrow> val list \<Rightarrow> rid \<Rightarrow> jid \<Rightarrow> 'o prog" where
  "catch_continuation isa T T2 p f args r j =
     Call (OOutcome p) (\<lambda>x. case x of
         Inl e \<Rightarrow> settle_with r j (catch_result T T2) (apply_handler isa f args e)
       | Inr v \<Rightarrow> callP (OResolve r (catch_value T T2 v)) (\<lambda>_. Return VVoid))"

definition CatchPlain ::
    "(string \<Rightarrow> string \<Rightarrow> bool) \<Rightarrow> cty \<Rightarrow> pid \<Rightarrow> 'o fn \<Rightarrow> val list \<Rightarrow> 'o prog" where
  "CatchPlain isa T p f args =
     (let T2 = return_or_void_t (fn_type f) in
      callP (OCreate (catch_type T T2)) (\<lambda>h. with_handles h (\<lambda>q r j.
        let k = catch_continuation isa T T2 p f args r j in
        callP (OTryAwait p k) (\<lambda>w. case w of
            VId i \<Rightarrow> Return (VPromise q)
          | _ \<Rightarrow> thenP k (\<lambda>_. Return (VPromise q))))))"

subsection \<open>Forwarding the outcome of one promise to another\<close>

text \<open>The lambdas the library registers on intermediate promises.\<close>

definition resolve_fn :: "cty \<Rightarrow> (val \<Rightarrow> val) \<Rightarrow> rid \<Rightarrow> 'o fn" where
  "resolve_fn T g r =
     Fn (TFunction TVoid (if is_void T then [] else [TCRef T]))
        (\<lambda>vs. callP (OResolve r (g (case vs of [] \<Rightarrow> VVoid | v # _ \<Rightarrow> v))) (\<lambda>_. Return VVoid))"

definition reject_fn :: "jid \<Rightarrow> 'o fn" where
  "reject_fn j =
     Fn (TFunction TVoid [TExceptionPtr])
        (\<lambda>vs. case vs of
            VExc e # _ \<Rightarrow> callP (OReject j e) (\<lambda>_. Return VVoid)
          | _ \<Rightarrow> Return VVoid)"

definition as_promise :: "val \<Rightarrow> (pid \<Rightarrow> 'o prog) \<Rightarrow> 'o prog" where
  "as_promise v f = (case v of VPromise p \<Rightarrow> f p | _ \<Rightarrow> Return VVoid)"

text \<open>
  \<^verbatim>\<open>std::move(promise).Then(resolve).Catch(reject).Detach()\<close>, the end of every continuation
  that starts another promise.
\<close>

definition forward :: "cty \<Rightarrow> (val \<Rightarrow> val) \<Rightarrow> rid \<Rightarrow> jid \<Rightarrow> val \<Rightarrow> 'o prog" where
  "forward T g r j v =
     as_promise v (\<lambda>q.
       thenP (detaching q (ThenPlain T q (resolve_fn T g r) [])) (\<lambda>w. as_promise w (\<lambda>q2.
         thenP (detaching q2 (CatchPlain (\<lambda>_ _. False) TVoid q2 (reject_fn j) [])) (\<lambda>u.
           as_promise u (\<lambda>q3. callP (ODetach q3) (\<lambda>_. Return VVoid))))))"

subsection \<open>Then\<close>

definition promise_value :: "'o fn \<Rightarrow> cty" where
  "promise_value f = return_or_void_t (return_or_void_t (fn_type f))"

definition ThenPromise :: "cty \<Rightarrow> pid \<Rightarrow> 'o fn \<Rightarrow> val list \<Rightarrow> 'o prog" where
  "ThenPromise T p f args =
     (let T2 = promise_value f;
          start = Call (OOutcome p) (\<lambda>x. case x of
              Inl e \<Rightarrow> Promise_Reject T2 e
            | Inr v \<Rightarrow> MakePromise f (pass_value T v args))
      in callP (OTryAwaitNew p T2 (\<lambda>r j. thenP start (forward T2 id r j))) (\<lambda>w. case w of
          VPromise q \<Rightarrow> Return (VPromise q)
        | _ \<Rightarrow>
            if is_void T then
              Call (OLockOutcome p) (\<lambda>x. case x of
                  Inl e \<Rightarrow> callP (OUnlockShared p) (\<lambda>_. Promise_Reject T2 e)
                | Inr v \<Rightarrow> bindP (MakePromise f args) (\<lambda>y. callP (OUnlockShared p) (\<lambda>_. finish y)))
            else start))"

definition Then :: "cty \<Rightarrow> pid \<Rightarrow> 'o fn \<Rightarrow> val list \<Rightarrow> 'o prog" where
  "Then T p f args =
     (if IS_PROMISE_FUNCTION (fn_type f) then ThenPromise T p f args else ThenPlain T p f args)"

subsection \<open>Catch\<close>

text \<open>
  A handler that is a promise function. When its parameter is a reference to an exception class,
  the exception is copied into a coroutine that awaits the handler's promise.
\<close>

definition handler_promise ::
    "(string \<Rightarrow> string \<Rightarrow> bool) \<Rightarrow> 'o fn \<Rightarrow> val list \<Rightarrow> exc \<Rightarrow> 'o prog" where
  "handler_promise isa f args e =
     (if remove_cvref (exception_param (fn_type f)) = TExceptionPtr then MakePromise f (VExc e # args)
      else if catches isa (fn_type f) e then
        (case exception_param (fn_type f) of
           TCRef t \<Rightarrow>
             MakePromise (Fn (TFunction (TIPromise (promise_value f) False) [])
               (\<lambda>_. thenP (MakePromise f (VExc e # args)) (\<lambda>v. as_promise v (\<lambda>q. CoAwait q finish)))) []
         | _ \<Rightarrow> MakePromise f (VExc e # args))
      else Throw e)"

definition catch_promise_continuation ::
    "(string \<Rightarrow> string \<Rightarrow> bool) \<Rightarrow> cty \<Rightarrow> cty \<Rightarrow> pid \<Rightarrow> 'o fn \<Rightarrow> val list \<Rightarrow> rid \<Rightarrow> jid \<Rightarrow> 'o prog" where
  "catch_promise_continuation isa T T2 p f args r j =
     Call (OOutcome p) (\<lambda>x. case x of
         Inl e \<Rightarrow>
           bindP (thenP (handler_promise isa f args e) (forward T2 (catch_result T T2) r j)) (\<lambda>y.
             case y of
               Inr v \<Rightarrow> Return VVoid
             | Inl e' \<Rightarrow> callP (OReject j e') (\<lambda>_. Return VVoid))
       | Inr v \<Rightarrow> callP (OResolve r (catch_value T T2 v)) (\<lambda>_. Return VVoid))"

definition CatchPromise ::
    "(string \<Rightarrow> string \<Rightarrow> bool) \<Rightarrow> cty \<Rightarrow> pid \<Rightarrow> 'o fn \<Rightarrow> val list \<Rightarrow> 'o prog" where
  "CatchPromise isa T p f args =
     (let T2 = promise_value f in
      callP (OCreate (catch_type T T2)) (\<lambda>h. with_handles h (\<lambda>q r j.
        let k = catch_promise_continuation isa T T2 p f args r j in
        callP (OTryAwait p k) (\<lambda>w. case w of
            VId i \<Rightarrow> Return (VPromise q)
          | _ \<Rightarrow> thenP k (\<lambda>_. Return (VPromise q))))))"

definition Catch ::
    "(string \<Rightarrow> string \<Rightarrow> bool) \<Rightarrow> cty \<Rightarrow> pid \<Rightarrow> 'o fn \<Rightarrow> val list \<Rightarrow> 'o prog" where
  "Catch isa T p f args =
     (if IS_PROMISE_FUNCTION (fn_type f) then CatchPromise isa T p f args
      else CatchPlain isa T p f args)"

subsection \<open>Finally\<close>

definition finally_value :: "cty \<Rightarrow> 'o fn \<Rightarrow> rid \<Rightarrow> jid \<Rightarrow> val \<Rightarrow> 'o prog" where
  "finally_value T f r j v =
     (if IS_PROMISE_FUNCTION (fn_type f)
      then thenP (MakePromise f []) (forward TVoid (\<lambda>_. v) r j)
      else settle_with r j (\<lambda>_. v) (fn_body f []))"

definition reject_with_fn :: "jid \<Rightarrow> exc \<Rightarrow> 'o fn" where
  "reject_with_fn j e = Fn (TFunction TVoid []) (\<lambda>_. callP (OReject j e) (\<lambda>_. Return VVoid))"

definition finally_exception :: "'o fn \<Rightarrow> jid \<Rightarrow> exc \<Rightarrow> 'o prog" where
  "finally_exception f j e =
     (if IS_PROMISE_FUNCTION (fn_type f)
      then thenP (MakePromise f []) (\<lambda>v. as_promise v (\<lambda>q.
             thenP (detaching q (ThenPlain TVoid q (reject_with_fn j e) [])) (\<lambda>w. as_promise w (\<lambda>q2.
               thenP (detaching q2 (CatchPlain (\<lambda>_ _. False) TVoid q2 (reject_fn j) [])) (\<lambda>u.
                 as_promise u (\<lambda>q3. callP (ODetach q3) (\<lambda>_. Return VVoid)))))))
      else bindP (fn_body f []) (\<lambda>y. callP (OReject j (case y of Inr _ \<Rightarrow> e | Inl e' \<Rightarrow> e'))
             (\<lambda>_. Return VVoid)))"

definition finally_awaiter :: "cty \<Rightarrow> pid \<Rightarrow> 'o fn \<Rightarrow> rid \<Rightarrow> jid \<Rightarrow> 'o prog" where
  "finally_awaiter T p f r j =
     Call (OOutcome p) (\<lambda>x. case x of
         Inl e \<Rightarrow> finally_exception f j e
       | Inr v \<Rightarrow> finally_value T f r j v)"

text \<open>On a settled void promise the callback runs under the shared lock of the promise.\<close>

definition finally_settled :: "cty \<Rightarrow> pid \<Rightarrow> 'o fn \<Rightarrow> rid \<Rightarrow> jid \<Rightarrow> 'o prog" where
  "finally_settled T p f r j =
     (if is_void T
      then Call (OLockOutcome p) (\<lambda>x. case x of
             Inl e \<Rightarrow> callP (OUnlockShared p) (\<lambda>_. finally_exception f j e)
           | Inr v \<Rightarrow> bindP (finally_value T f r j v) (\<lambda>y. callP (OUnlockShared p) (\<lambda>_. finish y)))
      else finally_awaiter T p f r j)"

definition Finally :: "cty \<Rightarrow> pid \<Rightarrow> 'o fn \<Rightarrow> 'o prog" where
  "Finally T p f =
     callP (OCreate T) (\<lambda>h. with_handles h (\<lambda>q r j.
       callP (OTryAwait p (finally_awaiter T p f r j)) (\<lambda>w. case w of
           VId i \<Rightarrow> Return (VPromise q)
         | _ \<Rightarrow> thenP (finally_settled T p f r j) (\<lambda>_. Return (VPromise q)))))"

subsection \<open>Race\<close>

definition race_handle :: "cty \<Rightarrow> cty \<Rightarrow> pid \<Rightarrow> rid \<Rightarrow> jid \<Rightarrow> 'o prog" where
  "race_handle T T2 p r j =
     Call (OOutcome p) (\<lambda>x. case x of
         Inl e \<Rightarrow> callP (OReject j e) (\<lambda>_. Return VVoid)
       | Inr v \<Rightarrow> callP (OResolve r (if is_void T2 then VVoid else if is_void T then VNullopt
                                    else conv T T2 v)) (\<lambda>_. Return VVoid))"

definition unawait_fn :: "pid \<Rightarrow> 64 word \<Rightarrow> 'o fn" where
  "unawait_fn p i = Fn (TFunction TVoid []) (\<lambda>_. callP (OUnAwait p i) (\<lambda>_. Return VVoid))"

definition Promise_Race :: "cty \<Rightarrow> pid \<Rightarrow> cty \<Rightarrow> pid \<Rightarrow> rid \<Rightarrow> jid \<Rightarrow> 'o prog" where
  "Promise_Race T p T2 race r j =
     callP (OIsDone race) (\<lambda>d.
       if d = VBool True then callP (OTouch p) (\<lambda>_. Return (VPromise race))
       else callP (OTryAwait p (race_handle T T2 p r j)) (\<lambda>w. case w of
           VId i \<Rightarrow> detaching race (Finally T2 race (unawait_fn p i))
         | _ \<Rightarrow> thenP (race_handle T T2 p r j) (\<lambda>_. Return (VPromise race))))"

text \<open>The fold over the pack of promises, each moved into the race.\<close>

fun race_fold :: "cty \<Rightarrow> rid \<Rightarrow> jid \<Rightarrow> (cty \<times> pid) list \<Rightarrow> pid \<Rightarrow> 'o prog" where
  "race_fold T2 r j [] race = Return (VPromise race)"
| "race_fold T2 r j ((T, p) # ps) race =
     thenP (detaching p (Promise_Race T p T2 race r j)) (\<lambda>v. as_promise v (race_fold T2 r j ps))"

definition Race :: "(cty \<times> pid) list \<Rightarrow> 'o prog" where
  "Race ps =
     (case RaceReturn (map fst ps) of
        None \<Rightarrow> Return VVoid  \<comment> \<open>rejected by a static assertion\<close>
      | Some T2 \<Rightarrow>
          callP (OCreate T2) (\<lambda>h. with_handles h (\<lambda>race r j. race_fold T2 r j ps race)))"

subsection \<open>All\<close>

text \<open>A container of promises: the coroutine awaits them in order.\<close>

fun all_loop :: "cty \<Rightarrow> pid list \<Rightarrow> val list \<Rightarrow> 'o prog" where
  "all_loop T [] vs = Return (if is_void T then VVoid else VVector vs)"
| "all_loop T (p # ps) vs =
     CoAwait p (\<lambda>x. case x of Inl e \<Rightarrow> Throw e | Inr v \<Rightarrow> all_loop T ps (vs @ [v]))"

definition All_container :: "cty \<Rightarrow> pid list \<Rightarrow> 'o prog" where
  "All_container T ps =
     MakePromise (Fn (TFunction (TIPromise (all_container_return T) False) []) (\<lambda>_. all_loop T ps [])) []"

text \<open>
  A pack of promises: each is chained to a callback that wraps its value in a tuple (an empty one
  for a void promise) and the tuples are concatenated.
\<close>

definition wrap_fn :: "cty \<Rightarrow> 'o fn" where
  "wrap_fn T =
     Fn (TFunction (TTuple (if is_void T then [] else [T])) (if is_void T then [] else [TCRef T]))
        (\<lambda>vs. Return (VTuple vs))"

definition tuple_of :: "val \<Rightarrow> val list" where
  "tuple_of v = (case v of VTuple vs \<Rightarrow> vs | _ \<Rightarrow> [])"

fun all_pack_loop :: "(cty \<times> pid) list \<Rightarrow> val list \<Rightarrow> 'o prog" where
  "all_pack_loop [] vs = Return (VTuple vs)"
| "all_pack_loop ((T, p) # ps) vs =
     thenP (detaching p (ThenPlain T p (wrap_fn T) [])) (\<lambda>w. as_promise w (\<lambda>q.
       CoAwait q (\<lambda>x. case x of
           Inl e \<Rightarrow> Throw e
         | Inr v \<Rightarrow> all_pack_loop ps (vs @ tuple_of v))))"

definition All :: "(cty \<times> pid) list \<Rightarrow> 'o prog" where
  "All ps =
     MakePromise (Fn (TFunction (TIPromise (all_return (map fst ps)) False) [])
       (\<lambda>_. all_pack_loop ps [])) []"

end

