(* ===== verification/Laws.thy ===== *)
theory Laws
  imports Chain
begin

text \<open>
  What the chaining functions compute. \<open>solo\<close> runs one thread alone; \<open>open_at\<close> and \<open>closed_at\<close>
  describe a pending and a settled promise with everything that reading, settling and chaining it
  depends on. The operations have rules over these two descriptions, and the laws of the chaining
  functions are obtained by composing the rules.
\<close>

subsection \<open>One thread alone\<close>

inductive solo :: "tid \<Rightarrow> 'o store \<Rightarrow> 'o frame list \<Rightarrow> 'o store \<Rightarrow> 'o frame list \<Rightarrow> bool" for t where
  solo_refl: "solo t s fs s fs"
| solo_step: "step_frame t f fs s = Next (s', st, []) \<Longrightarrow> solo t s' st s'' st'' \<Longrightarrow>
     solo t s (f # fs) s'' st''"

lemma solo_trans [trans]: "solo t s fs s' fs' \<Longrightarrow> solo t s' fs' s'' fs'' \<Longrightarrow> solo t s fs s'' fs''"
  by (induction rule: solo.induct) (auto intro: solo_step)

lemma solo_one: "step_frame t f fs s = Next (s', st, []) \<Longrightarrow> solo t s (f # fs) s' st"
  by (auto intro: solo_step solo_refl)

definition spawns :: "'o op \<Rightarrow> bool" where
  "spawns a \<longleftrightarrow> (case a of OSpawn g \<Rightarrow> True | _ \<Rightarrow> False)"

lemma solo_call:
  "exec_op t a s = Next (s', new, x) \<Longrightarrow> \<not> spawns a \<Longrightarrow>
     solo t s (Run c (Call a k) # fs) s' (new @ Run c (k x) # fs)"
  by (intro solo_one) (auto simp: spawns_def split: op.splits)

lemma spawns_simps [simp]:
  "\<not> spawns (OCreate T)" "\<not> spawns (OStart T w b)" "\<not> spawns (OResolve r v)" "\<not> spawns (OReject j e)"
  "\<not> spawns (OTryAwait p f)" "\<not> spawns (OTryAwaitNew p T f2)" "\<not> spawns (OOutcome p)"
  "\<not> spawns (OIsDone p)" "\<not> spawns (ODetach p)" "\<not> spawns (OTouch p)" "\<not> spawns (OUnAwait p i)"
  "\<not> spawns (OLockOutcome p)" "\<not> spawns (OUnlockShared p)" "\<not> spawns (OLockShared p)"
  "\<not> spawns (OAtomic h)" "\<not> spawns (OAssert ok n)" "\<not> spawns (OIsResolved p)" "\<not> spawns (OIsRejected p)"
  "\<not> spawns (OUseCount p)" "\<not> spawns (OWaitDone p)" "\<not> spawns (OWaitAwaited p i)" "\<not> spawns (OAwaiters p)"
  by (simp_all add: spawns_def)

text \<open>A solo run is a run of the machine in which only that thread moves.\<close>

lemma solo_steps:
  assumes "solo t s fs s' fs'" "t < length ths" "ths ! t = fs"
  shows "steps \<lparr>mem = s, threads = ths\<rparr> \<lparr>mem = s', threads = ths[t := fs']\<rparr>"
  using assms
proof (induction arbitrary: ths rule: solo.induct)
  case (solo_refl s fs)
  then show ?case using list_update_id [of ths t] steps.steps_refl by metis
next
  case (solo_step f fs s s' st s'' st'')
  have one: "step t \<lparr>mem = s, threads = ths\<rparr> = Next \<lparr>mem = s', threads = ths[t := st]\<rparr>"
    using solo_step by (simp add: step_def)
  have "steps \<lparr>mem = s', threads = ths[t := st]\<rparr> \<lparr>mem = s'', threads = ths[t := st, t := st'']\<rparr>"
    using solo_step by (intro solo_step.IH) auto
  moreover have "steps a c" if "step t a = Next b" "steps b c" for a b c :: "'a machine"
    using that(2,1) by (induction rule: steps.induct) (auto intro: steps.intros)
  ultimately show ?case using one by fastforce
qed

subsection \<open>Pending and settled promises\<close>

definition open_at :: "'o store \<Rightarrow> pid \<Rightarrow> rid \<Rightarrow> jid \<Rightarrow> cty \<Rightarrow> 'o awaiter list \<Rightarrow> bool" where
  "open_at s p r j T as \<longleftrightarrow>
     p < length (promises s) \<and> r < length (resolvers s) \<and> j < length (rejects s) \<and>
     p_type (promises s ! p) = T \<and> p_handle (promises s ! p) = NoHandle \<and>
     p_with_resolver (promises s ! p) \<and>
     p_resolver (promises s ! p) = Some r \<and> p_awaiters (promises s ! p) = as \<and>
     p_readers (promises s ! p) = [] \<and>
     r_type (resolvers s ! r) = T \<and> r_promise (resolvers s ! r) = Some p \<and>
     r_value (resolvers s ! r) = None \<and> r_exception (resolvers s ! r) = None \<and>
     \<not> r_resolved (resolvers s ! r) \<and>
     j_resolver (rejects s ! j) = r \<and> \<not> j_rejected (rejects s ! j)"

text \<open>A settled promise that the threads \<open>rs\<close> hold in shared mode.\<close>

definition held_at :: "'o store \<Rightarrow> pid \<Rightarrow> cty \<Rightarrow> outcome \<Rightarrow> tid list \<Rightarrow> bool" where
  "held_at s p T x rs \<longleftrightarrow>
     p < length (promises s) \<and> p_type (promises s ! p) = T \<and> p_readers (promises s ! p) = rs \<and>
     (\<exists>r. p_resolver (promises s ! p) = Some r \<and> r < length (resolvers s) \<and>
        r_promise (resolvers s ! r) = Some p \<and>
        (case x of
           Inl e \<Rightarrow> r_exception (resolvers s ! r) = Some e
         | Inr v \<Rightarrow> r_exception (resolvers s ! r) = None \<and> r_value (resolvers s ! r) = Some v \<and>
             (is_void T \<longrightarrow> v = VVoid)))"

abbreviation closed_at :: "'o store \<Rightarrow> pid \<Rightarrow> cty \<Rightarrow> outcome \<Rightarrow> bool" where
  "closed_at s p T x \<equiv> held_at s p T x []"

text \<open>The promise of a value-returning coroutine whose handle is \<open>h\<close>, and while its body runs.\<close>

definition coro_with :: "'o store \<Rightarrow> pid \<Rightarrow> rid \<Rightarrow> cty \<Rightarrow> 'o coroutine \<Rightarrow> 'o awaiter list \<Rightarrow> bool" where
  "coro_with s p r T h as \<longleftrightarrow>
     p < length (promises s) \<and> r < length (resolvers s) \<and>
     p_type (promises s ! p) = T \<and> \<not> p_with_resolver (promises s ! p) \<and>
     p_handle (promises s ! p) = h \<and> p_delayed_return (promises s ! p) = None \<and>
     p_resolver (promises s ! p) = Some r \<and> p_awaiters (promises s ! p) = as \<and>
     p_readers (promises s ! p) = [] \<and>
     r_type (resolvers s ! r) = T \<and> r_promise (resolvers s ! r) = Some p \<and>
     r_value (resolvers s ! r) = None \<and> r_exception (resolvers s ! r) = None \<and>
     \<not> r_resolved (resolvers s ! r)"

abbreviation coro_at :: "'o store \<Rightarrow> pid \<Rightarrow> rid \<Rightarrow> cty \<Rightarrow> 'o coroutine \<Rightarrow> bool" where
  "coro_at s p r T h \<equiv> coro_with s p r T h []"

lemmas coro_at_def = coro_with_def

abbreviation running_at :: "'o store \<Rightarrow> pid \<Rightarrow> rid \<Rightarrow> cty \<Rightarrow> bool" where
  "running_at s p r T \<equiv> coro_at s p r T Running"

text \<open>What an operation on the promise \<open>p\<close> leaves alone.\<close>

definition keeps :: "pid \<Rightarrow> 'o store \<Rightarrow> 'o store \<Rightarrow> bool" where
  "keeps p s s' \<longleftrightarrow>
     (\<forall>q r j T as. q \<noteq> p \<and> open_at s q r j T as \<longrightarrow> open_at s' q r j T as) \<and>
     (\<forall>q r T h as. q \<noteq> p \<and> coro_with s q r T h as \<longrightarrow> coro_with s' q r T h as) \<and>
     (\<forall>q T x rs. held_at s q T x rs \<longrightarrow> held_at s' q T x rs) \<and>
     objects s' = objects s"

lemma keepsD:
  "keeps p s s' \<Longrightarrow> q \<noteq> p \<Longrightarrow> open_at s q r j T as \<Longrightarrow> open_at s' q r j T as"
  "keeps p s s' \<Longrightarrow> held_at s q T x rs \<Longrightarrow> held_at s' q T x rs"
  "keeps p s s' \<Longrightarrow> q \<noteq> p \<Longrightarrow> coro_with s q r T h as \<Longrightarrow> coro_with s' q r T h as"
  "keeps p s s' \<Longrightarrow> objects s' = objects s"
  unfolding keeps_def by blast+

lemma keeps_refl [simp]: "keeps p s s"
  by (simp add: keeps_def)

lemma open_not_closed: "open_at s p r j T as \<Longrightarrow> \<not> held_at s p T' x rs"
  by (auto simp: open_at_def held_at_def split: sum.splits)

lemma running_not_closed: "coro_with s p r T h as \<Longrightarrow> \<not> held_at s p T' x rs"
  by (auto simp: coro_at_def held_at_def split: sum.splits)

lemma closed_outcome: "held_at s p T x rs \<Longrightarrow> outcome_of s p = Some x"
  by (cases x) (auto simp: held_at_def outcome_of_def resolver_outcome_def)

lemma open_outcome: "open_at s p r j T as \<Longrightarrow> outcome_of s p = None"
  by (auto simp: open_at_def outcome_of_def resolver_outcome_def)

lemma closed_IsDone: "held_at s p T x rs \<Longrightarrow> IsDone s p = Next True"
  by (cases x) (auto simp: held_at_def IsDone_def)

lemma open_IsDone: "open_at s p r j T as \<Longrightarrow> IsDone s p = Next False"
  by (auto simp: open_at_def IsDone_def)

lemma closed_read: "held_at s p T x rs \<Longrightarrow> read_outcome s p = Next x"
  by (cases x) (auto simp: held_at_def read_outcome_def GetException_def GetValue_def)

text \<open>The description of a promise only depends on its own objects.\<close>

lemma open_at_cong:
  assumes "open_at s q r j T as" "length (promises s) \<le> length (promises s')"
    "length (resolvers s) \<le> length (resolvers s')" "length (rejects s) \<le> length (rejects s')"
    "promises s' ! q = promises s ! q" "resolvers s' ! r = resolvers s ! r"
    "rejects s' ! j = rejects s ! j"
  shows "open_at s' q r j T as"
  using assms by (auto simp: open_at_def)

lemma coro_at_cong:
  assumes "coro_with s q r T h as" "length (promises s) \<le> length (promises s')"
    "length (resolvers s) \<le> length (resolvers s')"
    "promises s' ! q = promises s ! q" "resolvers s' ! r = resolvers s ! r"
  shows "coro_with s' q r T h as"
  using assms by (auto simp: coro_at_def)

lemma held_at_cong:
  assumes "held_at s q T x rs" "length (promises s) \<le> length (promises s')"
    "length (resolvers s) \<le> length (resolvers s')"
    "promises s' ! q = promises s ! q"
    "\<And>r. p_resolver (promises s ! q) = Some r \<Longrightarrow> r < length (resolvers s) \<Longrightarrow>
       r_promise (resolvers s ! r) = Some q \<Longrightarrow> resolvers s' ! r = resolvers s ! r"
  shows "held_at s' q T x rs"
  using assms unfolding held_at_def by (auto split: sum.splits)

subsection \<open>Rules of the operations\<close>

text \<open>An extension of the store, with a write to one of its promises.\<close>

lemma keeps_extend:
  assumes "promises s' = promises s @ ns" "resolvers s' = resolvers s @ ms" "rejects s' = rejects s @ ks"
    "objects s' = objects s"
  shows "keeps p s s'"
  unfolding keeps_def
proof (intro conjI allI impI, elim conjE)
  fix q r j T as assume "open_at s q r j T as"
  then show "open_at s' q r j T as"
    using assms by (intro open_at_cong [of s q r j T as s']) (auto simp: open_at_def nth_append)
next
  fix q r T h as assume "q \<noteq> p \<and> coro_with s q r T h as"
  then show "coro_with s' q r T h as"
    using assms by (intro coro_at_cong [of s q r T h as s']) (auto simp: coro_at_def nth_append)
next
  fix q T x rs assume "held_at s q T x rs"
  then show "held_at s' q T x rs"
    using assms by (intro held_at_cong [of s q T x rs s']) (auto simp: held_at_def nth_append)
qed (rule assms(4))

lemma Create_rule:
  obtains s' q r j where
    "exec_op t (OCreate T) s = Next (s', [], Inr (VTuple [VPromise q, VResolve r, VReject j]))"
    "open_at s' q r j T []" "\<forall>p. keeps p s s'" "q = length (promises s)"
proof -
  let ?x = "(new_promise T True NoHandle)\<lparr>p_resolver := Some (length (resolvers s))\<rparr>"
  let ?s = "s\<lparr>promises := promises s @ [?x],
      resolvers := resolvers s @ [linked_resolver T (length (promises s))],
      rejects := rejects s @ [\<lparr>j_resolver = length (resolvers s), j_rejected = False\<rparr>]\<rparr>"
  show thesis
  proof (rule that)
    show "exec_op t (OCreate T) s = Next (?s, [], Inr (VTuple [VPromise (length (promises s)),
        VResolve (length (resolvers s)), VReject (length (rejects s))]))"
      by (simp add: Promise_Create_eq ret_def)
    show "open_at ?s (length (promises s)) (length (resolvers s)) (length (rejects s)) T []"
      by (simp add: open_at_def)
    show "\<forall>p. keeps p s ?s" by (intro allI keeps_extend) auto
  qed simp
qed

text \<open>What a resolver of type \<open>T\<close> makes of the outcome it is given.\<close>

definition stored :: "cty \<Rightarrow> outcome \<Rightarrow> outcome" where
  "stored T x = (case x of Inr v \<Rightarrow> Inr (if is_void T then VVoid else v) | Inl e \<Rightarrow> Inl e)"

lemma stored_idem [simp]: "stored T (stored T x) = stored T x"
  by (simp add: stored_def split: sum.split)

lemma keeps_settled:
  assumes o: "open_at s p r j T as"
    and s': "\<And>q. q \<noteq> p \<Longrightarrow> promises s' ! q = promises s ! q" "\<And>q. q \<noteq> r \<Longrightarrow> resolvers s' ! q = resolvers s ! q"
      "\<And>q. q \<noteq> j \<Longrightarrow> rejects s' ! q = rejects s ! q" "length (promises s') = length (promises s)"
      "length (resolvers s') = length (resolvers s)" "length (rejects s') = length (rejects s)"
      "objects s' = objects s"
  shows "keeps p s s'"
  unfolding keeps_def
proof (intro conjI allI impI, elim conjE)
  fix q r' j' T' as' assume "q \<noteq> p" and q: "open_at s q r' j' T' as'"
  moreover from this o have "r' \<noteq> r" "j' \<noteq> j" by (auto simp: open_at_def)
  ultimately show "open_at s' q r' j' T' as'"
    using s' by (intro open_at_cong [of s q r' j' T' as' s']) auto
next
  fix q r' T' h as assume q: "q \<noteq> p \<and> coro_with s q r' T' h as"
  moreover from this o have "r' \<noteq> r" by (auto simp: open_at_def coro_at_def)
  ultimately show "coro_with s' q r' T' h as"
    using s' by (intro coro_at_cong [of s q r' T' h as s']) auto
next
  fix q T' x rs assume q: "held_at s q T' x rs"
  then have "q \<noteq> p" using o open_not_closed by blast
  moreover have "r_promise (resolvers s ! r) = Some p" using o by (simp add: open_at_def)
  ultimately have "resolvers s' ! r' = resolvers s ! r'" if "r_promise (resolvers s ! r') = Some q" for r'
    using that s'(2) by (cases "r' = r") auto
  with q \<open>q \<noteq> p\<close> s' show "held_at s' q T' x rs"
    by (intro held_at_cong [of s q T' x rs s']) auto
qed (rule s'(7))

text \<open>The settling frame: the outcome is stored and the awaiters are next.\<close>

lemma Settle_rule:
  assumes "open_at s p r j T as" and s1: "s1 = upd_resolver r (\<lambda>x. x\<lparr>r_resolved := True\<rparr>) s \<or>
    s1 = upd_resolver r (\<lambda>x. x\<lparr>r_resolved := True\<rparr>) (upd_reject j (\<lambda>x. x\<lparr>j_rejected := True\<rparr>) s)"
  obtains s' where "step_frame t (Settle r x) fs s1 = Next (s', Awaiters as # fs, [])"
    "closed_at s' p T (stored T x)" "keeps p s s'"
proof -
  let ?s = "upd_promise p (\<lambda>x. x\<lparr>p_awaiters := [], p_self_owned := False\<rparr>)
      (upd_resolver r (store_outcome x) s1)"
  note o = assms(1) [unfolded open_at_def]
  show thesis
  proof (rule that)
    show "step_frame t (Settle r x) fs s1 = Next (?s, Awaiters as # fs, [])"
      using o s1 by (auto simp: settle_def with_unique_def Resolver_Done_def OnResolved_def
          Handle_Done_def Let_def)
    show "closed_at ?s p T (stored T x)"
      using o s1 by (cases x) (auto simp: held_at_def stored_def)
    show "keeps p s ?s" using s1 by (intro keeps_settled [OF assms(1)]) auto
  qed
qed

lemma Resolve_rule:
  assumes "open_at s p r j T as"
  obtains s' where "solo t s (Run c (Call (OResolve r v) k) # fs) s' (Awaiters as # Run c (k (Inr (VBool True))) # fs)"
    "closed_at s' p T (stored T (Inr v))" "keeps p s s'"
proof -
  let ?s = "upd_resolver r (\<lambda>x. x\<lparr>r_resolved := True\<rparr>) s"
  obtain s' where s': "step_frame t (Settle r (Inr v)) (Run c (k (Inr (VBool True))) # fs) ?s =
      Next (s', Awaiters as # Run c (k (Inr (VBool True))) # fs, [])"
    "closed_at s' p T (stored T (Inr v))" "keeps p s s'"
    using Settle_rule [OF assms] by blast
  have "exec_op t (OResolve r v) s = Next (?s, [Settle r (Inr v)], Inr (VBool True))"
    using assms by (simp add: open_at_def resolve_op_def exchange_resolved_def)
  from solo_call [OF this] have "solo t s (Run c (Call (OResolve r v) k) # fs) ?s
      (Settle r (Inr v) # Run c (k (Inr (VBool True))) # fs)" by simp
  from solo_trans [OF this solo_one [OF s'(1)]] that s' show ?thesis by blast
qed

lemma Reject_rule:
  assumes "open_at s p r j T as"
  obtains s' where "solo t s (Run c (Call (OReject j e) k) # fs) s' (Awaiters as # Run c (k (Inr (VBool True))) # fs)"
    "closed_at s' p T (Inl e)" "keeps p s s'"
proof -
  let ?s = "upd_resolver r (\<lambda>x. x\<lparr>r_resolved := True\<rparr>) (upd_reject j (\<lambda>x. x\<lparr>j_rejected := True\<rparr>) s)"
  obtain s' where s': "step_frame t (Settle r (Inl e)) (Run c (k (Inr (VBool True))) # fs) ?s =
      Next (s', Awaiters as # Run c (k (Inr (VBool True))) # fs, [])"
    "closed_at s' p T (stored T (Inl e))" "keeps p s s'"
    using Settle_rule [OF assms] by blast
  have "exec_op t (OReject j e) s = Next (?s, [Settle r (Inl e)], Inr (VBool True))"
    using assms by (simp add: open_at_def reject_op_def exchange_rejected_def resolve_op_def exchange_resolved_def)
  from solo_call [OF this] have "solo t s (Run c (Call (OReject j e) k) # fs) ?s
      (Settle r (Inl e) # Run c (k (Inr (VBool True))) # fs)" by simp
  from solo_trans [OF this solo_one [OF s'(1)]] that s' show ?thesis by (auto simp: stored_def)
qed

lemma solo_awaiters_nil: "solo t s (Awaiters [] # fs) s fs"
  by (rule solo_one) simp

lemma solo_awaiters_cons: "solo t s (Awaiters (AFunction i m # as) # fs) s (Run Plain m # Awaiters as # fs)"
  by (rule solo_one) simp

lemma Outcome_rule:
  "closed_at s p T x \<Longrightarrow> solo t s (Run c (Call (OOutcome p) k) # fs) s (Run c (k x) # fs)"
  using solo_call [of t "OOutcome p" s s "[]" x] closed_read [of s p T x]
  by (simp add: held_at_def valid_promise_def with_shared_def)

lemma keeps_trans: "keeps p s s' \<Longrightarrow> keeps p s' s'' \<Longrightarrow> keeps p s s''"
  by (auto simp: keeps_def)

text \<open>A write to one promise, which stays what it was for its readers and settlers.\<close>

lemma keeps_upd:
  assumes "promises s' = upd_nth p g (promises s) @ ns" "resolvers s' = resolvers s @ ms"
    "rejects s' = rejects s @ ks" "p < length (promises s)" "objects s' = objects s"
    and g: "\<And>x. p_type (g x) = p_type x" "\<And>x. p_readers (g x) = p_readers x"
      "\<And>x. p_resolver (g x) = p_resolver x"
  shows "keeps p s s'"
  unfolding keeps_def
proof (intro conjI allI impI, elim conjE)
  fix q r j T as assume "q \<noteq> p" "open_at s q r j T as"
  then show "open_at s' q r j T as"
    using assms(1-4)
    by (intro open_at_cong [of s q r j T as s']) (auto simp: open_at_def nth_append)
next
  fix q r T h as assume "q \<noteq> p \<and> coro_with s q r T h as"
  then show "coro_with s' q r T h as"
    using assms(1-4)
    by (intro coro_at_cong [of s q r T h as s']) (auto simp: coro_at_def nth_append)
next
  fix q T x rs assume h: "held_at s q T x rs"
  then have q: "q < length (promises s)" by (simp add: held_at_def)
  have "p_type (promises s' ! q) = p_type (promises s ! q)"
    "p_readers (promises s' ! q) = p_readers (promises s ! q)"
    "p_resolver (promises s' ! q) = p_resolver (promises s ! q)"
    using q assms(1) g by (simp_all add: nth_append nth_upd_nth)
  then show "held_at s' q T x rs"
    using h assms(1-3) unfolding held_at_def by (fastforce simp: nth_append split: sum.splits)
qed (rule assms(5))

lemma TryAwait_settled:
  "closed_at s p T x \<Longrightarrow> exec_op t (OTryAwait p g) s = Next (s, [], Inr VVoid)"
  using closed_IsDone [of s p T x "[]"]
  by (simp add: held_at_def valid_promise_def try_await_def with_unique_def ret_def)

lemma TryAwaitNew_settled:
  "closed_at s p T x \<Longrightarrow> exec_op t (OTryAwaitNew p T2 g) s = Next (s, [], Inr VVoid)"
  using closed_IsDone [of s p T x "[]"]
  by (simp add: held_at_def valid_promise_def try_await_new_def with_unique_def ret_def)

lemma TryAwait_rule:
  assumes "open_at s p r j T as"
  obtains s' i where "exec_op t (OTryAwait p g) s = Next (s', [], Inr (VId i))"
    "open_at s' p r j T (as @ [AFunction i g])" "keeps p s s'"
proof -
  let ?i = "p_use_count (promises s ! p) + 1"
  let ?g = "\<lambda>x. x\<lparr>p_use_count := ?i, p_awaiters := p_awaiters x @ [AFunction ?i g]\<rparr>"
  let ?s = "upd_promise p ?g s"
  note o = assms [unfolded open_at_def]
  show thesis
  proof (rule that)
    show "exec_op t (OTryAwait p g) s = Next (?s, [], Inr (VId ?i))"
      using o open_IsDone [OF assms]
      by (simp add: valid_promise_def try_await_def with_unique_def ret_def Await_function_def Let_def)
    show "open_at ?s p r j T (as @ [AFunction ?i g])" using o by (simp add: open_at_def)
    show "keeps p s ?s" using o by (intro keeps_upd [of _ _ ?g _ "[]" "[]" "[]"]) auto
  qed
qed

lemma TryAwaitNew_rule:
  assumes "open_at s p r j T as"
  obtains s' i q rq jq where "exec_op t (OTryAwaitNew p T2 g) s = Next (s', [], Inr (VPromise q))"
    "open_at s' p r j T (as @ [AFunction i (g rq jq)])" "open_at s' q rq jq T2 []" "keeps p s s'" "q \<noteq> p"
    "q = length (promises s)"
proof -
  let ?i = "p_use_count (promises s ! p) + 1"
  let ?q = "length (promises s)" and ?r = "length (resolvers s)" and ?j = "length (rejects s)"
  let ?g = "\<lambda>x. x\<lparr>p_use_count := ?i, p_awaiters := p_awaiters x @ [AFunction ?i (g ?r ?j)]\<rparr>"
  let ?s1 = "snd (snd (snd (Promise_Create T2 s)))"
  let ?s = "upd_promise p ?g ?s1"
  note o = assms [unfolded open_at_def]
  have "IsDone ?s1 p = Next False"
    using o by (simp add: IsDone_def Promise_Create_eq nth_append)
  then show thesis
    using o open_IsDone [OF assms]
    by (intro that [of ?s ?q ?i ?r ?j])
      (auto simp: valid_promise_def try_await_new_def with_unique_def ret_def Await_function_def Let_def
        Promise_Create_eq nth_append open_at_def upd_nth_append
        intro: keeps_upd [of _ p ?g])
qed

lemma Detach_rule:
  assumes "p < length (promises s)" "p_readers (promises s ! p) = []" "IsDone s p = Next b"
  obtains s' where "exec_op t (ODetach p) s = Next (s', [], Inr VVoid)"
    "\<forall>q r j T as. open_at s q r j T as \<longrightarrow> open_at s' q r j T as" "\<forall>q. keeps q s s'"
proof -
  let ?g = "\<lambda>x. x\<lparr>p_self_owned := True\<rparr>"
  let ?s = "if b then s else upd_promise p ?g s"
  show thesis
  proof (rule that)
    show "exec_op t (ODetach p) s = Next (?s, [], Inr VVoid)"
      using assms by (simp add: valid_promise_def with_unique_def Detach_def ret_def)
    have op: "open_at ?s q r j T as" if "open_at s q r j T as" for q r j T as
      using that assms(1) by (cases "p = q") (auto simp: open_at_def)
    then show "\<forall>q r j T as. open_at s q r j T as \<longrightarrow> open_at ?s q r j T as" by blast
    have k: "keeps p s ?s"
      using assms(1) keeps_upd [of ?s p ?g s "[]" "[]" "[]"] by (cases b) auto
    have "coro_with ?s q r T h as" if "coro_with s q r T h as" for q r T h as
      using that assms(1) by (cases "p = q") (auto simp: coro_at_def)
    then show "\<forall>q. keeps q s ?s"
      using keepsD(2,4) [OF k] op unfolding keeps_def by blast
  qed
qed

subsection \<open>Callbacks without effects\<close>

text \<open>A callback that only computes, given by its result or exception on its arguments.\<close>

definition pure_fn :: "cty \<Rightarrow> (val list \<Rightarrow> outcome) \<Rightarrow> 'o fn" where
  "pure_fn ty g = Fn ty (\<lambda>vs. finish (g vs))"

lemma pure_fn_sel [simp]: "fn_type (pure_fn ty g) = ty" "fn_body (pure_fn ty g) vs = finish (g vs)"
  by (simp_all add: pure_fn_def)

text \<open>The operation that settles an open promise with a given outcome.\<close>

fun settle_op :: "rid \<Rightarrow> jid \<Rightarrow> outcome \<Rightarrow> 'o op" where
  "settle_op r j (Inr v) = OResolve r v"
| "settle_op r j (Inl e) = OReject j e"

lemma settle_rule:
  assumes "open_at s p r j T as"
  obtains s' where "solo t s (Run c (Call (settle_op r j x) k) # fs) s' (Awaiters as # Run c (k (Inr (VBool True))) # fs)"
    "closed_at s' p T (stored T x)" "keeps p s s'"
proof (cases x)
  case (Inl e)
  then show thesis using Reject_rule [OF assms, of t c e k fs] that by (auto simp: stored_def)
next
  case (Inr v)
  then show thesis using Resolve_rule [OF assms, of t c v k fs] that by auto
qed

text \<open>Steps of a program inside a larger one.\<close>

lemma solo_bind_Call:
  "exec_op t a s = Next (s', new, x) \<Longrightarrow> \<not> spawns a \<Longrightarrow>
     solo t s (Run c (bindP (Call a f) K) # fs) s' (new @ Run c (bindP (f x) K) # fs)"
  using solo_call [of t a s s' new x c "\<lambda>r. bindP (f r) K" fs] by simp

lemma solo_bind_Call0:
  "exec_op t a s = Next (s', [], x) \<Longrightarrow> \<not> spawns a \<Longrightarrow> f x = m \<Longrightarrow>
     solo t s (Run c (bindP (Call a f) K) # fs) s' (Run c (bindP m K) # fs)"
  using solo_bind_Call [of t a s s' "[]" x c f K fs] by simp

lemma solo_bind_callP:
  "exec_op t a s = Next (s', new, Inr v) \<Longrightarrow> \<not> spawns a \<Longrightarrow>
     solo t s (Run c (bindP (callP a f) K) # fs) s' (new @ Run c (bindP (f v) K) # fs)"
  using solo_bind_Call [of t a s s' new "Inr v" c "\<lambda>r. case r of Inl e \<Rightarrow> Throw e | Inr w \<Rightarrow> f w" K fs]
  by (simp add: callP_def)

lemma settle_bind:
  assumes "open_at s p r j T as"
  obtains s' where "solo t s (Run c (bindP (callP (settle_op r j x) f) K) # fs) s'
      (Awaiters as # Run c (bindP (f (VBool True)) K) # fs)"
    "closed_at s' p T (stored T x)" "keeps p s s'"
  using settle_rule [OF assms, of t c x "\<lambda>y. bindP (case y of Inl e \<Rightarrow> Throw e | Inr v \<Rightarrow> f v) K" fs] that
  by (auto simp: callP_def)

lemma Outcome_bind:
  "closed_at s p T x \<Longrightarrow>
     solo t s (Run c (bindP (Call (OOutcome p) f) K) # fs) s (Run c (bindP (f x) K) # fs)"
  using Outcome_rule [of s p T x t c "\<lambda>r. bindP (f r) K" fs] by simp

lemma keeps_fresh:
  assumes "\<forall>p. keeps p s s1" "keeps q s1 s2" "q = length (promises s)"
  shows "\<forall>p. keeps p s s2"
proof (intro allI)
  fix p
  have "open_at s2 q' r j T as" if "q' \<noteq> p" "open_at s q' r j T as" for q' r j T as
  proof -
    have "q' \<noteq> q" using that(2) assms(3) by (simp add: open_at_def)
    then show ?thesis using assms(1,2) that keepsD(1) by metis
  qed
  moreover have "held_at s2 q' T x rs" if "held_at s q' T x rs" for q' T x rs
    using assms(1,2) that keepsD(2) by metis
  moreover have "coro_with s2 q' r T h as" if "q' \<noteq> p" "coro_with s q' r T h as" for q' r T h as
  proof -
    have "q' \<noteq> q" using that(2) assms(3) by (simp add: coro_at_def)
    then show ?thesis using assms(1,2) that keepsD(3) by metis
  qed
  moreover have "objects s2 = objects s"
    using keepsD(4) [OF assms(1) [rule_format]] keepsD(4) [OF assms(2)] by simp
  ultimately show "keeps p s s2" unfolding keeps_def by blast
qed

text \<open>A promise created and settled at once.\<close>

lemma settled_promise_rule:
  obtains s' q where
    "solo t s (Run c (bindP (callP (OCreate T) (\<lambda>h. with_handles h (\<lambda>p r j.
        callP (settle_op r j x) (\<lambda>_. g p)))) K) # fs) s' (Run c (bindP (g q) K) # fs)"
    "closed_at s' q T (stored T x)" "\<forall>p. keeps p s s'"
proof -
  obtain s1 q r j where c: "exec_op t (OCreate T) s = Next (s1, [], Inr (VTuple [VPromise q, VResolve r, VReject j]))"
    "open_at s1 q r j T []" "\<forall>p. keeps p s s1" "q = length (promises s)"
    by (rule Create_rule [of t T s])
  obtain s2 where s: "solo t s1 (Run c (bindP (callP (settle_op r j x) (\<lambda>_. g q)) K) # fs) s2
      (Awaiters [] # Run c (bindP (g q) K) # fs)" "closed_at s2 q T (stored T x)" "keeps q s1 s2"
    using c(2) by (rule settle_bind)
  have "solo t s (Run c (bindP (callP (OCreate T) (\<lambda>h. with_handles h (\<lambda>p r j.
        callP (settle_op r j x) (\<lambda>_. g p)))) K) # fs) s1 (Run c (bindP (callP (settle_op r j x) (\<lambda>_. g q)) K) # fs)"
    using solo_bind_callP [OF c(1), of c "\<lambda>h. with_handles h (\<lambda>p r j.
        callP (settle_op r j x) (\<lambda>_. g p))" K fs] by simp
  note run = solo_trans [OF solo_trans [OF this s(1)] solo_awaiters_nil]
  have "\<forall>p. keeps p s s2" using keeps_fresh [OF c(3) s(3) c(4)] .
  with run s(2) that show thesis by blast
qed

lemma Promise_settled_eq:
  "(case x of Inr v \<Rightarrow> Promise_Resolve T v | Inl e \<Rightarrow> Promise_Reject T e) =
     callP (OCreate T) (\<lambda>h. with_handles h (\<lambda>p r j. callP (settle_op r j x) (\<lambda>_. Return (VPromise p))))"
  by (cases x) (auto simp: Promise_Resolve_def Promise_Reject_def)

lemma Promise_settled_rule:
  obtains s' q where
    "solo t s (Run c (bindP (case x of Inr v \<Rightarrow> Promise_Resolve T v | Inl e \<Rightarrow> Promise_Reject T e) K) # fs)
       s' (Run c (K (Inr (VPromise q))) # fs)"
    "closed_at s' q T (stored T x)" "\<forall>p. keeps p s s'"
proof -
  obtain s' q where "solo t s (Run c (bindP (callP (OCreate T) (\<lambda>h. with_handles h (\<lambda>p r j.
        callP (settle_op r j x) (\<lambda>_. Return (VPromise p))))) K) # fs) s'
        (Run c (bindP (Return (VPromise q)) K) # fs)"
      "closed_at s' q T (stored T x)" "\<forall>p. keeps p s s'"
    by (rule settled_promise_rule [of t s c T x "\<lambda>p. Return (VPromise p)" K fs])
  then show thesis by (intro that [of s' q]) (simp_all add: Promise_settled_eq)
qed

subsection \<open>The contract of a chaining function\<close>

text \<open>
  \<open>chain T p\<close> returns a promise for \<open>result T x\<close>, where \<open>x\<close> is the outcome of \<open>p\<close>: at once when
  \<open>p\<close> is settled, and otherwise through the continuation \<open>awaiter\<close> that it registers with \<open>p\<close>.
\<close>

locale chaining_alone =
  fixes chain :: "cty \<Rightarrow> pid \<Rightarrow> 'o prog"
    and awaiter :: "cty \<Rightarrow> pid \<Rightarrow> rid \<Rightarrow> jid \<Rightarrow> 'o prog"
    and result_type :: "cty \<Rightarrow> cty"
    and result :: "cty \<Rightarrow> outcome \<Rightarrow> outcome"
  assumes settled_returns: "closed_at s p T x \<Longrightarrow>
      \<exists>s' q. solo t s (Run c (bindP (chain T p) K) # fs) s' (Run c (K (Inr (VPromise q))) # fs) \<and>
        closed_at s' q (result_type T) (result T x) \<and> (\<forall>p. keeps p s s')"
    and pending_returns: "open_at s p r j T as \<Longrightarrow>
      \<exists>s' q rq jq i. solo t s (Run c (bindP (chain T p) K) # fs) s' (Run c (K (Inr (VPromise q))) # fs) \<and>
        open_at s' p r j T (as @ [AFunction i (awaiter T p rq jq)]) \<and>
        open_at s' q rq jq (result_type T) [] \<and> keeps p s s' \<and> q \<noteq> p"
    and awaiter_runs: "closed_at s p T x \<Longrightarrow> open_at s q r j (result_type T) [] \<Longrightarrow>
      \<exists>s'. solo t s (Run Plain (awaiter T p r j) # fs) s' fs \<and>
        closed_at s' q (result_type T) (result T x) \<and> keeps q s s'"
begin

lemma settle_then_chain:
  assumes "open_at s p r j T []"
  shows "\<exists>s' q. solo t s (Run c (bindP (callP (settle_op r j x) (\<lambda>_. chain T p)) K) # fs) s'
      (Run c (K (Inr (VPromise q))) # fs) \<and>
    closed_at s' p T (stored T x) \<and> closed_at s' q (result_type T) (result T (stored T x))"
proof -
  obtain s1 where s1: "solo t s (Run c (bindP (callP (settle_op r j x) (\<lambda>_. chain T p)) K) # fs) s1
      (Awaiters [] # Run c (bindP (chain T p) K) # fs)" "closed_at s1 p T (stored T x)" "keeps p s s1"
    using assms by (rule settle_bind)
  obtain s2 q where s2: "solo t s1 (Run c (bindP (chain T p) K) # fs) s2 (Run c (K (Inr (VPromise q))) # fs)"
      "closed_at s2 q (result_type T) (result T (stored T x))" "\<forall>p. keeps p s1 s2"
    using settled_returns [OF s1(2)] by blast
  have "closed_at s2 p T (stored T x)" using s2(3) s1(2) keepsD(2) by blast
  then show ?thesis
    using solo_trans [OF solo_trans [OF s1(1) solo_awaiters_nil] s2(1)] s2(2) by blast
qed

lemma chain_then_settle:
  assumes "open_at s p r j T []"
  shows "\<exists>s' q. solo t s (Run c (bindP (chain T p) (\<lambda>w. bindP (callP (settle_op r j x) (\<lambda>_. finish w)) K)) # fs) s'
      (Run c (K (Inr (VPromise q))) # fs) \<and>
    closed_at s' p T (stored T x) \<and> closed_at s' q (result_type T) (result T (stored T x))"
proof -
  let ?K = "\<lambda>w. bindP (callP (settle_op r j x) (\<lambda>_. finish w)) K"
  obtain s1 q rq jq i where s1: "solo t s (Run c (bindP (chain T p) ?K) # fs) s1 (Run c (?K (Inr (VPromise q))) # fs)"
      "open_at s1 p r j T [AFunction i (awaiter T p rq jq)]" "open_at s1 q rq jq (result_type T) []" "q \<noteq> p"
    using pending_returns [OF assms] by fastforce
  let ?fs = "Run c (K (Inr (VPromise q))) # fs"
  obtain s2 where s2: "solo t s1 (Run c (?K (Inr (VPromise q))) # fs) s2
      (Awaiters [AFunction i (awaiter T p rq jq)] # Run c (bindP (finish (Inr (VPromise q))) K) # fs)"
      "closed_at s2 p T (stored T x)" "keeps p s1 s2"
    using s1(2) by (rule settle_bind)
  have q2: "open_at s2 q rq jq (result_type T) []" using s2(3) s1(3,4) keepsD(1) by blast
  obtain s3 where s3: "solo t s2 (Run Plain (awaiter T p rq jq) # Awaiters [] # ?fs) s3 (Awaiters [] # ?fs)"
      "closed_at s3 q (result_type T) (result T (stored T x))" "keeps q s2 s3"
    using awaiter_runs [OF s2(2) q2] by blast
  have "solo t s2 (Awaiters [AFunction i (awaiter T p rq jq)] # ?fs) s3 ?fs"
    using solo_trans [OF solo_awaiters_cons solo_trans [OF s3(1) solo_awaiters_nil]] .
  then have "solo t s (Run c (bindP (chain T p) ?K) # fs) s3 ?fs"
    using s1(1) s2(1) solo_trans by (metis bindP_finish_left)
  moreover have "closed_at s3 p T (stored T x)" using s3(3) s2(2) keepsD(2) by blast
  ultimately show ?thesis using s3(2) by blast
qed

end

text \<open>
  The stronger contract of callbacks that do not call the library: the continuation hands the
  awaiters of the promise it settles over to the loop of OnResolved.
\<close>

locale chaining =
  fixes chain :: "cty \<Rightarrow> pid \<Rightarrow> 'o prog"
    and awaiter :: "cty \<Rightarrow> pid \<Rightarrow> rid \<Rightarrow> jid \<Rightarrow> 'o prog"
    and result_type :: "cty \<Rightarrow> cty"
    and result :: "cty \<Rightarrow> outcome \<Rightarrow> outcome"
  assumes settled: "closed_at s p T x \<Longrightarrow>
      \<exists>s' q. solo t s (Run c (bindP (chain T p) K) # fs) s' (Run c (K (Inr (VPromise q))) # fs) \<and>
        closed_at s' q (result_type T) (result T x) \<and> (\<forall>p. keeps p s s')"
    and pending: "open_at s p r j T as \<Longrightarrow>
      \<exists>s' q rq jq i. solo t s (Run c (bindP (chain T p) K) # fs) s' (Run c (K (Inr (VPromise q))) # fs) \<and>
        open_at s' p r j T (as @ [AFunction i (awaiter T p rq jq)]) \<and>
        open_at s' q rq jq (result_type T) [] \<and> keeps p s s' \<and> q \<noteq> p"
    and continuation: "closed_at s p T x \<Longrightarrow> open_at s q r j (result_type T) as \<Longrightarrow>
      \<exists>s'. solo t s (Run Plain (awaiter T p r j) # fs) s' (Awaiters as # Run Plain (Return VVoid) # fs) \<and>
        closed_at s' q (result_type T) (result T x) \<and> keeps q s s'"

sublocale chaining \<subseteq> chaining_alone chain awaiter result_type result
proof (unfold_locales, goal_cases)
  case 1
  then show ?case by (rule settled)
next
  case 2
  then show ?case by (rule pending)
next
  case (3 s p T x q r j t fs)
  obtain s' where s': "solo t s (Run Plain (awaiter T p r j) # fs) s' (Awaiters [] # Run Plain (Return VVoid) # fs)"
    "closed_at s' q (result_type T) (result T x)" "keeps q s s'" using continuation [OF 3] by blast
  have "solo t s' (Run Plain (Return VVoid) # fs) s' fs" by (rule solo_one) simp
  then show ?case using s' solo_trans [OF s'(1) solo_trans [OF solo_awaiters_nil]] by blast
qed

subsection \<open>Then\<close>

definition then_result :: "cty \<Rightarrow> (val list \<Rightarrow> outcome) \<Rightarrow> val list \<Rightarrow> cty \<Rightarrow> outcome \<Rightarrow> outcome" where
  "then_result ty g args T x =
     stored (return_or_void_t ty) (case x of Inl e \<Rightarrow> Inl e | Inr v \<Rightarrow> g (pass_value T v args))"

lemma settle_with_pure:
  "settle_with r j f (finish y) = callP (settle_op r j (map_sum id f y)) (\<lambda>_. Return VVoid)"
  by (cases y) (simp_all add: settle_with_def)

lemma then_awaiter_eq:
  "then_awaiter T p (pure_fn ty g) args r j = Call (OOutcome p) (\<lambda>x.
     callP (settle_op r j (case x of Inl e \<Rightarrow> Inl e | Inr v \<Rightarrow> g (pass_value T v args))) (\<lambda>_. Return VVoid))"
  by (simp add: then_awaiter_def settle_with_pure sum.map_id0 fun_eq_iff split: sum.split)

lemma then_settled_eq:
  "then_settled T T2 p (pure_fn ty g) args = Call (OOutcome p) (\<lambda>x.
     case (case x of Inl e \<Rightarrow> Inl e | Inr v \<Rightarrow> g (pass_value T v args)) of
       Inr w \<Rightarrow> Promise_Resolve T2 w | Inl e \<Rightarrow> Promise_Reject T2 e)"
  by (simp add: then_settled_def fun_eq_iff split: sum.split)

lemma continuation_rule:
  assumes "closed_at s p T x" "open_at s q r j T2 as"
  shows "\<exists>s'. solo t s (Run Plain (Call (OOutcome p) (\<lambda>x. callP (settle_op r j (h x)) (\<lambda>_. Return VVoid))) # fs) s'
      (Awaiters as # Run Plain (Return VVoid) # fs) \<and>
    closed_at s' q T2 (stored T2 (h x)) \<and> keeps q s s'"
proof -
  obtain s' where s': "solo t s (Run Plain (bindP (callP (settle_op r j (h x)) (\<lambda>_. Return VVoid)) finish) # fs) s'
      (Awaiters as # Run Plain (bindP (Return VVoid) finish) # fs)"
      "closed_at s' q T2 (stored T2 (h x))" "keeps q s s'"
    using assms(2) by (rule settle_bind)
  then show ?thesis
    using solo_trans [OF Outcome_rule [OF assms(1), of t Plain "\<lambda>x. callP (settle_op r j (h x)) (\<lambda>_. Return VVoid)" fs]]
    by (metis bindP_finish_right)
qed

lemma then_settled_run:
  assumes "closed_at s p T x"
  shows "\<exists>s' q. solo t s (Run c (bindP (ThenPlain T p (pure_fn ty g) args) K) # fs) s'
      (Run c (K (Inr (VPromise q))) # fs) \<and>
    closed_at s' q (return_or_void_t ty) (then_result ty g args T x) \<and> (\<forall>p. keeps p s s')"
proof -
  let ?T2 = "return_or_void_t ty" and ?f = "pure_fn ty g"
  let ?y = "case x of Inl e \<Rightarrow> Inl e | Inr v \<Rightarrow> g (pass_value T v args)"
  let ?m = "case ?y of Inr w \<Rightarrow> Promise_Resolve ?T2 w | Inl e \<Rightarrow> Promise_Reject ?T2 e"
  have "exec_op t (OTryAwaitNew p ?T2 (then_awaiter T p ?f args)) s = Next (s, [], Inr VVoid)"
    using assms by (rule TryAwaitNew_settled)
  from solo_bind_callP [OF this, of c "\<lambda>w. case w of VPromise q \<Rightarrow> Return (VPromise q)
      | _ \<Rightarrow> then_settled T ?T2 p ?f args" K fs]
  have "solo t s (Run c (bindP (ThenPlain T p ?f args) K) # fs) s
      (Run c (bindP (then_settled T ?T2 p ?f args) K) # fs)"
    by (simp add: ThenPlain_def Let_def)
  also have "solo t s (Run c (bindP (then_settled T ?T2 p ?f args) K) # fs) s (Run c (bindP ?m K) # fs)"
    unfolding then_settled_eq by (rule Outcome_bind [OF assms])
  finally have run: "solo t s (Run c (bindP (ThenPlain T p ?f args) K) # fs) s (Run c (bindP ?m K) # fs)" .
  obtain s' q where "solo t s (Run c (bindP ?m K) # fs) s' (Run c (K (Inr (VPromise q))) # fs)"
      "closed_at s' q ?T2 (stored ?T2 ?y)" "\<forall>p. keeps p s s'"
    by (rule Promise_settled_rule)
  with solo_trans [OF run] show ?thesis unfolding then_result_def by blast
qed

lemma then_pending_run:
  assumes "open_at s p r j T as"
  shows "\<exists>s' q rq jq i. solo t s (Run c (bindP (ThenPlain T p f args) K) # fs) s' (Run c (K (Inr (VPromise q))) # fs) \<and>
    open_at s' p r j T (as @ [AFunction i (then_awaiter T p f args rq jq)]) \<and>
    open_at s' q rq jq (return_or_void_t (fn_type f)) [] \<and> keeps p s s' \<and> q \<noteq> p \<and>
    q = length (promises s)"
proof -
  let ?T2 = "return_or_void_t (fn_type f)"
  obtain s' i q rq jq where a: "exec_op t (OTryAwaitNew p ?T2 (then_awaiter T p f args)) s = Next (s', [], Inr (VPromise q))"
    and r: "open_at s' p r j T (as @ [AFunction i (then_awaiter T p f args rq jq)])" "open_at s' q rq jq ?T2 []"
      "keeps p s s'" "q \<noteq> p" "q = length (promises s)"
    using assms by (rule TryAwaitNew_rule)
  from solo_bind_callP [OF a, of c "\<lambda>w. case w of VPromise q \<Rightarrow> Return (VPromise q)
      | _ \<Rightarrow> then_settled T ?T2 p f args" K fs]
  have "solo t s (Run c (bindP (ThenPlain T p f args) K) # fs) s' (Run c (K (Inr (VPromise q))) # fs)"
    by (simp add: ThenPlain_def Let_def)
  with r show ?thesis by blast
qed

interpretation then_chain: chaining "\<lambda>T p. ThenPlain T p (pure_fn ty g) args"
  "\<lambda>T p. then_awaiter T p (pure_fn ty g) args" "\<lambda>T. return_or_void_t ty" "then_result ty g args"
  for ty g args
proof (unfold_locales, goal_cases)
  case 1
  then show ?case by (rule then_settled_run)
next
  case (2 s p r j T as t c K fs)
  from then_pending_run [OF 2, of t c "pure_fn ty g" args K fs] show ?case unfolding pure_fn_sel by blast
next
  case 3
  then show ?case unfolding then_awaiter_eq then_result_def by (rule continuation_rule)
qed

subsection \<open>Functions that create their promise first\<close>

text \<open>Catch and Finally share one shape, with a continuation \<open>k\<close> and a path \<open>d\<close> for settled promises.\<close>

definition create_first :: "cty \<Rightarrow> pid \<Rightarrow> (rid \<Rightarrow> jid \<Rightarrow> 'o prog) \<Rightarrow> (rid \<Rightarrow> jid \<Rightarrow> 'o prog) \<Rightarrow> 'o prog" where
  "create_first T2 p k d =
     callP (OCreate T2) (\<lambda>h. with_handles h (\<lambda>q r j.
       callP (OTryAwait p (k r j)) (\<lambda>w. case w of
           VId i \<Rightarrow> Return (VPromise q)
         | _ \<Rightarrow> thenP (d r j) (\<lambda>_. Return (VPromise q)))))"

lemma create_first_start:
  obtains s1 q r j where
    "solo t s (Run c (bindP (create_first T2 p k d) K) # fs) s1
       (Run c (bindP (callP (OTryAwait p (k r j)) (\<lambda>w. case w of
           VId i \<Rightarrow> Return (VPromise q)
         | _ \<Rightarrow> thenP (d r j) (\<lambda>_. Return (VPromise q)))) K) # fs)"
    "open_at s1 q r j T2 []" "\<forall>p. keeps p s s1" "q = length (promises s)"
proof -
  obtain s1 q r j where c: "exec_op t (OCreate T2) s = Next (s1, [], Inr (VTuple [VPromise q, VResolve r, VReject j]))"
    "open_at s1 q r j T2 []" "\<forall>p. keeps p s s1" "q = length (promises s)"
    by (rule Create_rule [of t T2 s])
  from solo_bind_callP [OF c(1), of c "\<lambda>h. with_handles h (\<lambda>q r j.
       callP (OTryAwait p (k r j)) (\<lambda>w. case w of
           VId i \<Rightarrow> Return (VPromise q)
         | _ \<Rightarrow> thenP (d r j) (\<lambda>_. Return (VPromise q))))" K fs] c(2-4) that
  show thesis by (simp add: create_first_def)
qed

lemma create_first_fresh:
  assumes "open_at s p r j T as"
  shows "\<exists>s' q rq jq i. solo t s (Run c (bindP (create_first T2 p k d) K) # fs) s' (Run c (K (Inr (VPromise q))) # fs) \<and>
    open_at s' p r j T (as @ [AFunction i (k rq jq)]) \<and> open_at s' q rq jq T2 [] \<and> keeps p s s' \<and> q = length (promises s)"
proof -
  let ?w = "\<lambda>q rq jq w. case w of VId i \<Rightarrow> Return (VPromise q) | _ \<Rightarrow> thenP (d rq jq) (\<lambda>_. Return (VPromise q))"
  obtain s1 q rq jq where s1: "solo t s (Run c (bindP (create_first T2 p k d) K) # fs) s1
       (Run c (bindP (callP (OTryAwait p (k rq jq)) (?w q rq jq)) K) # fs)"
    "open_at s1 q rq jq T2 []" "\<forall>p. keeps p s s1" "q = length (promises s)"
    by (rule create_first_start)
  have p: "p < length (promises s)" using assms by (simp add: open_at_def)
  have "open_at s1 p r j T as" using assms s1(3) keepsD(1) [of "Suc p"] by (metis n_not_Suc_n)
  then obtain s2 i where s2: "exec_op t (OTryAwait p (k rq jq)) s1 = Next (s2, [], Inr (VId i))"
    "open_at s2 p r j T (as @ [AFunction i (k rq jq)])" "keeps p s1 s2"
    by (rule TryAwait_rule)
  have "open_at s2 q rq jq T2 []" using s1(2,4) s2(3) p keepsD(1) by (metis less_irrefl)
  moreover have "keeps p s s2" using s1(3) s2(3) keeps_trans by blast
  moreover have "solo t s (Run c (bindP (create_first T2 p k d) K) # fs) s2 (Run c (K (Inr (VPromise q))) # fs)"
    using solo_trans [OF s1(1)] solo_bind_callP [OF s2(1), of c "?w q rq jq" K fs] by simp
  ultimately show ?thesis using s2(2) s1(4) by blast
qed

lemma create_first_pending:
  assumes "open_at s p r j T as"
  shows "\<exists>s' q rq jq i. solo t s (Run c (bindP (create_first T2 p k d) K) # fs) s' (Run c (K (Inr (VPromise q))) # fs) \<and>
    open_at s' p r j T (as @ [AFunction i (k rq jq)]) \<and> open_at s' q rq jq T2 [] \<and> keeps p s s' \<and> q \<noteq> p"
proof -
  have "p \<noteq> length (promises s)" using assms by (simp add: open_at_def)
  with create_first_fresh [OF assms, of t c T2 k d K fs] show ?thesis by metis
qed

text \<open>The settled path, when \<open>d\<close> settles the new promise with \<open>y\<close>.\<close>

lemma create_first_settled:
  assumes "closed_at s p T x"
    and d: "\<And>s1 q r j K. closed_at s1 p T x \<Longrightarrow> open_at s1 q r j T2 [] \<Longrightarrow>
      \<exists>s2. solo t s1 (Run c (bindP (d r j) K) # fs) s2 (Run c (K (Inr VVoid)) # fs) \<and>
        closed_at s2 q T2 y \<and> keeps q s1 s2"
  shows "\<exists>s' q. solo t s (Run c (bindP (create_first T2 p k d) K) # fs) s' (Run c (K (Inr (VPromise q))) # fs) \<and>
    closed_at s' q T2 y \<and> (\<forall>p. keeps p s s')"
proof -
  let ?w = "\<lambda>q rq jq w. case w of VId i \<Rightarrow> Return (VPromise q) | _ \<Rightarrow> thenP (d rq jq) (\<lambda>_. Return (VPromise q))"
  obtain s1 q r j where s1: "solo t s (Run c (bindP (create_first T2 p k d) K) # fs) s1
       (Run c (bindP (callP (OTryAwait p (k r j)) (?w q r j)) K) # fs)"
    "open_at s1 q r j T2 []" "\<forall>p. keeps p s s1" "q = length (promises s)"
    by (rule create_first_start)
  have p1: "closed_at s1 p T x" using assms(1) s1(3) keepsD(2) by blast
  have "solo t s1 (Run c (bindP (callP (OTryAwait p (k r j)) (?w q r j)) K) # fs) s1
      (Run c (bindP (thenP (d r j) (\<lambda>_. Return (VPromise q))) K) # fs)"
    using solo_bind_callP [OF TryAwait_settled [OF p1, of t "k r j"], of c "?w q r j" K fs] by simp
  moreover obtain s2 where s2: "solo t s1 (Run c (bindP (thenP (d r j) (\<lambda>_. Return (VPromise q))) K) # fs) s2
      (Run c (K (Inr (VPromise q))) # fs)" "closed_at s2 q T2 y" "keeps q s1 s2"
    using d [OF p1 s1(2), of "\<lambda>r. bindP (case r of Inl e \<Rightarrow> Throw e | Inr v \<Rightarrow> Return (VPromise q)) K"]
    by (auto simp: thenP_def bindP_assoc)
  ultimately show ?thesis
    using solo_trans [OF s1(1)] solo_trans keeps_fresh [OF s1(3) s2(3) s1(4)] by blast
qed

subsection \<open>Catch\<close>

definition catch_outcome ::
    "(string \<Rightarrow> string \<Rightarrow> bool) \<Rightarrow> cty \<Rightarrow> (val list \<Rightarrow> outcome) \<Rightarrow> val list \<Rightarrow> cty \<Rightarrow> outcome \<Rightarrow> outcome" where
  "catch_outcome isa ty g args T x =
     (let T2 = return_or_void_t ty in
      stored (catch_type T T2)
        (case x of
           Inr v \<Rightarrow> Inr (catch_value T T2 v)
         | Inl e \<Rightarrow> if catches isa ty e then map_sum id (catch_result T T2) (g (VExc e # args)) else Inl e))"

lemma catch_continuation_eq:
  "catch_continuation isa T T2 p (pure_fn ty g) args r j = Call (OOutcome p) (\<lambda>x.
     callP (settle_op r j (case x of
           Inr v \<Rightarrow> Inr (catch_value T T2 v)
         | Inl e \<Rightarrow> if catches isa ty e then map_sum id (catch_result T T2) (g (VExc e # args)) else Inl e))
       (\<lambda>_. Return VVoid))"
proof -
  have throw: "settle_with r j f (Throw e :: 'a prog) = callP (settle_op r j (Inl e)) (\<lambda>_. Return VVoid)" for e f
    using settle_with_pure [of r j f "Inl e"] by simp
  show ?thesis
    by (simp add: catch_continuation_def apply_handler_def settle_with_pure throw fun_eq_iff split: sum.split)
qed

lemma CatchPlain_eq:
  "CatchPlain isa T p f args =
     create_first (catch_type T (return_or_void_t (fn_type f))) p
       (catch_continuation isa T (return_or_void_t (fn_type f)) p f args)
       (catch_continuation isa T (return_or_void_t (fn_type f)) p f args)"
  by (simp add: CatchPlain_def create_first_def Let_def)

lemma settle_quietly:
  assumes "closed_at s p T x" "open_at s q r j T2 []"
  shows "\<exists>s'. solo t s (Run c (bindP (Call (OOutcome p) (\<lambda>x. callP (settle_op r j (h x)) (\<lambda>_. Return VVoid))) K) # fs) s'
      (Run c (K (Inr VVoid)) # fs) \<and> closed_at s' q T2 (stored T2 (h x)) \<and> keeps q s s'"
proof -
  obtain s' where s': "solo t s (Run c (bindP (callP (settle_op r j (h x)) (\<lambda>_. Return VVoid)) K) # fs) s'
      (Awaiters [] # Run c (bindP (Return VVoid) K) # fs)" "closed_at s' q T2 (stored T2 (h x))" "keeps q s s'"
    using assms(2) by (rule settle_bind)
  have "solo t s (Run c (bindP (Call (OOutcome p) (\<lambda>x. callP (settle_op r j (h x)) (\<lambda>_. Return VVoid))) K) # fs) s'
      (Awaiters [] # Run c (bindP (Return VVoid) K) # fs)"
    using Outcome_bind [OF assms(1), of t c "\<lambda>x. callP (settle_op r j (h x)) (\<lambda>_. Return VVoid)" K fs] s'(1)
    by (rule solo_trans)
  then show ?thesis using s'(2,3) solo_trans [OF _ solo_awaiters_nil] by fastforce
qed

interpretation catch_chain: chaining "\<lambda>T p. CatchPlain isa T p (pure_fn ty g) args"
  "\<lambda>T p. catch_continuation isa T (return_or_void_t ty) p (pure_fn ty g) args"
  "\<lambda>T. catch_type T (return_or_void_t ty)" "catch_outcome isa ty g args"
  for isa ty g args
proof (unfold_locales, goal_cases)
  case (1 s p T x t c K fs)
  then show ?case
    unfolding CatchPlain_eq pure_fn_sel catch_outcome_def Let_def
    by (rule create_first_settled) (unfold catch_continuation_eq, rule settle_quietly)
next
  case (2 s p r j T as t c K fs)
  then show ?case unfolding CatchPlain_eq pure_fn_sel by (rule create_first_pending)
next
  case 3
  then show ?case unfolding catch_continuation_eq catch_outcome_def Let_def by (rule continuation_rule)
qed

subsection \<open>Finally\<close>

definition finally_outcome :: "(val list \<Rightarrow> outcome) \<Rightarrow> cty \<Rightarrow> outcome \<Rightarrow> outcome" where
  "finally_outcome g T x = stored T (case g [] of Inl e \<Rightarrow> Inl e | Inr v \<Rightarrow> x)"

abbreviation plain_callback :: cty where
  "plain_callback \<equiv> TFunction TVoid []"

lemma not_promise_callback [simp]: "\<not> IS_PROMISE_FUNCTION plain_callback"
  by (simp add: promise_function_iff)

lemma finally_branches_eq:
  "finally_value T (pure_fn plain_callback g) r j v =
     callP (settle_op r j (case g [] of Inl e \<Rightarrow> Inl e | Inr w \<Rightarrow> Inr v)) (\<lambda>_. Return VVoid)"
  "finally_exception (pure_fn plain_callback g) j e =
     callP (settle_op r j (case g [] of Inl e \<Rightarrow> Inl e | Inr w \<Rightarrow> Inl e)) (\<lambda>_. Return VVoid)"
  by (simp_all add: finally_value_def finally_exception_def settle_with_pure split: sum.split)

lemma finally_awaiter_eq:
  "finally_awaiter T p (pure_fn plain_callback g) r j = Call (OOutcome p) (\<lambda>x.
     callP (settle_op r j (case g [] of Inl e \<Rightarrow> Inl e | Inr w \<Rightarrow> x)) (\<lambda>_. Return VVoid))"
  unfolding finally_awaiter_def
  by (simp add: finally_branches_eq [where r = r] fun_eq_iff split: sum.split)

lemma held_at_unique:
  "held_at s p T x rs \<Longrightarrow> held_at s p T' x' rs' \<Longrightarrow> T' = T \<and> x' = x \<and> rs' = rs"
  by (cases x; cases x') (auto simp: held_at_def)

lemma held_at_readers:
  assumes "held_at s q T x rs" "promises s' = upd_nth p g (promises s)" "resolvers s' = resolvers s"
    "\<And>y. p_type (g y) = p_type y" "\<And>y. p_resolver (g y) = p_resolver y"
  shows "held_at s' q T x (if q = p then p_readers (g (promises s ! q)) else rs)"
  using assms by (cases "q = p"; cases x) (auto simp: held_at_def)

lemma open_at_other:
  assumes "open_at s q r j T as" "q \<noteq> p"
  shows "open_at (upd_promise p g s) q r j T as"
  using assms by (intro open_at_cong [OF assms(1)]) auto

text \<open>What this thread does while it holds the settled promise \<open>p\<close> in shared mode.\<close>

lemma locked_keeps:
  assumes p: "closed_at s p T x" and k: "keeps q (lock_shared t p s) s2"
  shows "exec_op t (OUnlockShared p) s2 = Next (unlock_shared t p s2, [], Inr VVoid)"
    "keeps q s (unlock_shared t p s2)"
    "closed_at s2 n T' y \<Longrightarrow> closed_at (unlock_shared t p s2) n T' y"
proof -
  let ?s1 = "lock_shared t p s" and ?s3 = "unlock_shared t p s2"
  have s1: "open_at ?s1 q' r' j' T' as'" if "open_at s q' r' j' T' as'" for q' r' j' T' as'
  proof -
    have "q' \<noteq> p" using that p open_not_closed by blast
    then show ?thesis using that by (simp add: lock_shared_def open_at_other)
  qed
  have h1: "held_at ?s1 q' T' x' (if q' = p then t # rs else rs)" if "held_at s q' T' x' rs" for q' T' x' rs
    using held_at_readers [OF that, of ?s1 p "\<lambda>x. x\<lparr>p_readers := t # p_readers x\<rparr>"] that
    by (auto simp: lock_shared_def held_at_def)
  have p2: "held_at s2 p T x [t]" using h1 [OF p] keepsD(2) [OF k] by auto
  then show "exec_op t (OUnlockShared p) s2 = Next (?s3, [], Inr VVoid)"
    by (simp add: held_at_def valid_promise_def ret_def)
  have h3: "held_at ?s3 q' T' x' (if q' = p then remove1 t rs else rs)" if "held_at s2 q' T' x' rs" for q' T' x' rs
    using held_at_readers [OF that, of ?s3 p "\<lambda>x. x\<lparr>p_readers := remove1 t (p_readers x)\<rparr>"] that
    by (auto simp: unlock_shared_def held_at_def)
  show "keeps q s ?s3"
    unfolding keeps_def
  proof (intro conjI allI impI, elim conjE)
    fix q' r' j' T' as' assume "q' \<noteq> q" "open_at s q' r' j' T' as'"
    moreover from this have "q' \<noteq> p" using p open_not_closed by blast
    ultimately show "open_at ?s3 q' r' j' T' as'"
      using s1 keepsD(1) [OF k] by (simp add: unlock_shared_def open_at_other)
  next
    fix q' r' T' h as assume q': "q' \<noteq> q \<and> coro_with s q' r' T' h as"
    then have "q' \<noteq> p" using p running_not_closed by blast
    then have "coro_with ?s1 q' r' T' h as"
      using q' by (intro coro_at_cong [of s q' r' T' h as ?s1]) (auto simp: lock_shared_def)
    then have "coro_with s2 q' r' T' h as" using q' keepsD(3) [OF k] by blast
    then show "coro_with ?s3 q' r' T' h as"
      using \<open>q' \<noteq> p\<close> by (intro coro_at_cong [of s2 q' r' T' h as ?s3]) (auto simp: unlock_shared_def)
  next
    fix q' T' x' rs assume "held_at s q' T' x' rs"
    from h3 [OF keepsD(2) [OF k h1 [OF this]]] show "held_at ?s3 q' T' x' rs"
      by (auto split: if_splits)
  qed (use keepsD(4) [OF k] in \<open>simp add: unlock_shared_def lock_shared_def\<close>)
  show "closed_at ?s3 n T' y" if "closed_at s2 n T' y" using h3 [OF that] by (cases "n = p") simp_all
qed

lemma open_locked:
  assumes "closed_at s p T x" "open_at s q r j T2 as"
  shows "open_at (lock_shared t p s) q r j T2 as"
proof -
  have "q \<noteq> p" using assms open_not_closed by blast
  then show ?thesis using assms(2) by (simp add: lock_shared_def open_at_other)
qed

lemma settle_locked:
  assumes p: "closed_at s p T x" and q: "open_at s q r j T2 []"
    and f: "f x = bindP (callP (settle_op r j y) (\<lambda>_. Return VVoid)) (\<lambda>z. callP (OUnlockShared p) (\<lambda>_. finish z))"
  shows "\<exists>s'. solo t s (Run c (bindP (Call (OLockOutcome p) f) K) # fs) s' (Run c (K (Inr VVoid)) # fs) \<and>
    closed_at s' q T2 (stored T2 y) \<and> keeps q s s'"
proof -
  let ?U = "\<lambda>y. bindP (callP (OUnlockShared p) (\<lambda>_. finish y)) K"
  let ?s1 = "lock_shared t p s"
  have lk: "exec_op t (OLockOutcome p) s = Next (?s1, [], x)"
    using p closed_read [OF p] by (simp add: held_at_def valid_promise_def with_shared_def)
  obtain s2 where s2: "solo t ?s1 (Run c (bindP (callP (settle_op r j y) (\<lambda>_. Return VVoid)) ?U) # fs) s2
      (Awaiters [] # Run c (bindP (Return VVoid) ?U) # fs)" "closed_at s2 q T2 (stored T2 y)" "keeps q ?s1 s2"
    using open_locked [OF p q] by (rule settle_bind)
  note ul = locked_keeps [OF p s2(3)]
  let ?s3 = "unlock_shared t p s2"
  have "solo t s (Run c (bindP (Call (OLockOutcome p) f) K) # fs) ?s1
      (Run c (bindP (callP (settle_op r j y) (\<lambda>_. Return VVoid)) ?U) # fs)"
    using solo_bind_Call [OF lk, of c f K fs] f by (simp add: bindP_assoc)
  also have "solo t ?s1 (Run c (bindP (callP (settle_op r j y) (\<lambda>_. Return VVoid)) ?U) # fs) s2
      (Run c (?U (Inr VVoid)) # fs)"
    using solo_trans [OF s2(1) solo_awaiters_nil] by simp
  also have "solo t s2 (Run c (?U (Inr VVoid)) # fs) ?s3 (Run c (K (Inr VVoid)) # fs)"
    using solo_bind_callP [OF ul(1), of c "\<lambda>_. Return VVoid" K fs] by simp
  finally show ?thesis using ul(2) ul(3) [OF s2(2)] by blast
qed

text \<open>The exceptional branch on a settled void promise releases the lock before the callback.\<close>

lemma finally_settled_eq:
  "finally_settled T p (pure_fn plain_callback g) r j =
     (if is_void T
      then Call (OLockOutcome p) (\<lambda>x. case x of
             Inl e \<Rightarrow> callP (OUnlockShared p) (\<lambda>_. callP (settle_op r j (case g [] of Inl e \<Rightarrow> Inl e | Inr w \<Rightarrow> Inl e))
               (\<lambda>_. Return VVoid))
           | Inr v \<Rightarrow> bindP (callP (settle_op r j (case g [] of Inl e \<Rightarrow> Inl e | Inr w \<Rightarrow> Inr v)) (\<lambda>_. Return VVoid))
               (\<lambda>y. callP (OUnlockShared p) (\<lambda>_. finish y)))
      else finally_awaiter T p (pure_fn plain_callback g) r j)"
  unfolding finally_settled_def
  by (simp add: finally_branches_eq(1) finally_branches_eq(2) [where r = r])

lemma lock_unlock:
  assumes "closed_at s p T x"
  shows "exec_op t (OLockOutcome p) s = Next (lock_shared t p s, [], x)"
    "exec_op t (OUnlockShared p) (lock_shared t p s) = Next (s, [], Inr VVoid)"
proof -
  have p: "p < length (promises s)" "p_readers (promises s ! p) = []"
    using assms by (simp_all add: held_at_def)
  show "exec_op t (OLockOutcome p) s = Next (lock_shared t p s, [], x)"
    using p closed_read [OF assms] by (simp add: valid_promise_def with_shared_def)
  have eq: "(promises s ! p)\<lparr>p_readers := []\<rparr> = promises s ! p"
    using p(2) by (cases "promises s ! p") simp
  have "unlock_shared t p (lock_shared t p s) = s"
    using p by (simp add: unlock_shared_def lock_shared_def upd_promise_def upd_nth_def eq)
  then show "exec_op t (OUnlockShared p) (lock_shared t p s) = Next (s, [], Inr VVoid)"
    using p by (simp add: valid_promise_def ret_def lock_shared_def)
qed

lemma finally_settled_run:
  assumes p: "closed_at s p T x" and q: "open_at s q r j T []"
  shows "\<exists>s'. solo t s (Run c (bindP (finally_settled T p (pure_fn plain_callback g) r j) K) # fs) s'
      (Run c (K (Inr VVoid)) # fs) \<and> closed_at s' q T (finally_outcome g T x) \<and> keeps q s s'"
proof (cases "is_void T")
  case False
  then show ?thesis
    using settle_quietly [OF p q, where h = "\<lambda>x. case g [] of Inl e \<Rightarrow> Inl e | Inr w \<Rightarrow> x"]
    by (simp add: finally_settled_eq finally_awaiter_eq finally_outcome_def)
next
  case void: True
  let ?y = "case g [] of Inl e \<Rightarrow> Inl e | Inr w \<Rightarrow> x"
  show ?thesis
  proof (cases x)
    case (Inr v)
    show ?thesis
      unfolding finally_settled_eq if_P [OF void] finally_outcome_def
      by (rule settle_locked [OF p q]) (simp add: Inr split: sum.split)
  next
    case (Inl e)
    obtain s' where s': "solo t s (Run c (bindP (callP (settle_op r j ?y) (\<lambda>_. Return VVoid)) K) # fs) s'
        (Awaiters [] # Run c (bindP (Return VVoid) K) # fs)" "closed_at s' q T (stored T ?y)" "keeps q s s'"
      using q by (rule settle_bind)
    let ?m = "callP (OUnlockShared p) (\<lambda>_. callP (settle_op r j ?y) (\<lambda>_. Return VVoid))"
    have "solo t s (Run c (bindP (finally_settled T p (pure_fn plain_callback g) r j) K) # fs)
        (lock_shared t p s) (Run c (bindP ?m K) # fs)"
      unfolding finally_settled_eq if_P [OF void]
      by (rule solo_bind_Call0 [OF lock_unlock(1) [OF p]]) (simp_all add: Inl split: sum.split)
    also have "solo t (lock_shared t p s) (Run c (bindP ?m K) # fs) s
        (Run c (bindP (callP (settle_op r j ?y) (\<lambda>_. Return VVoid)) K) # fs)"
      using solo_bind_callP [OF lock_unlock(2) [OF p, of t], of c "\<lambda>_. callP (settle_op r j ?y) (\<lambda>_. Return VVoid)" K fs]
      by simp
    also note s'(1)
    also have "solo t s' (Awaiters [] # Run c (bindP (Return VVoid) K) # fs) s' (Run c (K (Inr VVoid)) # fs)"
      using solo_awaiters_nil by simp
    finally show ?thesis using s'(2,3) unfolding finally_outcome_def by blast
  qed
qed

lemma Finally_eq: "Finally T p f = create_first T p (finally_awaiter T p f) (finally_settled T p f)"
  by (simp add: Finally_def create_first_def)

interpretation finally_chain: chaining "\<lambda>T p. Finally T p (pure_fn plain_callback g)"
  "\<lambda>T p. finally_awaiter T p (pure_fn plain_callback g)" "\<lambda>T. T" "finally_outcome g"
  for g
proof (unfold_locales, goal_cases)
  case 1
  then show ?case unfolding Finally_eq by (rule create_first_settled) (rule finally_settled_run)
next
  case 2
  then show ?case unfolding Finally_eq by (rule create_first_pending)
next
  case 3
  then show ?case unfolding finally_awaiter_eq finally_outcome_def by (rule continuation_rule)
qed

subsection \<open>The laws\<close>

text \<open>
  C21. Then. A plain callback \<open>g\<close> chained to a pending promise that is settled afterwards, and the
  same callback chained to the settled promise, both give a promise with the same outcome: the
  exception of the source, or what \<open>g\<close> returns or throws on the value of the source.
\<close>

theorem Then_order_independent:
  assumes "open_at s p r j T []" "\<not> IS_PROMISE_FUNCTION ty"
  shows "\<exists>s1 q1 s2 q2.
    solo t s (Run c (bindP (Then T p (pure_fn ty g) args)
        (\<lambda>w. bindP (callP (settle_op r j x) (\<lambda>_. finish w)) K)) # fs) s1
      (Run c (K (Inr (VPromise q1))) # fs) \<and>
    solo t s (Run c (bindP (callP (settle_op r j x) (\<lambda>_. Then T p (pure_fn ty g) args)) K) # fs) s2
      (Run c (K (Inr (VPromise q2))) # fs) \<and>
    outcome_of s1 q1 = Some (then_result ty g args T (stored T x)) \<and>
    outcome_of s2 q2 = Some (then_result ty g args T (stored T x))"
proof -
  have "Then T p (pure_fn ty g) args = ThenPlain T p (pure_fn ty g) args"
    using assms(2) by (simp add: Then_def)
  with then_chain.chain_then_settle [OF assms(1)] then_chain.settle_then_chain [OF assms(1)]
  show ?thesis using closed_outcome by metis
qed

text \<open>
  C22. Catch. A plain handler \<open>g\<close> gives the same outcome whether it is attached before or after the
  promise settles: a value passes through, converted to the common result type; an exception that
  the handler's parameter catches is replaced by the handler's result; any other passes through.
\<close>

theorem Catch_order_independent:
  assumes "open_at s p r j T []" "\<not> IS_PROMISE_FUNCTION ty"
  shows "\<exists>s1 q1 s2 q2.
    solo t s (Run c (bindP (Catch isa T p (pure_fn ty g) args)
        (\<lambda>w. bindP (callP (settle_op r j x) (\<lambda>_. finish w)) K)) # fs) s1
      (Run c (K (Inr (VPromise q1))) # fs) \<and>
    solo t s (Run c (bindP (callP (settle_op r j x) (\<lambda>_. Catch isa T p (pure_fn ty g) args)) K) # fs) s2
      (Run c (K (Inr (VPromise q2))) # fs) \<and>
    outcome_of s1 q1 = Some (catch_outcome isa ty g args T (stored T x)) \<and>
    outcome_of s2 q2 = Some (catch_outcome isa ty g args T (stored T x))"
proof -
  have "Catch isa T p (pure_fn ty g) args = CatchPlain isa T p (pure_fn ty g) args"
    using assms(2) by (simp add: Catch_def)
  with catch_chain.chain_then_settle [OF assms(1)] catch_chain.settle_then_chain [OF assms(1)]
  show ?thesis using closed_outcome by metis
qed

text \<open>
  Finally. A plain callback runs on both outcomes; the promise it returns has the outcome of
  the source, unless the callback throws, whether it is attached before or after settling.
\<close>

theorem Finally_order_independent:
  assumes "open_at s p r j T []"
  shows "\<exists>s1 q1 s2 q2.
    solo t s (Run c (bindP (Finally T p (pure_fn plain_callback g))
        (\<lambda>w. bindP (callP (settle_op r j x) (\<lambda>_. finish w)) K)) # fs) s1
      (Run c (K (Inr (VPromise q1))) # fs) \<and>
    solo t s (Run c (bindP (callP (settle_op r j x) (\<lambda>_. Finally T p (pure_fn plain_callback g))) K) # fs) s2
      (Run c (K (Inr (VPromise q2))) # fs) \<and>
    outcome_of s1 q1 = Some (finally_outcome g T (stored T x)) \<and>
    outcome_of s2 q2 = Some (finally_outcome g T (stored T x))"
  using finally_chain.chain_then_settle [OF assms] finally_chain.settle_then_chain [OF assms]
    closed_outcome by metis

subsection \<open>The laws on a concrete promise\<close>

definition fresh_store :: "cty \<Rightarrow> unit store" where
  "fresh_store T = snd (snd (snd (Promise_Create T (empty_store ()))))"

lemma fresh_store_open: "open_at (fresh_store T) 0 0 0 T []"
  by (simp add: fresh_store_def Promise_Create_eq empty_store_def open_at_def)

definition increment :: "val list \<Rightarrow> outcome" where
  "increment vs = (case vs of VInt i # _ \<Rightarrow> Inr (VInt (i + 1)) | _ \<Rightarrow> Inl (Exc ''std::logic_error'' ''''))"

theorem Then_order_independent_witness:
  "\<exists>s1 q1. solo 0 (fresh_store TInt) [Run Plain (bindP (Then TInt 0 (pure_fn (TFunction TInt [TInt]) increment) [])
        (\<lambda>w. bindP (callP (settle_op 0 0 (Inr (VInt 4))) (\<lambda>_. finish w)) finish))] s1
      [Run Plain (Return (VPromise q1))] \<and> outcome_of s1 q1 = Some (Inr (VInt 5))"
proof -
  have "\<not> IS_PROMISE_FUNCTION (TFunction TInt [TInt])" by (simp add: promise_function_iff)
  moreover have "then_result (TFunction TInt [TInt]) increment [] TInt (stored TInt (Inr (VInt 4))) = Inr (VInt 5)"
    by code_simp
  ultimately show ?thesis
    using Then_order_independent [OF fresh_store_open [of TInt], where t = 0 and c = Plain and fs = "[]"
        and ty = "TFunction TInt [TInt]" and g = increment and args = "[]" and x = "Inr (VInt 4)" and K = finish]
    by auto
qed

definition recover :: "val list \<Rightarrow> outcome" where
  "recover vs = Inr (VString ''recovered'')"

theorem Catch_order_independent_witness:
  "\<exists>s1 q1. solo 0 (fresh_store TInt) [Run Plain (bindP (Catch (=) TInt 0 (pure_fn (TFunction TString [TNamed ''E'']) recover) [])
        (\<lambda>w. bindP (callP (settle_op 0 0 (Inl (Exc ''E'' ''boom''))) (\<lambda>_. finish w)) finish))] s1
      [Run Plain (Return (VPromise q1))] \<and> outcome_of s1 q1 = Some (Inr (VAlt 0 (VString ''recovered'')))"
proof -
  let ?ty = "TFunction TString [TNamed ''E'']"
  have "\<not> IS_PROMISE_FUNCTION ?ty" by (simp add: promise_function_iff)
  moreover have "catch_outcome (=) ?ty recover [] TInt (stored TInt (Inl (Exc ''E'' ''boom''))) =
      Inr (VAlt 0 (VString ''recovered''))" by code_simp
  ultimately show ?thesis
    using Catch_order_independent [OF fresh_store_open [of TInt], where t = 0 and c = Plain and fs = "[]"
        and isa = "(=)" and ty = ?ty and g = recover and args = "[]" and x = "Inl (Exc ''E'' ''boom'')" and K = finish]
    by auto
qed

theorem Finally_order_independent_witness:
  "\<exists>s1 q1. solo 0 (fresh_store TVoid) [Run Plain (bindP (Finally TVoid 0 (pure_fn plain_callback (\<lambda>_. Inr VVoid)))
        (\<lambda>w. bindP (callP (settle_op 0 0 (Inl (Exc ''E'' ''boom''))) (\<lambda>_. finish w)) finish))] s1
      [Run Plain (Return (VPromise q1))] \<and> outcome_of s1 q1 = Some (Inl (Exc ''E'' ''boom''))"
proof -
  have "finally_outcome (\<lambda>_. Inr VVoid) TVoid (stored TVoid (Inl (Exc ''E'' ''boom''))) = Inl (Exc ''E'' ''boom'')"
    by code_simp
  then show ?thesis
    using Finally_order_independent [OF fresh_store_open [of TVoid], where t = 0 and c = Plain and fs = "[]"
        and g = "\<lambda>_. Inr VVoid" and x = "Inl (Exc ''E'' ''boom'')" and K = finish]
    by auto
qed

end
