(* ===== verification/Wrapper.thy ===== *)
theory Wrapper
  imports Laws Samples
begin

text \<open>
  The public handle \<^verbatim>\<open>WPromise\<close> (include/promise/details/WPromise.inl): it visits the
  promise it owns and forwards to it, taking the lock for the queries. The chaining functions
  normalise a lambda to a \<^verbatim>\<open>std::function\<close> and, called on an rvalue, detach the promise.
\<close>

subsection \<open>Queries\<close>

definition WPromise_Done :: "pid \<Rightarrow> 'o prog" where
  "WPromise_Done p = callP (OIsDone p) Return"

definition WPromise_Resolved :: "pid \<Rightarrow> 'o prog" where
  "WPromise_Resolved p = callP (OIsResolved p) Return"

definition WPromise_Rejected :: "pid \<Rightarrow> 'o prog" where
  "WPromise_Rejected p = callP (OIsRejected p) Return"

definition WPromise_Value :: "pid \<Rightarrow> 'o prog" where
  "WPromise_Value p =
     callP (OIsDone p) (\<lambda>b. callP (OAssert (b = VBool True) ''details->IsDone(lock)'') (\<lambda>_.
       Call (OOutcome p) (\<lambda>x. case x of
           Inr v \<Rightarrow> Return v
         | Inl e \<Rightarrow> callP (OAssert False ''self.resolver_->value_'') Return)))"

text \<open>A null pointer is \<open>VNullopt\<close>.\<close>

definition WPromise_Exception :: "pid \<Rightarrow> 'o prog" where
  "WPromise_Exception p =
     callP (OIsDone p) (\<lambda>b. callP (OAssert (b = VBool True) ''details->IsDone(lock)'') (\<lambda>_.
       Call (OOutcome p) (\<lambda>x. Return (case x of Inl e \<Rightarrow> VSome (VExc e) | Inr v \<Rightarrow> VNullopt))))"

text \<open>Takes the lock in shared mode and calls a function that takes it again.\<close>

definition WPromise_Awaiters :: "pid \<Rightarrow> 'o prog" where
  "WPromise_Awaiters p =
     callP (OLockShared p) (\<lambda>_. callP (OAwaiters p) (\<lambda>n. callP (OUnlockShared p) (\<lambda>_. Return n)))"

definition WPromise_UseCount :: "pid \<Rightarrow> 'o prog" where
  "WPromise_UseCount p = callP (OUseCount p) Return"

subsection \<open>Blocking waits\<close>

definition WPromise_WaitDone :: "pid \<Rightarrow> 'o prog" where
  "WPromise_WaitDone p = callP (OWaitDone p) Return"

definition WPromise_WaitAwaited :: "pid \<Rightarrow> 64 word option \<Rightarrow> 'o prog" where
  "WPromise_WaitAwaited p current_count =
     (case current_count of
        Some n \<Rightarrow> callP (OWaitAwaited p n) Return
      | None \<Rightarrow> callP (OUseCount p) (\<lambda>v. case v of
            VId n \<Rightarrow> callP (OWaitAwaited p n) Return
          | _ \<Rightarrow> Return VVoid))"

text \<open>The destructor waits for a promise that is not done.\<close>

definition WPromise_destroy :: "pid \<Rightarrow> 'o prog" where
  "WPromise_destroy p =
     callP (OIsDone p) (\<lambda>b. if b = VBool True then Return VVoid else callP (OWaitDone p) Return)"

subsection \<open>Chaining\<close>

definition forward_self :: "bool \<Rightarrow> pid \<Rightarrow> 'o prog \<Rightarrow> 'o prog" where
  "forward_self rvalue p m = (if rvalue then detaching p m else m)"

definition WPromise_Then :: "bool \<Rightarrow> cty \<Rightarrow> pid \<Rightarrow> 'o fn \<Rightarrow> val list \<Rightarrow> 'o prog" where
  "WPromise_Then rvalue T p f args = forward_self rvalue p (Then T p (normalise f) args)"

definition WPromise_Catch ::
    "(string \<Rightarrow> string \<Rightarrow> bool) \<Rightarrow> bool \<Rightarrow> cty \<Rightarrow> pid \<Rightarrow> 'o fn \<Rightarrow> val list \<Rightarrow> 'o prog" where
  "WPromise_Catch isa rvalue T p f args = forward_self rvalue p (Catch isa T p (normalise f) args)"

definition WPromise_Finally :: "bool \<Rightarrow> cty \<Rightarrow> pid \<Rightarrow> 'o fn \<Rightarrow> 'o prog" where
  "WPromise_Finally rvalue T p f = forward_self rvalue p (Finally T p (normalise f))"

definition WPromise_Race :: "bool \<Rightarrow> cty \<Rightarrow> pid \<Rightarrow> cty \<Rightarrow> pid \<Rightarrow> rid \<Rightarrow> jid \<Rightarrow> 'o prog" where
  "WPromise_Race rvalue T p T2 race r j = forward_self rvalue p (Promise_Race T p T2 race r j)"

definition WPromise_Detach :: "pid \<Rightarrow> 'o prog" where
  "WPromise_Detach p = callP (ODetach p) Return"

text \<open>The constructor from a callable.\<close>

definition WPromise_from :: "'o fn \<Rightarrow> 'o prog" where
  "WPromise_from f = MakePromise f []"

text \<open>The static factories forward to the promise details.\<close>

definition WPromise_Resolve :: "cty \<Rightarrow> val \<Rightarrow> 'o prog" where
  "WPromise_Resolve T v = Promise_Resolve T v"

definition WPromise_Reject :: "cty \<Rightarrow> exc \<Rightarrow> 'o prog" where
  "WPromise_Reject T e = Promise_Reject T e"

definition WPromise_Create :: "cty \<Rightarrow> 'o prog" where
  "WPromise_Create T = callP (OCreate T) Return"

subsection \<open>The type-erased interface (VPromise)\<close>

text \<open>\<^verbatim>\<open>co_await promise.VAwait()\<close>: the awaitable of the promise, whose value is dropped.\<close>

definition VAwait :: "pid \<Rightarrow> (outcome \<Rightarrow> 'o prog) \<Rightarrow> 'o prog" where
  "VAwait p k = CoAwait p (\<lambda>x. k (map_sum id (\<lambda>_. VVoid) x))"

definition VDetach :: "pid \<Rightarrow> 'o prog" where
  "VDetach p = WPromise_Detach p"

subsection \<open>Correctness of the queries\<close>

text \<open>
  The queries agree with the outcome: on every reachable heap and for a thread that does not
  hold the promise, Done, Resolved and Rejected report whether there is an outcome, a value or an
  exception, and a promise is done exactly if it is resolved or rejected, never both.
\<close>

theorem queries_agree:
  assumes "reachable m" "p < length (promises (mem m))" "t \<notin> set (p_readers (promises (mem m) ! p))"
  shows "exec_op t (OIsDone p) (mem m) = Next (mem m, [], Inr (VBool (outcome_of (mem m) p \<noteq> None))) \<and>
    exec_op t (OIsResolved p) (mem m) =
      Next (mem m, [], Inr (VBool (\<exists>v. outcome_of (mem m) p = Some (Inr v)))) \<and>
    exec_op t (OIsRejected p) (mem m) =
      Next (mem m, [], Inr (VBool (\<exists>e. outcome_of (mem m) p = Some (Inl e))))"
proof -
  have ok: "store_ok (mem m)" using machine_ok_D(1) [OF reachable_machine_ok [OF assms(1)]] .
  from ok assms(2) show ?thesis
    by (cases rule: outcome_of_cases)
      (use assms(2,3) in \<open>auto simp: valid_promise_def with_shared_def IsDone_def IsResolved_def
        IsRejected_def ret_def\<close>)
qed

text \<open>
  WPromise::Awaiters never returns: it locks the promise in shared mode and calls a function
  that locks it again on the same thread, which is undefined behaviour for a shared mutex.
\<close>

theorem Awaiters_locks_twice:
  assumes "p < length (promises s)" "t \<notin> set (p_readers (promises s ! p))"
  shows "\<exists>s'. solo t s (Run c (WPromise_Awaiters p) # fs) s'
      (Run c (callP (OAwaiters p) (\<lambda>n. callP (OUnlockShared p) (\<lambda>_. Return n))) # fs) \<and>
    step_frame t (Run c (callP (OAwaiters p) (\<lambda>n. callP (OUnlockShared p) (\<lambda>_. Return n)))) fs s' =
      Fault (RecursiveLock p)"
proof -
  let ?s = "lock_shared t p s"
  let ?m = "callP (OAwaiters p) (\<lambda>n. callP (OUnlockShared p) (\<lambda>_. Return n))"
  have "exec_op t (OLockShared p) s = Next (?s, [], Inr VVoid)"
    using assms by (simp add: valid_promise_def with_shared_def ret_def)
  from solo_bind_callP [OF this, of c "\<lambda>_. ?m" finish fs]
  have "solo t s (Run c (WPromise_Awaiters p) # fs) ?s (Run c ?m # fs)"
    by (simp add: WPromise_Awaiters_def)
  moreover have "step_frame t (Run c ?m) fs ?s = Fault (RecursiveLock p)"
    using assms by (simp add: callP_def valid_promise_def with_shared_def lock_shared_def)
  ultimately show ?thesis by blast
qed

text \<open>A callback that looks at a promise.\<close>

definition looking_callback :: "pid \<Rightarrow> 'o fn" where
  "looking_callback p = Fn (TFunction TVoid []) (\<lambda>_. WPromise_Done p)"

text \<open>
  Finally on a fulfilled void promise runs its callback while the promise is locked in shared
  mode: a callback that looks at the promise (here with Done) locks it a second time on the same
  thread, which is undefined behaviour.
\<close>

theorem Finally_void_callback_locked:
  assumes "closed_at s p TVoid (Inr VVoid)"
  shows "\<exists>s' g. solo t s (Run c (finally_settled TVoid p (looking_callback p) r j) # fs) s' (Run c g # fs) \<and>
    step_frame t (Run c g) fs s' = Fault (RecursiveLock p)"
proof -
  let ?f = "looking_callback p"
  let ?g = "bindP (finally_value TVoid ?f r j VVoid) (\<lambda>y. callP (OUnlockShared p) (\<lambda>_. finish y))"
  have p: "p < length (promises s)" "p_readers (promises s ! p) = []"
    using assms by (simp_all add: held_at_def)
  have "solo t s (Run c (bindP (finally_settled TVoid p ?f r j) finish) # fs) (lock_shared t p s)
      (Run c (bindP ?g finish) # fs)"
    unfolding finally_settled_def if_P [OF is_void_def [THEN iffD2, OF refl]]
    by (rule solo_bind_Call0 [OF lock_unlock(1) [OF assms]]) simp_all
  then have "solo t s (Run c (finally_settled TVoid p ?f r j) # fs) (lock_shared t p s) (Run c ?g # fs)"
    by simp
  moreover have "step_frame t (Run c ?g) fs (lock_shared t p s) = Fault (RecursiveLock p)"
    using p by (simp add: finally_value_def looking_callback_def promise_function_iff settle_with_def
        WPromise_Done_def callP_def valid_promise_def with_shared_def lock_shared_def)
  ultimately show ?thesis by blast
qed

subsection \<open>On concrete promises\<close>

theorem queries_agree_witness:
  "exec_op 0 (OIsDone 0) (mem (await_machine True 18)) =
     Next (mem (await_machine True 18), [], Inr (VBool True))"
proof -
  have "0 < length (promises (mem (await_machine True 18)))"
    "0 \<notin> set (p_readers (promises (mem (await_machine True 18)) ! 0))"
    "outcome_of (mem (await_machine True 18)) 0 = Some (Inr (VInt 7))"
    by code_simp+
  then show ?thesis using queries_agree [OF reachable_await_machine, of 0 True 18 0] by simp
qed

theorem Awaiters_locks_twice_witness:
  "\<exists>s' g. solo 0 (fresh_store TInt) [Run Plain (WPromise_Awaiters 0)] s' [Run Plain g] \<and>
     step_frame 0 (Run Plain g) [] s' = Fault (RecursiveLock 0)"
proof -
  have "0 < length (promises (fresh_store TInt))" "0 \<notin> set (p_readers (promises (fresh_store TInt) ! 0))"
    by code_simp+
  then show ?thesis using Awaiters_locks_twice [of 0 "fresh_store TInt" 0 Plain "[]"] by blast
qed

definition void_store :: "unit store" where
  "void_store = upd_resolver 0 (\<lambda>r. r\<lparr>r_value := Some VVoid, r_resolved := True\<rparr>) (fresh_store TVoid)"

theorem Finally_void_callback_locked_witness:
  "\<exists>s' g. solo 0 void_store [Run Plain (finally_settled TVoid 0 (looking_callback 0) 1 1)] s' [Run Plain g] \<and>
     step_frame 0 (Run Plain g) [] s' = Fault (RecursiveLock 0)"
proof -
  have "closed_at void_store 0 TVoid (Inr VVoid)"
    by (simp add: void_store_def fresh_store_def Promise_Create_eq empty_store_def held_at_def upd_resolver_def upd_nth_def)
  then show ?thesis by (rule Finally_void_callback_locked)
qed

end
