(* ===== verification/Ownership.thy ===== *)
theory Ownership
  imports Wrapper
begin

text \<open>
  Who keeps a promise and its callable alive. The shared pointers of clients are not modelled; the
  two references inside a promise are: \<open>p_function\<close>, the holder of the callable and of the handles
  it was given, and \<open>p_self_owned\<close>, the reference a detached promise has to itself. The theory
  shows when they are dropped and when the assertions of the destructors hold
  (include/promise/details/Promise.inl, Handle.inl and WPromise.inl).
\<close>

subsection \<open>What an operation does to ownership\<close>

text \<open>The two references a promise keeps: its callable with its handles, and itself.\<close>

definition owned :: "'o promise \<Rightarrow> bool \<Rightarrow> bool" where
  "owned x pending \<longleftrightarrow>
     (p_function x \<longleftrightarrow> p_handle x \<noteq> NoHandle) \<and>
     (p_self_owned x \<longrightarrow> pending \<or> p_handle x \<noteq> NoHandle)"

definition owned_ok :: "'o store \<Rightarrow> bool" where
  "owned_ok s \<longleftrightarrow> (\<forall>p < length (promises s). owned (promises s ! p) (outcome_of s p = None))"

definition own_part :: "'o promise \<Rightarrow> bool \<times> bool \<times> 'o coroutine" where
  "own_part x = (p_function x, p_self_owned x, p_handle x)"

lemma owned_cong: "own_part x = own_part y \<Longrightarrow> owned x b = owned y b"
  by (simp add: owned_def own_part_def)

lemma owned_new [simp]: "owned (x\<lparr>p_resolver := r\<rparr>) b = owned x b" "owned (new_promise T w NoHandle) b"
  "owned ((new_promise T w (Initial g))\<lparr>p_resolver := r, p_function := True\<rparr>) b"
  by (simp_all add: owned_def)

lemma own_part_upd:
  assumes "\<And>x. own_part (g x) = own_part x"
  shows "own_part (upd_nth p g xs ! q) = own_part (xs ! q)"
  using nth_upd_nth_same [of own_part g p xs q] assms by simp

lemma resolve_op_promises: "resolve_op r x s = Next (s', new, y) \<Longrightarrow> promises s' = promises s"
  by (auto simp: resolve_op_def exchange_resolved_def Let_def split: if_splits)

lemma reject_op_promises: "reject_op j e s = Next (s', new, y) \<Longrightarrow> promises s' = promises s"
  by (auto simp: reject_op_def exchange_rejected_def Let_def dest!: resolve_op_promises split: if_splits)

text \<open>Ownership changes only by Detach, which needs a pending promise, and in new promises.\<close>

lemma exec_op_owned:
  assumes "exec_op t a s = Next (s', new, x)" "q < length (promises s)"
  shows "own_part (promises s' ! q) = own_part (promises s ! q) \<or>
    (IsDone s q = Next False \<and> promises s' ! q = (promises s ! q)\<lparr>p_self_owned := True\<rparr>)"
proof (cases a)
  case (OResolve r v)
  then show ?thesis using assms resolve_op_promises by fastforce
next
  case (OReject j e)
  then show ?thesis using assms reject_op_promises by fastforce
next
  case (OTryAwait p f)
  then show ?thesis using assms
    by (auto simp: valid_promise_def try_await_def with_unique_def Let_def ret_def own_part_def nth_upd_nth
        dest!: Await_function_Next split: if_splits)
next
  case (OTryAwaitNew p T f)
  then show ?thesis using assms
    by (auto simp: valid_promise_def try_await_new_def with_unique_def Let_def ret_def own_part_def
        Promise_Create_eq nth_upd_nth nth_append dest!: Await_function_Next split: if_splits)
next
  case (ODetach p)
  then show ?thesis using assms
    by (auto simp: valid_promise_def with_unique_def Let_def ret_def Detach_def nth_upd_nth split: if_splits)
qed (use assms in \<open>auto simp: op_ext_simps own_part_def Promise_Create_eq CreateImpl_eq UnAwait_def nth_append
      nth_upd_nth split: if_splits prod.splits\<close>)

lemma exec_op_created:
  assumes "exec_op t a s = Next (s', new, x)" "length (promises s) \<le> q" "q < length (promises s')"
  shows "owned (promises s' ! q) b"
proof (cases a)
  case (OResolve r v)
  then show ?thesis using assms resolve_op_promises by fastforce
next
  case (OReject j e)
  then show ?thesis using assms reject_op_promises by fastforce
next
  case (OTryAwait p f)
  then show ?thesis using assms
    by (auto simp: valid_promise_def try_await_def with_unique_def Let_def ret_def
        dest!: Await_function_Next split: if_splits)
next
  case (OTryAwaitNew p T f)
  then show ?thesis using assms
    by (auto simp: valid_promise_def try_await_new_def with_unique_def Let_def ret_def
        Promise_Create_eq nth_upd_nth nth_append dest!: Await_function_Next split: if_splits)
next
  case (ODetach p)
  then show ?thesis using assms
    by (auto simp: valid_promise_def with_unique_def Let_def ret_def Detach_def split: if_splits)
qed (use assms in \<open>auto simp: op_ext_simps Promise_Create_eq CreateImpl_eq UnAwait_def nth_append
      split: if_splits prod.splits\<close>)

subsection \<open>What a step does to ownership\<close>

lemma owned_ok_upd:
  assumes "owned_ok s" "keeps_links g"
    "p < length (promises s) \<Longrightarrow> owned (promises s ! p) (outcome_of s p = None) \<Longrightarrow>
       owned (g (promises s ! p)) (outcome_of s p = None)"
  shows "owned_ok (upd_promise p g s)"
  using assms(1,3) upd_promise_outcome [OF assms(2)] by (auto simp: owned_ok_def nth_upd_nth)

lemma owned_ok_op:
  assumes eff: "op_effect s s' new" and ok: "store_ok s" "owned_ok s"
    and old: "\<And>q. q < length (promises s) \<Longrightarrow> own_part (promises s' ! q) = own_part (promises s ! q) \<or>
      (IsDone s q = Next False \<and> promises s' ! q = (promises s ! q)\<lparr>p_self_owned := True\<rparr>)"
    and new: "\<And>q b. length (promises s) \<le> q \<Longrightarrow> q < length (promises s') \<Longrightarrow> owned (promises s' ! q) b"
  shows "owned_ok s'"
  unfolding owned_ok_def
proof (intro allI impI)
  fix q assume q: "q < length (promises s')"
  have lk: "linked s" using ok(1) by (simp add: store_ok_def)
  obtain ns ms ks where ext: "op_ext s ns ms ks s'" using eff by (auto simp: op_effect_def)
  show "owned (promises s' ! q) (outcome_of s' q = None)"
  proof (cases "q < length (promises s)")
    case True
    have "outcome_of s' q = outcome_of s q" by (rule op_ext_outcome [OF ext lk True])
    moreover have "owned (promises s ! q) (outcome_of s q = None)" using ok(2) True by (simp add: owned_ok_def)
    ultimately show ?thesis
      using old [OF True] IsDone_linked [OF lk True] by (auto simp: owned_def own_part_def)
  qed (use q new in simp)
qed

lemma OnResolved_owned:
  assumes on: "OnResolved p s = (as, s')" and p: "p < length (promises s)"
    and others: "\<And>q. q < length (promises s) \<Longrightarrow> q \<noteq> p \<Longrightarrow> owned (promises s ! q) (outcome_of s q = None)"
    and self: "p_function (promises s ! p) \<longleftrightarrow> p_handle (promises s ! p) \<noteq> NoHandle"
  shows "owned_ok s'"
  using on
proof (cases rule: OnResolved_cases)
  case settled
  then have "p_handle (promises s ! p) = NoHandle" by (simp add: Handle_Done_def split: coroutine.splits)
  moreover have "outcome_of s' q = outcome_of s q" for q using OnResolved_outcome(1) [OF on] .
  ultimately show ?thesis
    using others self p unfolding owned_ok_def settled(3) by (auto simp: nth_upd_nth owned_def)
next
  case busy
  then have "p_handle (promises s ! p) \<noteq> NoHandle" by (auto simp: Handle_Done_def)
  then have "owned (promises s ! q) (outcome_of s q = None)" if "q < length (promises s)" for q
    using others [OF that] self by (cases "q = p") (auto simp: owned_def)
  then show ?thesis unfolding owned_ok_def busy(3) by blast
qed

lemma settle_owned:
  assumes st: "settle t r x fs s = Next (s', st, new)" and ok: "linked s" "owned_ok s"
    and r: "r < length (resolvers s)" "resolver_outcome (resolvers s ! r) = None"
  shows "owned_ok s'"
proof -
  let ?s = "upd_resolver r (store_outcome x) s"
  obtain p as where p: "r_promise (resolvers s ! r) = Some p" and on: "OnResolved p ?s = (as, s')"
    using st by (auto simp: settle_def with_unique_def Let_def split: option.splits if_splits prod.splits)
  note eff = store_outcome_effect [OF ok(1) r(1) p r(2)]
  show ?thesis
  proof (rule OnResolved_owned [OF on])
    show "p < length (promises ?s)" using eff(6) by simp
    show "owned (promises ?s ! q) (outcome_of ?s q = None)" if "q < length (promises ?s)" "q \<noteq> p" for q
      using that ok(2) eff(3) [OF that(2)] by (simp add: owned_ok_def)
    show "p_function (promises ?s ! p) \<longleftrightarrow> p_handle (promises ?s ! p) \<noteq> NoHandle"
      using ok(2) eff(6) by (simp add: owned_ok_def owned_def)
  qed
qed

lemma final_cleanup_owned:
  assumes st: "final_cleanup t p fs s = Next (s', st, new)" and ok: "linked s" "owned_ok s" "p < length (promises s)"
  shows "owned_ok s'"
proof -
  let ?g = "\<lambda>y. y\<lparr>p_handle := NoHandle, p_function := False\<rparr>"
  let ?s = "upd_promise p ?g s"
  have k: "keeps_links ?g" by (simp add: keeps_links_def)
  have out: "outcome_of ?s q = outcome_of s q" for q by (rule upd_promise_outcome [OF k])
  have "IsDone ?s p = Next (done_at s p)"
    using IsDone_linked [of ?s p] out ok(1,3) upd_promise_linked [OF k] by auto
  then consider "s' = ?s" "outcome_of s p = None" | as where "OnResolved p ?s = (as, s')"
    using st by (auto simp: final_cleanup_def with_unique_def Let_def split: if_splits prod.splits)
  then show ?thesis
  proof cases
    case 1
    then show ?thesis using ok(2) k by (auto intro!: owned_ok_upd simp: owned_def)
  next
    case 2
    then show ?thesis
      by (rule OnResolved_owned) (use ok out in \<open>auto simp: owned_ok_def nth_upd_nth\<close>)
  qed
qed

lemma step_frame_owned:
  assumes st: "step_frame t f fs s = Next (s', st, new)"
    and ok: "store_ok s" "owned_ok s" "frame_ok s f"
  shows "owned_ok s'"
proof -
  have lk: "linked s" using ok(1) by (simp add: store_ok_def)
  show ?thesis
  proof (cases "(t, f, fs, s)" rule: step_frame.cases)
    case (7 t' c a k fs' s1)
    then obtain news x where ex: "exec_op t a s = Next (s', news, x)" using st by auto
    show ?thesis
      by (rule owned_ok_op [OF exec_op_effect [OF ex] ok(1,2) exec_op_owned [OF ex] exec_op_created [OF ex]])
  next
    case (8 t' r x fs' s1)
    then obtain news y where ex: "resolve_op r x s = Next (s', news, y)" using st by auto
    show ?thesis
      by (rule owned_ok_op [OF resolve_op_effect [OF ex] ok(1,2)]) (simp_all add: resolve_op_promises [OF ex])
  next
    case (9 t' r x fs' s1)
    then show ?thesis using st ok lk settle_owned [of t r x fs s s' st new] by simp
  next
    case (16 t' p fs' s1)
    then show ?thesis using st ok lk final_cleanup_owned [of t p fs s s' st new] by (simp add: running_def)
  qed (use st ok in \<open>auto simp: co_return_def co_await_def await_suspend_def resume_def final_suspend_def
        Await_coroutine_def valid_promise_def with_shared_def with_unique_def Let_def keeps_links_def
        running_handle ready_def owned_def
        intro!: owned_ok_upd split: if_splits option.splits coroutine.splits\<close>)
qed

lemma reachable_owned: "reachable m \<Longrightarrow> owned_ok (mem m)"
proof (induction rule: reachable.induct)
  case (reachable_init b gs)
  then show ?case by (simp add: init_def empty_store_def owned_ok_def)
next
  case (reachable_step m t m')
  note D = machine_ok_D [OF reachable_machine_ok [OF reachable_step(1)]]
  from reachable_step(2) show ?case
  proof (cases rule: step_cases)
    case (1 f fs s' st new)
    then show ?thesis using step_frame_owned [OF 1(3) D(1) reachable_step(3)] D(4) [OF 1(1)] by simp
  qed
qed

subsection \<open>When a promise is released\<close>

text \<open>
  C18. A promise is released with its coroutine. The callable of a promise and the handles it was
  given are alive exactly as long as the coroutine has not ended, and a detached promise keeps a
  reference to itself only while it is pending or its coroutine has not ended: once it is settled
  and its coroutine is over, on every interleaving, nothing inside the library keeps it alive.
\<close>

theorem released_with_coroutine:
  assumes "reachable m" "p < length (promises (mem m))"
  shows "(p_function (promises (mem m) ! p) \<longleftrightarrow> \<not> Handle_Done (mem m) p) \<and>
    (p_self_owned (promises (mem m) ! p) \<longrightarrow> outcome_of (mem m) p = None \<or> \<not> Handle_Done (mem m) p)"
  using reachable_owned [OF assms(1)] assms(2)
  by (auto simp: owned_ok_def owned_def Handle_Done_def split: coroutine.splits)

subsection \<open>Destructors\<close>

text \<open>details::~Promise, whose second assertion is about coroutines that return their value.\<close>

definition Promise_destroy :: "tid \<Rightarrow> pid \<Rightarrow> 'o store \<Rightarrow> unit result" where
  "Promise_destroy t p s =
     (if \<not> Handle_Done s p \<and> \<not> p_self_owned (promises s ! p)
      then Fault (AssertFailed (A_client ''this->self_owned_''))
      else if p_with_resolver (promises s ! p) then Next ()
      else with_shared t p s (bindR (IsDone s p) (\<lambda>d.
             if d then Next () else Fault (AssertFailed (A_client ''this->IsDone(lock)'')))))"

definition Handle_destroy :: "pid \<Rightarrow> 'o store \<Rightarrow> unit result" where
  "Handle_destroy p s =
     (if Handle_Done s p then Next () else Fault (AssertFailed (A_client ''!this->handle_'')))"

text \<open>The last reference to a promise is dropped: the destructor and the one of the base class.\<close>

definition delete_promise :: "tid \<Rightarrow> pid \<Rightarrow> 'o store \<Rightarrow> unit result" where
  "delete_promise t p s = bindR (Promise_destroy t p s) (\<lambda>_. Handle_destroy p s)"

lemma delete_promise_done:
  assumes "linked s" "p < length (promises s)" "t \<notin> set (p_readers (promises s ! p))"
    "p_with_resolver (promises s ! p) \<or> \<not> Handle_Done s p \<or> outcome_of s p \<noteq> None"
  shows "delete_promise t p s = Next () \<longleftrightarrow> Handle_Done s p"
  using assms IsDone_linked [OF assms(1,2)]
  by (auto simp: delete_promise_def Promise_destroy_def Handle_destroy_def with_shared_def)

text \<open>
  The assertions of the destructors. Once all threads are idle, destroying a promise passes the
  assertions of its two destructors exactly if its coroutine has ended (or it never had one); a
  promise whose coroutine is still suspended fails one of them, detached or not.
\<close>

theorem destructor_assertions:
  assumes "reachable m" "quiescent m" "p < length (promises (mem m))"
    "t \<notin> set (p_readers (promises (mem m) ! p))"
  shows "delete_promise t p (mem m) = Next () \<longleftrightarrow> Handle_Done (mem m) p"
proof -
  have lk: "linked (mem m)" using machine_ok_D(3) [OF reachable_machine_ok [OF assms(1)]] .
  show ?thesis
    using delete_promise_done [OF lk assms(3,4)] idle_coroutine_settled [OF assms(1-3)] by blast
qed

text \<open>
  C34. The destructor of WPromise. When the promise is settled it returns at once, although the
  coroutine of a resolver promise may still be suspended, and then the assertions of the promise's
  own destructor fail: settling does not wait for the coroutine. When it has to wait for a pending
  promise, it returns only once the coroutine has ended too, and these assertions hold.
\<close>

theorem WPromise_destructor_ignores_coroutine:
  fixes m :: "'o machine"
  assumes "reachable m" "p < length (promises (mem m))" "t \<notin> set (p_readers (promises (mem m) ! p))"
  shows "if outcome_of (mem m) p \<noteq> None
    then solo t (mem m) (Run c (WPromise_destroy p) # fs) (mem m) (Run c (Return VVoid) # fs) \<and>
      (delete_promise t p (mem m) = Next () \<longleftrightarrow> Handle_Done (mem m) p)
    else solo t (mem m) (Run c (WPromise_destroy p) # fs) (mem m) (Run c (callP (OWaitDone p) Return) # fs) \<and>
      (\<forall>(m' :: 'o machine) s x. reachable m' \<and> exec_op t (OWaitDone p) (mem m') = Next (s, [], x) \<longrightarrow>
         delete_promise t p s = Next ())"
proof -
  have lk: "linked (mem m)" using machine_ok_D(3) [OF reachable_machine_ok [OF assms(1)]] .
  let ?d = "outcome_of (mem m) p \<noteq> None"
  have "exec_op t (OIsDone p) (mem m) = Next (mem m, [], Inr (VBool ?d))"
    using assms(2,3) IsDone_linked [OF lk assms(2)]
    by (simp add: valid_promise_def with_shared_def ret_def)
  from solo_call [OF this, of c "\<lambda>r. case r of Inl e \<Rightarrow> Throw e
      | Inr b \<Rightarrow> if b = VBool True then Return VVoid else callP (OWaitDone p) Return" fs]
  have run: "solo t (mem m) (Run c (WPromise_destroy p) # fs) (mem m)
      (Run c (if ?d then Return VVoid else callP (OWaitDone p) Return) # fs)"
    by (simp add: WPromise_destroy_def callP_def)
  have wait: "delete_promise t p s = Next ()"
    if "reachable m'" "exec_op t (OWaitDone p) (mem m') = Next (s, [], x)" for m' :: "'o machine" and s x
  proof -
    have lk': "linked (mem m')" using machine_ok_D(3) [OF reachable_machine_ok [OF that(1)]] .
    have "s = mem m'" "p < length (promises s)" "Handle_Done s p" "IsDone s p = Next True"
      "t \<notin> set (p_readers (promises s ! p))"
      using that(2) by (auto simp: valid_promise_def with_shared_def ret_def split: if_splits)
    then show ?thesis
      using delete_promise_done [of s p t] IsDone_linked [of s p] lk' by simp
  qed
  show ?thesis
  proof (cases ?d)
    case True
    then show ?thesis using run delete_promise_done [OF lk assms(2,3)] by simp
  next
    case False
    then show ?thesis using run wait unfolding if_not_P [OF False] by blast
  qed
qed

subsection \<open>Starting a promise by hand\<close>

text \<open>
  Promise::operator(): with a resolver it attaches the resolver first and then resumes the
  coroutine, if there is one; without, it resumes the coroutine.
\<close>

definition Promise_start_resolver :: "pid \<Rightarrow> rid \<Rightarrow> 'o store \<Rightarrow> ('o store \<times> 'o frame list) result" where
  "Promise_start_resolver p r s =
     (if p_resolver (promises s ! p) \<noteq> None then Fault (AssertFailed (A_client ''!this->resolver_''))
      else (let s' = upd_promise p (\<lambda>x. x\<lparr>p_resolver := Some r\<rparr>) s in
            Next (s', if Handle_Done s p then [] else [Resume p])))"

definition Promise_start :: "pid \<Rightarrow> 'o store \<Rightarrow> ('o store \<times> 'o frame list) result" where
  "Promise_start p s = Next (s, [Resume p])"

text \<open>
  No promise that the library hands out can be started this way: all of them have a resolver and
  a coroutine that was resumed when it was created.
\<close>

lemma Promise_start_resolver_fails:
  assumes "reachable m" "p < length (promises (mem m))"
  shows "Promise_start_resolver p r (mem m) = Fault (AssertFailed (A_client ''!this->resolver_''))"
proof -
  have "linked (mem m)" using machine_ok_D(3) [OF reachable_machine_ok [OF assms(1)]] .
  then obtain r' where "p_resolver (promises (mem m) ! p) = Some r'"
    using assms(2) by (rule linked_resolver_of)
  then show ?thesis by (simp add: Promise_start_resolver_def)
qed

subsection \<open>On concrete runs\<close>

text \<open>A coroutine that resolves its promise and then waits for a promise nobody settles.\<close>

definition early_sample :: "unit prog" where
  "early_sample =
     callP (OCreate TInt) (\<lambda>v. with_handles v (\<lambda>p r j.
       callP (OStart TInt True (\<lambda>r' j'. callP (OResolve r' (VInt 1)) (\<lambda>_. CoAwait p finish))) Return))"

definition early_machine :: "unit machine" where
  "early_machine = after (init () [early_sample]) (replicate 9 0)"

lemma reachable_early_machine [simp]: "reachable early_machine"
  unfolding early_machine_def by (intro reachable_after reachable_init)

theorem released_with_coroutine_witness:
  "p_function (promises (mem early_machine) ! 1) \<and> outcome_of (mem early_machine) 1 = Some (Inr (VInt 1))"
proof -
  have "1 < length (promises (mem early_machine))" "\<not> Handle_Done (mem early_machine) 1"
    "outcome_of (mem early_machine) 1 = Some (Inr (VInt 1))" by code_simp+
  then show ?thesis using released_with_coroutine [OF reachable_early_machine] by blast
qed

theorem destructor_assertions_witness:
  "delete_promise 0 0 (mem early_machine) = Next () \<and> delete_promise 0 1 (mem early_machine) \<noteq> Next ()"
proof -
  have "quiescent early_machine" "0 < length (promises (mem early_machine))" "1 < length (promises (mem early_machine))"
    "0 \<notin> set (p_readers (promises (mem early_machine) ! 0))" "0 \<notin> set (p_readers (promises (mem early_machine) ! 1))"
    "Handle_Done (mem early_machine) 0" "\<not> Handle_Done (mem early_machine) 1" by code_simp+
  then show ?thesis using destructor_assertions [OF reachable_early_machine] by blast
qed

theorem WPromise_destructor_ignores_coroutine_witness:
  "solo 0 (mem early_machine) [Run Plain (WPromise_destroy 1)] (mem early_machine) [Run Plain (Return VVoid)] \<and>
   delete_promise 0 1 (mem early_machine) \<noteq> Next ()"
proof -
  have "1 < length (promises (mem early_machine))" "0 \<notin> set (p_readers (promises (mem early_machine) ! 1))"
    "outcome_of (mem early_machine) 1 \<noteq> None" "\<not> Handle_Done (mem early_machine) 1" by code_simp+
  then show ?thesis
    using WPromise_destructor_ignores_coroutine [OF reachable_early_machine, of 1 0 Plain "[]"] by simp
qed

end
