(* ===== verification/Combinators.thy ===== *)
theory Combinators
  imports Laws
begin

text \<open>
  What \<^verbatim>\<open>MakePromise\<close>, \<^verbatim>\<open>All\<close> and \<^verbatim>\<open>Race\<close> compute on promises that are already
  settled. A coroutine is followed from its creation to the step that clears its handle.
\<close>

subsection \<open>The life of a coroutine that does not suspend\<close>

lemma Start_rule:
  obtains s' p r j where
    "solo t s (Run c (bindP (callP (OStart T False b) f) K) # fs) s'
       (Run (Coroutine p) (b r j) # Run c (bindP (f (VTuple [VPromise p, VResolve r, VReject j])) K) # fs)"
    "running_at s' p r T" "\<forall>q. keeps q s s'" "p = length (promises s)"
proof -
  let ?p = "length (promises s)" and ?r = "length (resolvers s)" and ?j = "length (rejects s)"
  let ?x = "(new_promise T False (Initial (b ?r ?j)))\<lparr>p_resolver := Some ?r, p_function := True\<rparr>"
  let ?s1 = "s\<lparr>promises := promises s @ [?x], resolvers := resolvers s @ [linked_resolver T ?p],
      rejects := rejects s @ [\<lparr>j_resolver = ?r, j_rejected = False\<rparr>]\<rparr>"
  let ?s2 = "upd_promise ?p (\<lambda>y. y\<lparr>p_handle := Running\<rparr>) ?s1"
  let ?h = "VTuple [VPromise ?p, VResolve ?r, VReject ?j]"
  have "exec_op t (OStart T False b) s = Next (?s1, [Resume ?p], Inr ?h)"
    by (simp add: CreateImpl_eq)
  from solo_bind_callP [OF this, of c f K fs]
  have "solo t s (Run c (bindP (callP (OStart T False b) f) K) # fs) ?s1
      (Resume ?p # Run c (bindP (f ?h) K) # fs)" by simp
  also have "solo t ?s1 (Resume ?p # Run c (bindP (f ?h) K) # fs) ?s2
      (Run (Coroutine ?p) (b ?r ?j) # Run c (bindP (f ?h) K) # fs)"
    by (rule solo_one) (simp add: resume_def)
  finally have run: "solo t s (Run c (bindP (callP (OStart T False b) f) K) # fs) ?s2
      (Run (Coroutine ?p) (b ?r ?j) # Run c (bindP (f ?h) K) # fs)" .
  have "running_at ?s2 ?p ?r T" by (simp add: coro_at_def)
  moreover have "\<forall>q. keeps q s ?s2"
    by (intro allI keeps_extend) auto
  ultimately show thesis using that run by blast
qed

lemma final_suspend_run:
  assumes "coro_with s p r T Running as"
  shows "\<exists>s'. solo t s (Run (Coroutine p) (finish y) # fs) s' (Exchange r (stored T y) # FinalCleanup p # fs) \<and>
    coro_with s' p r T Running as \<and> resolvers s' = resolvers s \<and> rejects s' = rejects s \<and>
    (\<forall>q. q \<noteq> p \<longrightarrow> promises s' ! q = promises s ! q) \<and> length (promises s') = length (promises s) \<and>
    objects s' = objects s"
proof -
  note o = assms [unfolded coro_at_def]
  let ?y = "promises s ! p"
  define d where "d = (case y of Inl e \<Rightarrow> Some (Inl e) | Inr v \<Rightarrow> if is_void T then None else Some (Inr v))"
  let ?s1 = "upd_promise p (\<lambda>y. y\<lparr>p_delayed_return := d\<rparr>) s"
  let ?s2 = "upd_promise p (\<lambda>y. y\<lparr>p_delayed_return := None\<rparr>) ?s1"
  let ?s = "if d = None then ?s1 else ?s2"
  have "step_frame t (Run (Coroutine p) (finish y)) fs s = co_return p y fs s" by (cases y) auto
  also have "\<dots> = Next (?s1, FinalSuspend p # fs, [])"
    using o by (cases y) (auto simp: co_return_def d_def void_coroutine_def Let_def)
  finally have "solo t s (Run (Coroutine p) (finish y) # fs) ?s1 (FinalSuspend p # fs)" by (rule solo_one)
  also have "step_frame t (FinalSuspend p) fs ?s1 = Next (?s, Exchange r (stored T y) # FinalCleanup p # fs, [])"
    using o by (cases y) (auto simp: final_suspend_def d_def stored_def Let_def)
  then have "solo t ?s1 (FinalSuspend p # fs) ?s (Exchange r (stored T y) # FinalCleanup p # fs)"
    by (rule solo_one)
  finally have "solo t s (Run (Coroutine p) (finish y) # fs) ?s (Exchange r (stored T y) # FinalCleanup p # fs)" .
  moreover have "coro_with ?s p r T Running as" using o by (auto simp: coro_at_def)
  ultimately show ?thesis by (intro exI [of _ ?s]) auto
qed

lemma exchange_run:
  assumes "coro_with s p r T Running as"
  shows "\<exists>s'. solo t s (Exchange r x # FinalCleanup p # fs) s' (Awaiters as # fs) \<and> closed_at s' p T (stored T x) \<and>
    (\<forall>q. q \<noteq> p \<longrightarrow> promises s' ! q = promises s ! q) \<and> (\<forall>q. q \<noteq> r \<longrightarrow> resolvers s' ! q = resolvers s ! q) \<and>
    rejects s' = rejects s \<and> length (promises s') = length (promises s) \<and>
    length (resolvers s') = length (resolvers s) \<and> objects s' = objects s"
proof -
  note o = assms [unfolded coro_at_def]
  let ?s1 = "upd_resolver r (\<lambda>x. x\<lparr>r_resolved := True\<rparr>) s"
  let ?s2 = "upd_resolver r (store_outcome x) ?s1"
  let ?s3 = "upd_promise p (\<lambda>y. y\<lparr>p_handle := NoHandle, p_function := False\<rparr>) ?s2"
  let ?s4 = "upd_promise p (\<lambda>y. y\<lparr>p_awaiters := [], p_self_owned := False\<rparr>) ?s3"
  have "solo t s (Exchange r x # FinalCleanup p # fs) ?s1 (Settle r x # FinalCleanup p # fs)"
    using o by (intro solo_one) (simp add: resolve_op_def exchange_resolved_def)
  also have "solo t ?s1 (Settle r x # FinalCleanup p # fs) ?s2 (Awaiters [] # FinalCleanup p # fs)"
    using o by (intro solo_one) (simp add: settle_def with_unique_def Resolver_Done_def OnResolved_def
        Handle_Done_def Let_def)
  also have "solo t ?s2 (Awaiters [] # FinalCleanup p # fs) ?s2 (FinalCleanup p # fs)"
    by (rule solo_awaiters_nil)
  also have "IsDone ?s3 p = Next True"
    using o by (cases x) (auto simp: IsDone_def)
  then have "solo t ?s2 (FinalCleanup p # fs) ?s4 (Awaiters as # fs)"
    using o by (intro solo_one) (simp add: final_cleanup_def with_unique_def OnResolved_def Handle_Done_def Let_def)
  finally have "solo t s (Exchange r x # FinalCleanup p # fs) ?s4 (Awaiters as # fs)" .
  moreover have "closed_at ?s4 p T (stored T x)"
    using o by (cases x) (auto simp: held_at_def stored_def)
  ultimately show ?thesis by (intro exI [of _ ?s4]) auto
qed

lemma keeps_running:
  assumes o: "coro_with s p r T Running as"
    and s': "\<forall>q. q \<noteq> p \<longrightarrow> promises s' ! q = promises s ! q" "\<forall>q. q \<noteq> r \<longrightarrow> resolvers s' ! q = resolvers s ! q"
      "rejects s' = rejects s" "length (promises s') = length (promises s)"
      "length (resolvers s') = length (resolvers s)" "objects s' = objects s"
  shows "keeps p s s'"
  unfolding keeps_def
proof (intro conjI allI impI)
  fix q r' j' T' as' assume q: "q \<noteq> p \<and> open_at s q r' j' T' as'"
  moreover from this o have "r' \<noteq> r" by (auto simp: open_at_def coro_at_def)
  ultimately show "open_at s' q r' j' T' as'"
    using s' by (intro open_at_cong [of s q r' j' T' as' s']) auto
next
  fix q r' T' h bs assume q: "q \<noteq> p \<and> coro_with s q r' T' h bs"
  moreover from this o have "r' \<noteq> r" by (auto simp: coro_at_def)
  ultimately show "coro_with s' q r' T' h bs"
    using s' by (intro coro_at_cong [of s q r' T' h bs s']) auto
next
  fix q T' x rs assume q: "held_at s q T' x rs"
  then have "q \<noteq> p" using o running_not_closed by blast
  moreover have "r_promise (resolvers s ! r) = Some p" using o by (simp add: coro_at_def)
  ultimately have "resolvers s' ! r' = resolvers s ! r'" if "r_promise (resolvers s ! r') = Some q" for r'
    using that s'(2) by (cases "r' = r") auto
  with q \<open>q \<noteq> p\<close> s' show "held_at s' q T' x rs"
    by (intro held_at_cong [of s q T' x rs s']) auto
qed (rule s'(6))

text \<open>A coroutine that returns or throws settles its promise and ends; its awaiters are next.\<close>

lemma coroutine_end_awaiters:
  assumes "coro_with s p r T Running as"
  shows "\<exists>s'. solo t s (Run (Coroutine p) (finish y) # fs) s' (Awaiters as # fs) \<and> closed_at s' p T (stored T y) \<and> keeps p s s'"
proof -
  obtain s1 where s1: "solo t s (Run (Coroutine p) (finish y) # fs) s1 (Exchange r (stored T y) # FinalCleanup p # fs)"
    "coro_with s1 p r T Running as" "resolvers s1 = resolvers s" "rejects s1 = rejects s"
    "\<forall>q. q \<noteq> p \<longrightarrow> promises s1 ! q = promises s ! q" "length (promises s1) = length (promises s)"
    "objects s1 = objects s"
    using final_suspend_run [OF assms, of t y fs] by blast
  obtain s2 where s2: "solo t s1 (Exchange r (stored T y) # FinalCleanup p # fs) s2 (Awaiters as # fs)"
    "closed_at s2 p T (stored T (stored T y))"
    "\<forall>q. q \<noteq> p \<longrightarrow> promises s2 ! q = promises s1 ! q" "\<forall>q. q \<noteq> r \<longrightarrow> resolvers s2 ! q = resolvers s1 ! q"
    "rejects s2 = rejects s1" "length (promises s2) = length (promises s1)"
    "length (resolvers s2) = length (resolvers s1)" "objects s2 = objects s1"
    using exchange_run [OF s1(2), of t "stored T y" fs] by blast
  have "keeps p s s2" using s1 s2 by (intro keeps_running [OF assms]) auto
  then show ?thesis using solo_trans [OF s1(1) s2(1)] s2(2) by auto
qed

lemma coroutine_end:
  assumes "running_at s p r T"
  shows "\<exists>s'. solo t s (Run (Coroutine p) (finish y) # fs) s' fs \<and> closed_at s' p T (stored T y) \<and> keeps p s s'"
  using coroutine_end_awaiters [OF assms, of t y fs] solo_trans [OF _ solo_awaiters_nil] by blast

subsection \<open>Awaiting settled promises\<close>

lemma closed_await: "held_at s p T x rs \<Longrightarrow> await_resume s p = Next x"
  by (cases x) (auto simp: held_at_def await_resume_def GetException_def GetValue_def IsResolved_def)

lemma CoAwait_rule:
  "closed_at s q T x \<Longrightarrow>
     solo t s (Run (Coroutine p) (CoAwait q k) # fs) s (Run (Coroutine p) (k x) # fs)"
  using closed_IsDone [of s q T x "[]"] closed_await [of s q T x "[]"]
  by (intro solo_one) (simp add: co_await_def valid_promise_def with_shared_def held_at_def)

text \<open>The values in order, or the first exception.\<close>

fun gather :: "outcome list \<Rightarrow> val list \<Rightarrow> exc + val list" where
  "gather [] vs = Inr vs"
| "gather (Inl e # xs) vs = Inl e"
| "gather (Inr v # xs) vs = gather xs (vs @ [v])"

definition all_outcome :: "cty \<Rightarrow> outcome list \<Rightarrow> outcome" where
  "all_outcome T xs = map_sum id (\<lambda>vs. if is_void T then VVoid else VVector vs) (gather xs [])"

lemma all_loop_run:
  assumes "list_all2 (\<lambda>p x. closed_at s p T x) ps xs"
  shows "solo t s (Run (Coroutine c) (all_loop T ps vs) # fs) s
    (Run (Coroutine c) (finish (map_sum id (\<lambda>vs. if is_void T then VVoid else VVector vs) (gather xs vs))) # fs)"
  using assms
proof (induction ps xs arbitrary: vs rule: list_all2_induct)
  case Nil
  show ?case by (simp add: solo_refl)
next
  case (Cons p ps x xs)
  have "solo t s (Run (Coroutine c) (all_loop T (p # ps) vs) # fs) s
      (Run (Coroutine c) (case x of Inl e \<Rightarrow> Throw e | Inr v \<Rightarrow> all_loop T ps (vs @ [v])) # fs)"
    using CoAwait_rule [OF Cons(1)] by simp
  with Cons(3) show ?case by (cases x) (auto intro: solo_trans)
qed

lemma MakePromise_coroutine:
  "MakePromise (Fn (TFunction (TIPromise T False) []) b) [] =
     callP (OStart T False (\<lambda>r j. b [])) (\<lambda>h. with_handles h (\<lambda>p r j. Return (VPromise p)))"
  by (simp add: MakePromise_def MakePromise_overload_def promise_defs MakeCoroutine_promise_def
      resolver_args_def function_constructible.simps)

text \<open>A coroutine made from a body that ends without suspending, in a store of which \<open>P\<close> holds.\<close>

lemma MakePromise_run_new:
  assumes body: "\<And>s1 p r. running_at s1 p r T \<Longrightarrow> \<forall>q. keeps q s s1 \<Longrightarrow> p = length (promises s) \<Longrightarrow>
      \<exists>s2. solo t s1 (Run (Coroutine p) (b []) # Run c (K (Inr (VPromise p))) # fs) s2
          (Run (Coroutine p) (finish y) # Run c (K (Inr (VPromise p))) # fs) \<and> running_at s2 p r T \<and> P p s2"
  shows "\<exists>s' q s2. solo t s (Run c (bindP (MakePromise (Fn (TFunction (TIPromise T False) []) b) []) K) # fs) s'
      (Run c (K (Inr (VPromise q))) # fs) \<and> closed_at s' q T (stored T y) \<and> keeps q s2 s' \<and> P q s2 \<and> q = length (promises s)"
proof -
  let ?f = "\<lambda>h. with_handles h (\<lambda>p r j. Return (VPromise p))"
  obtain s1 p r j where s1: "solo t s (Run c (bindP (callP (OStart T False (\<lambda>r j. b [])) ?f) K) # fs) s1
       (Run (Coroutine p) (b []) # Run c (bindP (?f (VTuple [VPromise p, VResolve r, VReject j])) K) # fs)"
    "running_at s1 p r T" "\<forall>q. keeps q s s1" "p = length (promises s)"
    by (rule Start_rule)
  obtain s2 where s2: "solo t s1 (Run (Coroutine p) (b []) # Run c (K (Inr (VPromise p))) # fs) s2
          (Run (Coroutine p) (finish y) # Run c (K (Inr (VPromise p))) # fs)" "running_at s2 p r T" "P p s2"
    using body [OF s1(2,3,4)] by blast
  obtain s3 where s3: "solo t s2 (Run (Coroutine p) (finish y) # Run c (K (Inr (VPromise p))) # fs) s3
      (Run c (K (Inr (VPromise p))) # fs)" "closed_at s3 p T (stored T y)" "keeps p s2 s3"
    using coroutine_end [OF s2(2)] by blast
  have "solo t s (Run c (bindP (MakePromise (Fn (TFunction (TIPromise T False) []) b) []) K) # fs) s3
      (Run c (K (Inr (VPromise p))) # fs)"
    using s1(1) s2(1) s3(1) unfolding MakePromise_coroutine by (simp add: solo_trans)
  then show ?thesis using s2(3) s3(2,3) s1(4) by blast
qed

lemma MakePromise_run_in:
  assumes "\<And>s1 p r. running_at s1 p r T \<Longrightarrow> \<forall>q. keeps q s s1 \<Longrightarrow>
      \<exists>s2. solo t s1 (Run (Coroutine p) (b []) # Run c (K (Inr (VPromise p))) # fs) s2
          (Run (Coroutine p) (finish y) # Run c (K (Inr (VPromise p))) # fs) \<and> running_at s2 p r T \<and> P p s2"
  shows "\<exists>s' q s2. solo t s (Run c (bindP (MakePromise (Fn (TFunction (TIPromise T False) []) b) []) K) # fs) s'
      (Run c (K (Inr (VPromise q))) # fs) \<and> closed_at s' q T (stored T y) \<and> keeps q s2 s' \<and> P q s2"
  using MakePromise_run_new [of T s t b c K fs y P] assms by blast

lemma MakePromise_run:
  assumes body: "\<And>s1 p r. running_at s1 p r T \<Longrightarrow> \<forall>q. keeps q s s1 \<Longrightarrow>
      \<exists>s2. solo t s1 (Run (Coroutine p) (b []) # Run c (K (Inr (VPromise p))) # fs) s2
          (Run (Coroutine p) (finish y) # Run c (K (Inr (VPromise p))) # fs) \<and> running_at s2 p r T"
  shows "\<exists>s' q. solo t s (Run c (bindP (MakePromise (Fn (TFunction (TIPromise T False) []) b) []) K) # fs) s'
      (Run c (K (Inr (VPromise q))) # fs) \<and> outcome_of s' q = Some (stored T y)"
  using MakePromise_run_in [of T s t b c K fs y "\<lambda>_ _. True"] body closed_outcome by blast

lemma All_container_run:
  assumes "list_all2 (\<lambda>p x. closed_at s p T x) ps xs"
  shows "\<exists>s' q. solo t s (Run c (bindP (All_container T ps) K) # fs) s' (Run c (K (Inr (VPromise q))) # fs) \<and>
    outcome_of s' q = Some (stored (all_container_return T) (all_outcome T xs))"
  unfolding All_container_def all_outcome_def
proof (rule MakePromise_run)
  fix s1 :: "'a store" and p r
  assume r: "running_at s1 p r (all_container_return T)" and k: "\<forall>q. keeps q s s1"
  have "list_all2 (\<lambda>p x. closed_at s1 p T x) ps xs"
    using assms by (rule list_all2_mono) (use k keepsD(2) in blast)
  from all_loop_run [OF this, of t p "[]"] r
  show "\<exists>s2. solo t s1 (Run (Coroutine p) (all_loop T ps []) # Run c (K (Inr (VPromise p))) # fs) s2
      (Run (Coroutine p) (finish (map_sum id (\<lambda>vs. if is_void T then VVoid else VVector vs) (gather xs []))) #
       Run c (K (Inr (VPromise p))) # fs) \<and> running_at s2 p r (all_container_return T)"
    by blast
qed

text \<open>
  All of a container. On settled promises the promise that All returns is settled when the
  call returns, with the vector of their values in order (nothing for void promises), or with the
  exception of the first rejected one.
\<close>

theorem All_container_settled:
  assumes "list_all2 (\<lambda>p x. closed_at s p T x) ps xs"
  shows "\<exists>s' q. solo t s (Run c (bindP (All_container T ps) K) # fs) s' (Run c (K (Inr (VPromise q))) # fs) \<and>
    outcome_of s' q = Some (stored (all_container_return T) (all_outcome T xs))"
  using assms by (rule All_container_run)

subsection \<open>All of a pack\<close>

lemma wrap_fn_pure:
  "wrap_fn T = pure_fn (TFunction (TTuple (if is_void T then [] else [T])) (if is_void T then [] else [TCRef T]))
     (\<lambda>vs. Inr (VTuple vs))"
  by (simp add: wrap_fn_def pure_fn_def)

lemma detach_bind:
  assumes "p < length (promises s)" "p_readers (promises s ! p) = []" "IsDone s p = Next b"
  obtains s' where "solo t s (Run c (bindP (callP (ODetach p) (\<lambda>_. finish x)) K) # fs) s' (Run c (K x) # fs)"
    "\<forall>q r j T as. open_at s q r j T as \<longrightarrow> open_at s' q r j T as" "\<forall>q. keeps q s s'"
proof -
  obtain s' where s': "exec_op t (ODetach p) s = Next (s', [], Inr VVoid)"
    "\<forall>q r j T as. open_at s q r j T as \<longrightarrow> open_at s' q r j T as" "\<forall>q. keeps q s s'"
    using assms by (rule Detach_rule)
  from solo_bind_callP [OF s'(1), of c "\<lambda>_. finish x" K fs] s'(2,3) that show thesis by simp
qed

lemma detach_closed:
  assumes "closed_at s p T x"
  obtains s' where "solo t s (Run c (bindP (callP (ODetach p) (\<lambda>_. finish y)) K) # fs) s' (Run c (K y) # fs)"
    "\<forall>q. keeps q s s'"
proof -
  have "p < length (promises s)" "p_readers (promises s ! p) = []" "IsDone s p = Next True"
    using assms closed_IsDone [OF assms] by (simp_all add: held_at_def)
  then obtain s' where "solo t s (Run c (bindP (callP (ODetach p) (\<lambda>_. finish y)) K) # fs) s' (Run c (K y) # fs)"
    "\<forall>q r j T as. open_at s q r j T as \<longrightarrow> open_at s' q r j T as" "\<forall>q. keeps q s s'"
    by (rule detach_bind)
  then show thesis by (intro that)
qed

lemma keeps_all_closed:
  assumes "\<forall>p. keeps p s s'" "list_all2 (\<lambda>(T, p) x. closed_at s p T x) ps xs"
  shows "list_all2 (\<lambda>(T, p) x. closed_at s' p T x) ps xs"
  using assms(2) by (rule list_all2_mono) (use assms(1) keepsD(2) in \<open>fastforce simp: split_beta\<close>)

lemma keeps_allD:
  assumes "\<forall>p. keeps p s s'"
  shows "open_at s q r j T as \<Longrightarrow> open_at s' q r j T as" "held_at s q T x rs \<Longrightarrow> held_at s' q T x rs"
    "coro_with s q r T h as \<Longrightarrow> coro_with s' q r T h as" "objects s' = objects s"
  using assms [rule_format, of "Suc q"] unfolding keeps_def by simp_all

lemma keeps_all_trans: "\<forall>p. keeps p s s' \<Longrightarrow> \<forall>p. keeps p s' s'' \<Longrightarrow> \<forall>p. keeps p s s''"
  using keeps_trans by blast

lemma tuple_of_VTuple [simp]: "tuple_of (VTuple vs) = vs"
  by (simp add: tuple_of_def)

lemma pack_step:
  assumes "closed_at s p T x"
  shows "\<exists>s'. solo t s (Run (Coroutine c) (all_pack_loop ((T, p) # ps) vs) # fs) s'
      (Run (Coroutine c) (case x of Inl e \<Rightarrow> Throw e
         | Inr v \<Rightarrow> all_pack_loop ps (vs @ (if is_void T then [] else [v]))) # fs) \<and> (\<forall>p. keeps p s s')"
proof -
  let ?k = "\<lambda>q. CoAwait q (\<lambda>x. case x of Inl e \<Rightarrow> Throw e | Inr v \<Rightarrow> all_pack_loop ps (vs @ tuple_of v))"
  let ?K = "\<lambda>r. case r of Inl e \<Rightarrow> Throw e | Inr w \<Rightarrow> as_promise w ?k"
  let ?D = "\<lambda>r. bindP (callP (ODetach p) (\<lambda>_. finish r)) ?K"
  let ?ty = "TFunction (TTuple (if is_void T then [] else [T])) (if is_void T then [] else [TCRef T])"
  let ?g = "\<lambda>vs. Inr (VTuple vs)"
  have prog: "all_pack_loop ((T, p) # ps) vs = bindP (ThenPlain T p (pure_fn ?ty ?g) []) ?D"
    by (simp add: thenP_def detaching_def bindP_assoc wrap_fn_pure)
  obtain s1 q where s1: "solo t s (Run (Coroutine c) (all_pack_loop ((T, p) # ps) vs) # fs) s1
      (Run (Coroutine c) (?D (Inr (VPromise q))) # fs)"
    "closed_at s1 q (return_or_void_t ?ty) (then_result ?ty ?g [] T x)" "\<forall>p. keeps p s s1"
    using then_chain.settled [OF assms] unfolding prog by blast
  obtain s2 where s2: "solo t s1 (Run (Coroutine c) (?D (Inr (VPromise q))) # fs) s2
      (Run (Coroutine c) (?K (Inr (VPromise q))) # fs)" "\<forall>q. keeps q s1 s2"
    using keepsD(2) [OF s1(3) [rule_format] assms] by (rule detach_closed)
  have q2: "closed_at s2 q (return_or_void_t ?ty) (then_result ?ty ?g [] T x)"
    using s1(2) s2(2) keepsD(2) by blast
  have res: "then_result ?ty ?g [] T x = (case x of Inl e \<Rightarrow> Inl e | Inr v \<Rightarrow> Inr (VTuple (if is_void T then [] else [v])))"
    by (auto simp: then_result_def stored_def pass_value_def return_or_void_t_def is_void_def split: sum.split)
  have "solo t s2 (Run (Coroutine c) (?K (Inr (VPromise q))) # fs) s2
      (Run (Coroutine c) (case x of Inl e \<Rightarrow> Throw e
         | Inr v \<Rightarrow> all_pack_loop ps (vs @ (if is_void T then [] else [v]))) # fs)"
    using CoAwait_rule [OF q2 [unfolded res], of t c
        "\<lambda>x. case x of Inl e \<Rightarrow> Throw e | Inr v \<Rightarrow> all_pack_loop ps (vs @ tuple_of v)" fs]
    by (cases x) (auto simp: as_promise_def)
  from solo_trans [OF solo_trans [OF s1(1) s2(1)] this] keeps_all_trans [OF s1(3) s2(2)] show ?thesis by blast
qed

fun gather_pack :: "(cty \<times> outcome) list \<Rightarrow> val list \<Rightarrow> outcome" where
  "gather_pack [] vs = Inr (VTuple vs)"
| "gather_pack ((T, Inl e) # xs) vs = Inl e"
| "gather_pack ((T, Inr v) # xs) vs = gather_pack xs (vs @ (if is_void T then [] else [v]))"

lemma pack_run:
  assumes "list_all2 (\<lambda>(T, p) x. closed_at s p T x) ps xs"
  shows "\<exists>s'. solo t s (Run (Coroutine c) (all_pack_loop ps vs) # fs) s'
      (Run (Coroutine c) (finish (gather_pack (zip (map fst ps) xs) vs)) # fs) \<and> (\<forall>p. keeps p s s')"
  using assms
proof (induction ps arbitrary: s xs vs)
  case Nil
  then show ?case by (auto intro: solo_refl exI [of _ s])
next
  case (Cons a ps)
  obtain T p where a: "a = (T, p)" by (cases a)
  with Cons.prems obtain x ys where xs: "xs = x # ys" "closed_at s p T x" "list_all2 (\<lambda>(T, p) x. closed_at s p T x) ps ys"
    by (cases xs) auto
  obtain s1 where s1: "solo t s (Run (Coroutine c) (all_pack_loop ((T, p) # ps) vs) # fs) s1
      (Run (Coroutine c) (case x of Inl e \<Rightarrow> Throw e
         | Inr v \<Rightarrow> all_pack_loop ps (vs @ (if is_void T then [] else [v]))) # fs)" "\<forall>p. keeps p s s1"
    using pack_step [OF xs(2)] by blast
  have "list_all2 (\<lambda>(T, p) x. closed_at s1 p T x) ps ys"
    using s1(2) xs(3) by (rule keeps_all_closed)
  note IH = Cons.IH [OF this]
  show ?case
  proof (cases x)
    case (Inl e)
    then show ?thesis using s1 a xs(1) by auto
  next
    case (Inr v)
    obtain s2 where s2: "solo t s1 (Run (Coroutine c) (all_pack_loop ps (vs @ (if is_void T then [] else [v]))) # fs) s2
        (Run (Coroutine c) (finish (gather_pack (zip (map fst ps) ys) (vs @ (if is_void T then [] else [v])))) # fs)"
      "\<forall>p. keeps p s1 s2"
      using IH [of "vs @ (if is_void T then [] else [v])"] by blast
    have "solo t s (Run (Coroutine c) (all_pack_loop ((T, p) # ps) vs) # fs) s2
        (Run (Coroutine c) (finish (gather_pack (zip (map fst ps) ys) (vs @ (if is_void T then [] else [v])))) # fs)"
      using s1(1) s2(1) unfolding Inr sum.case by (rule solo_trans)
    then show ?thesis
      unfolding a xs(1) Inr list.map zip_Cons_Cons fst_conv gather_pack.simps
      using keeps_all_trans [OF s1(2) s2(2)] by (intro exI [of _ s2] conjI)
  qed
qed

lemma All_run:
  assumes "list_all2 (\<lambda>(T, p) x. closed_at s p T x) ps xs"
  shows "\<exists>s' q. solo t s (Run c (bindP (All ps) K) # fs) s' (Run c (K (Inr (VPromise q))) # fs) \<and>
    outcome_of s' q = Some (gather_pack (zip (map fst ps) xs) [])"
proof -
  let ?y = "gather_pack (zip (map fst ps) xs) []"
  let ?T = "all_return (map fst ps)"
  have "\<exists>s' q. solo t s (Run c (bindP (All ps) K) # fs) s' (Run c (K (Inr (VPromise q))) # fs) \<and>
      outcome_of s' q = Some (stored ?T ?y)"
    unfolding All_def
  proof (rule MakePromise_run)
    fix s1 :: "'a store" and p r
    assume r: "running_at s1 p r ?T" and k: "\<forall>q. keeps q s s1"
    have "list_all2 (\<lambda>(T, p) x. closed_at s1 p T x) ps xs"
      using k assms by (rule keeps_all_closed)
    from pack_run [OF this, of t p "[]" "Run c (K (Inr (VPromise p))) # fs"]
    obtain s2 where "solo t s1 (Run (Coroutine p) (all_pack_loop ps []) # Run c (K (Inr (VPromise p))) # fs) s2
        (Run (Coroutine p) (finish ?y) # Run c (K (Inr (VPromise p))) # fs)" "\<forall>p. keeps p s1 s2" by blast
    moreover from this r have "running_at s2 p r ?T" using keepsD(3) [of "Suc p" s1 s2 p] by simp
    ultimately show "\<exists>s2. solo t s1 (Run (Coroutine p) (all_pack_loop ps []) # Run c (K (Inr (VPromise p))) # fs) s2
        (Run (Coroutine p) (finish ?y) # Run c (K (Inr (VPromise p))) # fs) \<and> running_at s2 p r ?T" by blast
  qed
  moreover have "stored ?T ?y = ?y" by (simp add: stored_def all_return_def is_void_def split: sum.split)
  ultimately show ?thesis by simp
qed

text \<open>
  All of a pack. On settled promises of any types, All returns a promise settled with the
  tuple of the values of the promises that have one, in order, or with the exception of the first
  rejected promise.
\<close>

theorem All_settled:
  assumes "list_all2 (\<lambda>(T, p) x. closed_at s p T x) ps xs"
  shows "\<exists>s' q. solo t s (Run c (bindP (All ps) K) # fs) s' (Run c (K (Inr (VPromise q))) # fs) \<and>
    outcome_of s' q = Some (gather_pack (zip (map fst ps) xs) [])"
  using assms by (rule All_run)

subsection \<open>Race\<close>

lemma solo_bind_callP0:
  "exec_op t a s = Next (s', [], Inr v) \<Longrightarrow> \<not> spawns a \<Longrightarrow> bindP (f v) K = m \<Longrightarrow>
     solo t s (Run c (bindP (callP a f) K) # fs) s' (Run c m # fs)"
  using solo_bind_callP [of t a s s' "[]" v c f K fs] by simp

lemma IsDone_bind:
  assumes "p < length (promises s)" "p_readers (promises s ! p) = []" "IsDone s p = Next b"
  shows "solo t s (Run c (bindP (callP (OIsDone p) f) K) # fs) s (Run c (bindP (f (VBool b)) K) # fs)"
  using solo_bind_callP [of t "OIsDone p" s s "[]" "VBool b" c f K fs] assms
  by (simp add: valid_promise_def with_shared_def ret_def)

lemma keeps_everywhere:
  assumes p: "held_at s p T x rs" and k: "keeps p s s'"
  shows "keeps q s s'"
  unfolding keeps_def
proof (intro conjI allI impI, goal_cases)
  case (1 u r j T' as)
  then have "u \<noteq> p" using p open_not_closed by blast
  with k 1 show ?case by (blast intro: keepsD(1))
next
  case (2 u r T' h)
  then have "u \<noteq> p" using p running_not_closed by blast
  with k 2 show ?case by (blast intro: keepsD(3))
next
  case (3 u T' y ys)
  with k show ?case by (rule keepsD(2))
next
  case 4
  from k show ?case by (rule keepsD(4))
qed

lemma Touch_rule:
  assumes "closed_at s p T x"
  obtains s' where "exec_op t (OTouch p) s = Next (s', [], Inr VVoid)" "\<forall>q. keeps q s s'"
proof -
  let ?g = "\<lambda>x. x\<lparr>p_use_count := p_use_count x + 1\<rparr>"
  let ?s = "upd_promise p ?g s"
  have "exec_op t (OTouch p) s = Next (?s, [], Inr VVoid)"
    using assms by (simp add: held_at_def valid_promise_def with_unique_def ret_def)
  moreover have "keeps p s ?s" using assms by (intro keeps_upd [of _ _ ?g _ "[]" "[]" "[]"]) (auto simp: held_at_def)
  ultimately show thesis using keeps_everywhere [OF assms] that by blast
qed

text \<open>What the participant of value type \<open>T\<close> gives a race of value type \<open>T2\<close>.\<close>

definition race_value :: "cty \<Rightarrow> cty \<Rightarrow> outcome \<Rightarrow> outcome" where
  "race_value T T2 x =
     map_sum id (\<lambda>v. if is_void T2 then VVoid else if is_void T then VNullopt else conv T T2 v) x"

lemma race_handle_eq:
  "race_handle T T2 p r j =
     Call (OOutcome p) (\<lambda>x. callP (settle_op r j (race_value T T2 x)) (\<lambda>_. Return VVoid))"
  unfolding race_handle_def race_value_def by (intro arg_cong2 [of _ _ _ _ Call] ext) (auto split: sum.split)

lemma race_handle_run:
  assumes "closed_at s p T x" "open_at s q r j T2 []"
  obtains s' where "solo t s (Run c (bindP (race_handle T T2 p r j) K) # fs) s' (Run c (K (Inr VVoid)) # fs)"
    "closed_at s' q T2 (stored T2 (race_value T T2 x))" "keeps q s s'"
proof -
  let ?m = "callP (settle_op r j (race_value T T2 x)) (\<lambda>_. Return VVoid)"
  obtain s' where s': "solo t s (Run c (bindP ?m K) # fs) s' (Awaiters [] # Run c (bindP (Return VVoid) K) # fs)"
    "closed_at s' q T2 (stored T2 (race_value T T2 x))" "keeps q s s'"
    using assms(2) by (rule settle_bind)
  have "solo t s (Run c (bindP (race_handle T T2 p r j) K) # fs) s (Run c (bindP ?m K) # fs)"
    using Outcome_bind [OF assms(1)] unfolding race_handle_eq by simp
  from solo_trans [OF solo_trans [OF this s'(1)] solo_awaiters_nil] s'(2,3) show thesis
    by (intro that) simp_all
qed

lemma Promise_Race_wins:
  assumes "closed_at s p T x" "open_at s q r j T2 []"
  obtains s' where "solo t s (Run c (bindP (Promise_Race T p T2 q r j) K) # fs) s' (Run c (K (Inr (VPromise q))) # fs)"
    "closed_at s' q T2 (stored T2 (race_value T T2 x))" "keeps q s s'"
proof -
  let ?h = "race_handle T T2 p r j"
  let ?K = "\<lambda>x. case x of Inl e \<Rightarrow> K (Inl e) | Inr v \<Rightarrow> K (Inr (VPromise q))"
  have "q < length (promises s)" "p_readers (promises s ! q) = []" "IsDone s q = Next False"
    using assms(2) open_IsDone [OF assms(2)] by (simp_all add: open_at_def)
  note query = IsDone_bind [OF this]
  obtain s' where s': "solo t s (Run c (bindP ?h ?K) # fs) s' (Run c (?K (Inr VVoid)) # fs)"
    "closed_at s' q T2 (stored T2 (race_value T T2 x))" "keeps q s s'"
    using assms by (rule race_handle_run)
  have "bindP (thenP ?h (\<lambda>_. Return (VPromise q))) K = bindP ?h ?K"
    by (simp add: thenP_def bindP_assoc) (intro arg_cong [of _ _ "bindP ?h"] ext, simp split: sum.split)
  then have "solo t s (Run c (bindP (callP (OTryAwait p ?h) (\<lambda>w. case w of
           VId i \<Rightarrow> detaching q (Finally T2 q (unawait_fn p i))
         | _ \<Rightarrow> thenP ?h (\<lambda>_. Return (VPromise q)))) K) # fs) s (Run c (bindP ?h ?K) # fs)"
    by (intro solo_bind_callP0 [OF TryAwait_settled [OF assms(1)]]) simp_all
  from solo_trans [OF this s'(1)]
  have "solo t s (Run c (bindP (Promise_Race T p T2 q r j) K) # fs) s' (Run c (?K (Inr VVoid)) # fs)"
    unfolding Promise_Race_def by (intro solo_trans [OF query]) simp
  with s'(2,3) show thesis by (intro that) simp_all
qed

lemma Promise_Race_loses:
  assumes "closed_at s p T x" "closed_at s q T2 y"
  obtains s' where "solo t s (Run c (bindP (Promise_Race T p T2 q r j) K) # fs) s' (Run c (K (Inr (VPromise q))) # fs)"
    "\<forall>q. keeps q s s'"
proof -
  have "q < length (promises s)" "p_readers (promises s ! q) = []" "IsDone s q = Next True"
    using assms(2) closed_IsDone [OF assms(2)] by (simp_all add: held_at_def)
  note query = IsDone_bind [OF this]
  obtain s' where s': "exec_op t (OTouch p) s = Next (s', [], Inr VVoid)" "\<forall>q. keeps q s s'"
    using assms(1) by (rule Touch_rule)
  have "solo t s (Run c (bindP (callP (OTouch p) (\<lambda>_. Return (VPromise q))) K) # fs) s' (Run c (K (Inr (VPromise q))) # fs)"
    by (intro solo_bind_callP0 [OF s'(1)]) simp_all
  then have "solo t s (Run c (bindP (Promise_Race T p T2 q r j) K) # fs) s' (Run c (K (Inr (VPromise q))) # fs)"
    unfolding Promise_Race_def by (intro solo_trans [OF query]) simp
  with s'(2) show thesis by (intro that)
qed

text \<open>What is left of the fold after the step of the promise \<open>p\<close>.\<close>

definition race_rest :: "cty \<Rightarrow> rid \<Rightarrow> jid \<Rightarrow> (cty \<times> pid) list \<Rightarrow> (outcome \<Rightarrow> 'o prog) \<Rightarrow> pid \<Rightarrow> outcome \<Rightarrow> 'o prog" where
  "race_rest T2 r j ps K p x = bindP (callP (ODetach p) (\<lambda>_. finish x))
     (\<lambda>x. bindP (case x of Inl e \<Rightarrow> Throw e | Inr v \<Rightarrow> as_promise v (race_fold T2 r j ps)) K)"

lemma race_fold_step:
  assumes "solo t s (Run c (bindP (Promise_Race T p T2 q r j) (race_rest T2 r j ps K p)) # fs) s1
      (Run c (race_rest T2 r j ps K p (Inr (VPromise q))) # fs)"
    and "closed_at s1 p T x"
  obtains s' where "solo t s (Run c (bindP (race_fold T2 r j ((T, p) # ps) q) K) # fs) s'
      (Run c (bindP (race_fold T2 r j ps q) K) # fs)" "\<forall>q. keeps q s1 s'"
proof -
  let ?K = "\<lambda>x. bindP (case x of Inl e \<Rightarrow> Throw e | Inr v \<Rightarrow> as_promise v (race_fold T2 r j ps)) K"
  obtain s' where s': "solo t s1 (Run c (bindP (callP (ODetach p) (\<lambda>_. finish (Inr (VPromise q)))) ?K) # fs) s'
      (Run c (?K (Inr (VPromise q))) # fs)" "\<forall>q. keeps q s1 s'"
    using assms(2) by (rule detach_closed)
  have "bindP (race_fold T2 r j ((T, p) # ps) q) K = bindP (Promise_Race T p T2 q r j) (race_rest T2 r j ps K p)"
    by (simp add: thenP_def detaching_def bindP_assoc race_rest_def [abs_def])
  with solo_trans [OF assms(1), unfolded race_rest_def, OF s'(1)] s'(2) show thesis
    by (intro that) (auto simp: as_promise_def race_rest_def [abs_def])
qed

lemma race_losers:
  assumes "closed_at s q T2 y" "list_all2 (\<lambda>(T, p) x. closed_at s p T x) ps xs"
  shows "\<exists>s'. solo t s (Run c (bindP (race_fold T2 r j ps q) K) # fs) s' (Run c (K (Inr (VPromise q))) # fs) \<and>
    closed_at s' q T2 y"
  using assms
proof (induction ps arbitrary: s xs)
  case Nil
  then show ?case by (auto intro: solo_refl)
next
  case (Cons a ps)
  obtain T p where a: "a = (T, p)" by (cases a)
  with Cons.prems(2) obtain x ys where xs: "xs = x # ys" "closed_at s p T x"
    "list_all2 (\<lambda>(T, p) x. closed_at s p T x) ps ys"
    by (cases xs) auto
  let ?K = "race_rest T2 r j ps K p"
  obtain s1 where s1: "solo t s (Run c (bindP (Promise_Race T p T2 q r j) ?K) # fs) s1
      (Run c (?K (Inr (VPromise q))) # fs)" "\<forall>q. keeps q s s1"
    using xs(2) Cons.prems(1) by (rule Promise_Race_loses)
  have p: "closed_at s1 p T x" using s1(2) xs(2) keepsD(2) by blast
  obtain s2 where s2: "solo t s (Run c (bindP (race_fold T2 r j ((T, p) # ps) q) K) # fs) s2
      (Run c (bindP (race_fold T2 r j ps q) K) # fs)" "\<forall>q. keeps q s1 s2"
    using s1(1) p by (rule race_fold_step)
  note k = keeps_all_trans [OF s1(2) s2(2)]
  have "\<exists>s'. solo t s2 (Run c (bindP (race_fold T2 r j ps q) K) # fs) s' (Run c (K (Inr (VPromise q))) # fs) \<and>
      closed_at s' q T2 y"
    using Cons.IH keepsD(2) [OF k [rule_format] Cons.prems(1)] keeps_all_closed [OF k xs(3)] by blast
  with solo_trans [OF s2(1)] show ?case unfolding a by blast
qed

lemma Create_bind:
  obtains s' q r j where
    "solo t s (Run c (bindP (callP (OCreate T) (\<lambda>h. with_handles h f)) K) # fs) s' (Run c (bindP (f q r j) K) # fs)"
    "open_at s' q r j T []" "\<forall>p. keeps p s s'" "q = length (promises s)"
proof -
  obtain s' q r j where s':
    "exec_op t (OCreate T) s = Next (s', [], Inr (VTuple [VPromise q, VResolve r, VReject j]))"
    "open_at s' q r j T []" "\<forall>p. keeps p s s'" "q = length (promises s)"
    by (rule Create_rule)
  have "solo t s (Run c (bindP (callP (OCreate T) (\<lambda>h. with_handles h f)) K) # fs) s' (Run c (bindP (f q r j) K) # fs)"
    by (rule solo_bind_callP0 [OF s'(1)]) simp_all
  then show thesis using s'(2-4) by (rule that)
qed

lemma race_run:
  assumes "RaceReturn (T # map fst ps) = Some T2" "closed_at s p T x"
    "list_all2 (\<lambda>(T, p) x. closed_at s p T x) ps xs"
  shows "\<exists>s' q. solo t s (Run c (bindP (Race ((T, p) # ps)) K) # fs) s' (Run c (K (Inr (VPromise q))) # fs) \<and>
    outcome_of s' q = Some (stored T2 (race_value T T2 x))"
proof -
  obtain s1 q r j where s1: "solo t s (Run c (bindP (Race ((T, p) # ps)) K) # fs) s1
      (Run c (bindP (race_fold T2 r j ((T, p) # ps) q) K) # fs)"
    "open_at s1 q r j T2 []" "\<forall>p. keeps p s s1" "q = length (promises s)"
    unfolding Race_def list.map fst_conv assms(1) option.case
    by (rule Create_bind)
  have p: "closed_at s1 p T x" using keepsD(2) [OF s1(3) [rule_format] assms(2)] .
  let ?K = "race_rest T2 r j ps K p"
  obtain s2 where s2: "solo t s1 (Run c (bindP (Promise_Race T p T2 q r j) ?K) # fs) s2
      (Run c (?K (Inr (VPromise q))) # fs)" "closed_at s2 q T2 (stored T2 (race_value T T2 x))" "keeps q s1 s2"
    using p s1(2) by (rule Promise_Race_wins)
  have p2: "closed_at s2 p T x" using s2(3) p by (rule keepsD(2))
  obtain s3 where s3: "solo t s1 (Run c (bindP (race_fold T2 r j ((T, p) # ps) q) K) # fs) s3
      (Run c (bindP (race_fold T2 r j ps q) K) # fs)" "\<forall>q. keeps q s2 s3"
    using s2(1) p2 by (rule race_fold_step)
  have "list_all2 (\<lambda>(T, p) x. closed_at s3 p T x) ps xs"
    using assms(3) by (rule list_all2_mono)
      (use keepsD(2) [OF s1(3) [rule_format]] keepsD(2) [OF s2(3)] keepsD(2) [OF s3(2) [rule_format]] in fastforce)
  with keepsD(2) [OF s3(2) [rule_format] s2(2)]
  obtain s4 where "solo t s3 (Run c (bindP (race_fold T2 r j ps q) K) # fs) s4 (Run c (K (Inr (VPromise q))) # fs)"
    "closed_at s4 q T2 (stored T2 (race_value T T2 x))"
    using race_losers by blast
  with solo_trans [OF solo_trans [OF s1(1) s3(1)]] closed_outcome show ?thesis by blast
qed

text \<open>
  Race. When the promises of a race are settled at the call, the promise that Race returns is
  settled with what the first of them gives: its exception, or its value converted to the type of
  the race (nothing in a race of void promises, an empty optional for a void promise among others).
\<close>

theorem Race_settled:
  assumes "RaceReturn (T # map fst ps) = Some T2" "closed_at s p T x"
    "list_all2 (\<lambda>(T, p) x. closed_at s p T x) ps xs"
  shows "\<exists>s' q. solo t s (Run c (bindP (Race ((T, p) # ps)) K) # fs) s' (Run c (K (Inr (VPromise q))) # fs) \<and>
    outcome_of s' q = Some (stored T2 (race_value T T2 x))"
  using assms by (rule race_run)

subsection \<open>The combinators on settled promises\<close>

text \<open>A promise of 4, one of void and one that was rejected.\<close>

definition settled_store :: "unit store" where
  "settled_store = (empty_store ())\<lparr>
     promises := [(new_promise TInt True NoHandle)\<lparr>p_resolver := Some 0\<rparr>,
                  (new_promise TVoid True NoHandle)\<lparr>p_resolver := Some 1\<rparr>,
                  (new_promise TInt True NoHandle)\<lparr>p_resolver := Some 2\<rparr>],
     resolvers := [store_outcome (Inr (VInt 4)) (linked_resolver TInt 0),
                   store_outcome (Inr VVoid) (linked_resolver TVoid 1),
                   store_outcome (Inl (Exc ''E'' ''boom'')) (linked_resolver TInt 2)]\<rparr>"

lemma settled_store_closed:
  "closed_at settled_store 0 TInt (Inr (VInt 4))"
  "closed_at settled_store (Suc 0) TVoid (Inr VVoid)"
  "closed_at settled_store 2 TInt (Inl (Exc ''E'' ''boom''))"
  by (simp_all add: held_at_def settled_store_def empty_store_def new_promise_def linked_resolver_def
      is_void_def)

theorem All_container_settled_witness:
  "\<exists>s' q. solo 0 settled_store [Run Plain (bindP (All_container TInt [0, 2, 0]) finish)] s' [Run Plain (Return (VPromise q))] \<and>
     outcome_of s' q = Some (Inl (Exc ''E'' ''boom''))"
proof -
  have "stored (all_container_return TInt) (all_outcome TInt [Inr (VInt 4), Inl (Exc ''E'' ''boom''), Inr (VInt 4)]) =
      Inl (Exc ''E'' ''boom'')" by code_simp
  then show ?thesis
    using All_container_settled [of settled_store TInt "[0, 2, 0]" "[Inr (VInt 4), Inl (Exc ''E'' ''boom''), Inr (VInt 4)]"
        0 Plain finish "[]"] settled_store_closed by simp
qed

theorem All_settled_witness:
  "\<exists>s' q. solo 0 settled_store [Run Plain (bindP (All [(TInt, 0), (TVoid, Suc 0), (TInt, 0)]) finish)] s'
     [Run Plain (Return (VPromise q))] \<and> outcome_of s' q = Some (Inr (VTuple [VInt 4, VInt 4]))"
  using All_settled [of settled_store "[(TInt, 0), (TVoid, Suc 0), (TInt, 0)]" "[Inr (VInt 4), Inr VVoid, Inr (VInt 4)]"
      0 Plain finish "[]"] settled_store_closed by (simp add: is_void_def)

theorem Race_settled_witness:
  "\<exists>s' q. solo 0 settled_store [Run Plain (bindP (Race [(TVoid, Suc 0), (TInt, 0)]) finish)] s'
     [Run Plain (Return (VPromise q))] \<and> outcome_of s' q = Some (Inr VNullopt)"
proof -
  have "RaceReturn (TVoid # map fst [(TInt, 0 :: pid)]) = Some (TOptional TInt)"
    "stored (TOptional TInt) (race_value TVoid (TOptional TInt) (Inr VVoid)) = Inr VNullopt" by code_simp+
  then show ?thesis
    using Race_settled [of TVoid "[(TInt, 0)]" "TOptional TInt" settled_store "Suc 0" "Inr VVoid" "[Inr (VInt 4)]"
        0 Plain finish "[]"] settled_store_closed by simp
qed

end
