(* ===== verification/Typing.thy ===== *)
theory Typing
  imports Combinators
begin

text \<open>
  The types the library computes and the values it stores agree: what a continuation or a
  combinator settles its promise with is a value of the value type of that promise, if the
  participants hold values of their types and the callback returns one of its return type. The
  callbacks are C++ functions, so the last hypothesis is what the compiler checks.
\<close>

definition typed :: "outcome \<Rightarrow> cty \<Rightarrow> bool" where
  "typed x T = (case x of Inl e \<Rightarrow> True | Inr v \<Rightarrow> has_type v T)"

lemma typed_simps [simp]: "typed (Inl e) T" "typed (Inr v) T \<longleftrightarrow> has_type v T"
  by (simp_all add: typed_def)

lemma stored_typed: "typed x T \<Longrightarrow> typed (stored T x) T"
  by (cases x) (auto simp: stored_def is_void_def)

subsection \<open>Continuations\<close>






text \<open>A chained promise has the promised type and an outcome of that type, in both orders.\<close>

context chaining
begin

lemma chained_typed:
  assumes "open_at s p r j T []" "typed (result T (stored T x)) (result_type T)"
  shows "(\<exists>s' q y. solo t s (Run c (bindP (callP (settle_op r j x) (\<lambda>_. chain T p)) K) # fs) s'
      (Run c (K (Inr (VPromise q))) # fs) \<and> closed_at s' q (result_type T) y \<and> typed y (result_type T)) \<and>
    (\<exists>s' q y. solo t s (Run c (bindP (chain T p) (\<lambda>w. bindP (callP (settle_op r j x) (\<lambda>_. finish w)) K)) # fs) s'
      (Run c (K (Inr (VPromise q))) # fs) \<and> closed_at s' q (result_type T) y \<and> typed y (result_type T))"
  using settle_then_chain [OF assms(1)] chain_then_settle [OF assms(1)] assms(2) by blast

end



subsection \<open>Combinators\<close>

lemma gather_typed:
  assumes "list_all (\<lambda>x. typed x T) xs" "list_all (\<lambda>v. has_type v T) vs"
  shows "case gather xs vs of Inl e \<Rightarrow> True | Inr ws \<Rightarrow> list_all (\<lambda>v. has_type v T) ws"
  using assms by (induction xs vs rule: gather.induct) auto

lemma all_outcome_typed:
  assumes "list_all (\<lambda>x. typed x T) xs"
  shows "typed (stored (all_container_return T) (all_outcome T xs)) (all_container_return T)"
  using gather_typed [OF assms, of "[]"]
  by (intro stored_typed) (auto simp: all_outcome_def all_container_return_def split: sum.splits)

lemma gather_pack_typed:
  assumes "list_all2 typed xs Ts" "list_all2 has_type vs Us"
  shows "typed (gather_pack (zip Ts xs) vs) (TTuple (Us @ concat (map (\<lambda>T. if is_void T then [] else [T]) Ts)))"
  using assms
proof (induction xs Ts arbitrary: vs Us rule: list_all2_induct)
  case Nil
  then show ?case by simp
next
  case (Cons x xs T Ts)
  show ?case
  proof (cases x)
    case (Inr v)
    have "list_all2 has_type (vs @ (if is_void T then [] else [v])) (Us @ (if is_void T then [] else [T]))"
      using Cons Inr by (auto intro: list_all2_appendI)
    from Cons.IH [OF this] show ?thesis by (simp add: Inr)
  qed simp
qed

lemma race_value_typed:
  assumes "RaceReturn Ts = Some T2" "T \<in> set Ts" "typed x T"
  shows "typed (stored T2 (race_value T T2 x)) T2"
proof (intro stored_typed, cases x)
  case (Inr v)
  consider "is_void T2" | "\<not> is_void T2" "is_void T" | "\<not> is_void T2" "\<not> is_void T" by blast
  then show "typed (race_value T T2 x) T2"
  proof cases
    case 1
    then show ?thesis by (simp add: race_value_def Inr is_void_def)
  next
    case 2
    then obtain e where "T2 = TOptional e"
      using race_void_optional [OF assms(1)] assms(2) by (auto simp: is_void_def)
    then show ?thesis using 2 by (simp add: race_value_def Inr)
  next
    case 3
    then show ?thesis using conv_typed [of v T T2] convertible_race [OF assms(1,2)] assms(3)
      by (simp add: race_value_def Inr)
  qed
qed (simp add: race_value_def)

text \<open>
  C36. Types of combinators. On settled promises that hold values of their types, All (of a
  container and of a pack) and Race are settled with a value of the type that the library computes
  for them, whichever participants are void.
\<close>

theorem combinators_typed:
  assumes "list_all2 (\<lambda>(T, p) x. closed_at s p T x \<and> typed x T) ((T, p) # ps) xs"
    "list_all2 (\<lambda>p x. closed_at s p U x \<and> typed x U) cs zs"
  shows "(\<exists>s' q y. solo t s (Run c (bindP (All ((T, p) # ps)) K) # fs) s' (Run c (K (Inr (VPromise q))) # fs) \<and>
      outcome_of s' q = Some y \<and> typed y (all_return (T # map fst ps))) \<and>
    (\<exists>T2 s' q y. RaceReturn (T # map fst ps) = Some T2 \<and>
      solo t s (Run c (bindP (Race ((T, p) # ps)) K) # fs) s' (Run c (K (Inr (VPromise q))) # fs) \<and>
      outcome_of s' q = Some y \<and> typed y T2) \<and>
    (\<exists>s' q y. solo t s (Run c (bindP (All_container U cs) K) # fs) s' (Run c (K (Inr (VPromise q))) # fs) \<and>
      outcome_of s' q = Some y \<and> typed y (all_container_return U))"
proof -
  obtain x ys where xs: "xs = x # ys" "closed_at s p T x" "typed x T"
    "list_all2 (\<lambda>(T, p) x. closed_at s p T x \<and> typed x T) ps ys"
    using assms(1) by (cases xs) auto
  have cl: "list_all2 (\<lambda>(T, p) x. closed_at s p T x) ps ys"
    and ty: "list_all2 typed ys (map fst ps)"
    using xs(4) by (auto simp: list_all2_conv_all_nth split_beta)
  have "list_all2 (\<lambda>(T, p) x. closed_at s p T x) ((T, p) # ps) xs" using xs(1,2) cl by simp
  moreover have "typed (gather_pack (zip (map fst ((T, p) # ps)) xs) []) (all_return (T # map fst ps))"
    using gather_pack_typed [of xs "T # map fst ps" "[]" "[]"] ty xs(1,3) by (simp add: all_return_def)
  moreover obtain T2 where T2: "RaceReturn (T # map fst ps) = Some T2" using race_return_exists by blast
  moreover have "typed (stored T2 (race_value T T2 x)) T2" using race_value_typed [OF T2 _ xs(3)] by simp
  moreover have "typed (stored (all_container_return U) (all_outcome U zs)) (all_container_return U)"
    using assms(2) by (intro all_outcome_typed) (auto simp: list_all_length list_all2_conv_all_nth)
  moreover have "list_all2 (\<lambda>p x. closed_at s p U x) cs zs" using assms(2) by (auto elim: list_all2_mono)
  ultimately show ?thesis
    using All_run [of s "(T, p) # ps" xs t c K fs] race_run [OF T2 xs(2) cl, of t c K fs]
      All_container_run [of s U cs zs t c K fs] by auto
qed

theorem combinators_typed_witness:
  "\<exists>T2 s' q y. RaceReturn [TVoid, TInt] = Some T2 \<and>
     solo 0 settled_store [Run Plain (bindP (Race [(TVoid, Suc 0), (TInt, 0)]) finish)] s' [Run Plain (Return (VPromise q))] \<and>
     outcome_of s' q = Some y \<and> typed y T2"
  using combinators_typed [of settled_store TVoid "Suc 0" "[(TInt, 0)]" "[Inr VVoid, Inr (VInt 4)]" TInt "[0, 2]"
      "[Inr (VInt 4), Inl (Exc ''E'' ''boom'')]" 0 Plain finish "[]"]
    settled_store_closed by simp

text \<open>
  C39. The alternatives of a race. The template recursion that collects them gives the types of the
  non-void participants in the order of their first occurrence, each once, so every participant
  has exactly one alternative.
\<close>

theorem unique_variant_first_occurrences:
  "unique_variant ts = rev (remdups (rev (filter (\<lambda>t. \<not> is_void t) ts))) \<and>
   (\<forall>t. (\<exists>i < length ts. ts ! i = t \<and> t \<noteq> TVoid) =
      (\<exists>!i. i < length (unique_variant ts) \<and> unique_variant ts ! i = t))"
proof (intro conjI allI)
  show "unique_variant ts = rev (remdups (rev (filter (\<lambda>t. \<not> is_void t) ts)))"
    using UniqueVariantHelper_remdups [of "[]" ts] by (simp add: unique_variant_def)
  fix t
  have "(\<exists>i < length ts. ts ! i = t \<and> t \<noteq> TVoid) \<longleftrightarrow> t \<in> set (unique_variant ts)"
    by (auto simp: set_unique_variant is_void_def in_set_conv_nth)
  also have "\<dots> \<longleftrightarrow> (\<exists>!i. i < length (unique_variant ts) \<and> unique_variant ts ! i = t)"
    using distinct_unique_variant [of ts] by (auto simp: in_set_conv_nth nth_eq_iff_index_eq)
  finally show "(\<exists>i < length ts. ts ! i = t \<and> t \<noteq> TVoid) =
      (\<exists>!i. i < length (unique_variant ts) \<and> unique_variant ts ! i = t)" .
qed

end
