(* ===== verification/Racing.thy ===== *)
theory Racing
  imports Combinators
begin

text \<open>
  Race on promises that are still pending (details::Race in include/promise/details/helpers.inl and
  Promise::Race in include/promise/details/Promise.inl). Every participant gets an awaiter that
  settles the race; the race is chained to one Finally after another, each of which takes the awaiter
  of one participant back, and the promise that Race returns is the last of them. So the first
  participant that settles decides the race, and then no participant is registered any more.
\<close>

type_synonym participant = "cty \<times> pid \<times> rid \<times> jid"

abbreviation pids :: "participant list \<Rightarrow> pid list" where
  "pids es \<equiv> map (\<lambda>e. fst (snd e)) es"

lemma pids_member: "(T, p, r, j) \<in> set es \<Longrightarrow> p \<in> set (pids es)"
  by force

subsection \<open>Taking an awaiter back\<close>

lemma UnAwait_open:
  assumes "open_at s p r j T [AFunction i g]"
  obtains s' where "exec_op t (OUnAwait p i) s = Next (s', [], Inr (VBool True))" "open_at s' p r j T []" "keeps p s s'"
proof -
  let ?g = "\<lambda>x. x\<lparr>p_awaiters := erase_first (is_function i) (p_awaiters x)\<rparr>"
  let ?s = "upd_promise p ?g s"
  note o = assms [unfolded open_at_def]
  have "exec_op t (OUnAwait p i) s = Next (?s, [], Inr (VBool True))"
    using o by (simp add: valid_promise_def with_unique_def UnAwait_def ret_def)
  moreover have "open_at ?s p r j T []" using o by (simp add: open_at_def)
  moreover have "keeps p s ?s" using o by (intro keeps_upd [of _ _ ?g _ "[]" "[]" "[]"]) auto
  ultimately show thesis by (rule that)
qed

lemma UnAwait_closed:
  assumes "closed_at s p T x"
  obtains s' b where "exec_op t (OUnAwait p i) s = Next (s', [], Inr (VBool b))" "\<forall>q. keeps q s s'"
proof -
  let ?g = "\<lambda>x. x\<lparr>p_awaiters := erase_first (is_function i) (p_awaiters x)\<rparr>"
  obtain b s' where u: "UnAwait p i s = (b, s')" by (cases "UnAwait p i s")
  then have "s' = s \<or> s' = upd_promise p ?g s" by (auto simp: UnAwait_def split: if_splits)
  moreover have "keeps p s (upd_promise p ?g s)"
    using assms by (intro keeps_upd [of _ _ ?g _ "[]" "[]" "[]"]) (auto simp: held_at_def)
  ultimately have "\<forall>q. keeps q s s'" using keeps_everywhere [OF assms] by auto
  moreover have "exec_op t (OUnAwait p i) s = Next (s', [], Inr (VBool b))"
    using assms u by (simp add: valid_promise_def with_unique_def ret_def held_at_def)
  ultimately show thesis by (intro that)
qed

subsection \<open>The chain of a race\<close>

fun race_chain ::
    "'o store \<Rightarrow> cty \<Rightarrow> rid \<Rightarrow> jid \<Rightarrow> pid \<Rightarrow> participant list \<Rightarrow> pid \<Rightarrow> 'o awaiter list \<Rightarrow> bool" where
  "race_chain s T2 r0 j0 q [] Q as \<longleftrightarrow> as = [] \<and> Q = q"
| "race_chain s T2 r0 j0 q ((T, p, r, j) # es) Q as \<longleftrightarrow>
     (\<exists>i k q' r' j' as'.
       as = [AFunction k (finally_awaiter T2 q (unawait_fn p i) r' j')] \<and> q < q' \<and>
       (open_at s p r j T [AFunction i (race_handle T T2 p r0 j0)] \<or> (\<exists>x. closed_at s p T x)) \<and>
       open_at s q' r' j' T2 as' \<and> race_chain s T2 r0 j0 q' es Q as')"

lemma race_chain_mono:
  assumes "race_chain s T2 r0 j0 q es Q as"
    and "\<And>u r j as. q < u \<Longrightarrow> open_at s u r j T2 as \<Longrightarrow> open_at s' u r j T2 as"
    and "\<And>T p r j as. (T, p, r, j) \<in> set es \<Longrightarrow> open_at s p r j T as \<Longrightarrow> open_at s' p r j T as \<or> (\<exists>x. closed_at s' p T x)"
    and "\<And>p T x. closed_at s p T x \<Longrightarrow> closed_at s' p T x"
  shows "race_chain s' T2 r0 j0 q es Q as"
  using assms
proof (induction es arbitrary: q as)
  case (Cons e es)
  obtain T p r j where e: "e = (T, p, r, j)" by (cases e)
  from Cons.prems(1) obtain i k q' r' j' as' where l:
    "as = [AFunction k (finally_awaiter T2 q (unawait_fn p i) r' j')]" "q < q'"
    "open_at s p r j T [AFunction i (race_handle T T2 p r0 j0)] \<or> (\<exists>x. closed_at s p T x)"
    "open_at s q' r' j' T2 as'" "race_chain s T2 r0 j0 q' es Q as'"
    unfolding e race_chain.simps by blast
  have "race_chain s' T2 r0 j0 q' es Q as'"
    using Cons.IH [OF l(5)] Cons.prems(2-4) l(2) by (meson less_trans list.set_intros(2))
  moreover have "open_at s' p r j T [AFunction i (race_handle T T2 p r0 j0)] \<or> (\<exists>x. closed_at s' p T x)"
    using l(3) Cons.prems(3,4) unfolding e by (meson list.set_intros(1))
  ultimately show ?case unfolding e race_chain.simps using l(1,2) Cons.prems(2) [OF l(2,4)] by blast
qed simp

text \<open>One Finally of the chain: it takes the awaiter of its participant back and settles the next.\<close>

lemma take_back:
  assumes q: "closed_at s q T2 y"
    and p: "open_at s p r j T [AFunction i g] \<or> (\<exists>x. closed_at s p T x)"
    and n: "open_at s q' r' j' T2 as" "p \<noteq> q'"
  shows "\<exists>s'. solo t s (Run Plain (finally_awaiter T2 q (unawait_fn p i) r' j') # fs) s'
      (Awaiters as # Run Plain (Return VVoid) # fs) \<and> closed_at s' q' T2 (stored T2 y) \<and>
    (open_at s p r j T [AFunction i g] \<longrightarrow> open_at s' p r j T []) \<and>
    (\<forall>u r j T as. u \<noteq> p \<and> u \<noteq> q' \<and> open_at s u r j T as \<longrightarrow> open_at s' u r j T as) \<and>
    (\<forall>u T x. closed_at s u T x \<longrightarrow> closed_at s' u T x)"
proof -
  let ?m = "callP (settle_op r' j' y) (\<lambda>_. Return VVoid) :: 'a prog"
  obtain s1 b where s1: "exec_op t (OUnAwait p i) s = Next (s1, [], Inr (VBool b))" "keeps p s s1"
    "open_at s p r j T [AFunction i g] \<longrightarrow> open_at s1 p r j T []"
    using p
  proof (elim disjE exE)
    assume o: "open_at s p r j T [AFunction i g]"
    from UnAwait_open [OF o, of t] show thesis using that by metis
  next
    fix x assume c: "closed_at s p T x"
    from UnAwait_closed [OF c, of t i] show thesis using that open_not_closed c by metis
  qed
  have "open_at s1 q' r' j' T2 as" using keepsD(1) [OF s1(2) _ n(1)] n(2) by simp
  then obtain s2 where s2: "solo t s1 (Run Plain (bindP ?m finish) # fs) s2
      (Awaiters as # Run Plain (bindP (Return VVoid) finish) # fs)" "closed_at s2 q' T2 (stored T2 y)" "keeps q' s1 s2"
    by (rule settle_bind)
  let ?G = "\<lambda>w. case y of
      Inl e \<Rightarrow> callP (OReject j' (case w of Inr _ \<Rightarrow> e | Inl e' \<Rightarrow> e')) (\<lambda>_. Return VVoid)
    | Inr v \<Rightarrow> (case w of Inr _ \<Rightarrow> callP (OResolve r' v) (\<lambda>_. Return VVoid) | Inl e \<Rightarrow> callP (OReject j' e) (\<lambda>_. Return VVoid))"
  let ?u = "callP (OUnAwait p i) (\<lambda>_. Return VVoid) :: 'a prog"
  let ?F = "\<lambda>x. case x of
        Inl e \<Rightarrow> bindP ?u (\<lambda>w. callP (OReject j' (case w of Inr _ \<Rightarrow> e | Inl e' \<Rightarrow> e')) (\<lambda>_. Return VVoid))
      | Inr v \<Rightarrow> bindP ?u (\<lambda>w. case w of Inr _ \<Rightarrow> callP (OResolve r' v) (\<lambda>_. Return VVoid)
          | Inl e \<Rightarrow> callP (OReject j' e) (\<lambda>_. Return VVoid))"
  have F: "finally_awaiter T2 q (unawait_fn p i) r' j' = Call (OOutcome q) ?F"
    unfolding finally_awaiter_def by (intro arg_cong2 [of _ _ _ _ Call] ext refl)
      (simp add: finally_value_def finally_exception_def unawait_fn_def settle_with_def split: sum.split)
  have "?F y = bindP ?u ?G" by (cases y) simp_all
  then have "solo t s (Run Plain (finally_awaiter T2 q (unawait_fn p i) r' j') # fs) s (Run Plain (bindP ?u ?G) # fs)"
    using Outcome_rule [OF q, of t Plain ?F fs] unfolding F by simp
  also have "solo t s (Run Plain (bindP ?u ?G) # fs) s1 (Run Plain (?G (Inr VVoid)) # fs)"
    by (rule solo_bind_callP0 [OF s1(1)]) simp_all
  also have "?G (Inr VVoid) = bindP ?m finish" by (cases y) simp_all
  also note s2(1)
  finally have "solo t s (Run Plain (finally_awaiter T2 q (unawait_fn p i) r' j') # fs) s2
      (Awaiters as # Run Plain (Return VVoid) # fs)" by simp
  moreover have "open_at s p r j T [AFunction i g] \<longrightarrow> open_at s2 p r j T []"
    using s1(3) keepsD(1) [OF s2(3)] n(2) by blast
  moreover have "\<forall>u r j T as. u \<noteq> p \<and> u \<noteq> q' \<and> open_at s u r j T as \<longrightarrow> open_at s2 u r j T as"
    using keepsD(1) [OF s1(2)] keepsD(1) [OF s2(3)] by blast
  moreover have "\<forall>u T x. closed_at s u T x \<longrightarrow> closed_at s2 u T x"
    using keepsD(2) [OF s1(2)] keepsD(2) [OF s2(3)] by blast
  ultimately show ?thesis using s2(2) by blast
qed

text \<open>The whole chain, once the race is settled: the last promise gets the outcome of the race.\<close>

lemma race_cascade:
  assumes "race_chain s T2 r0 j0 q es Q as" "closed_at s q T2 y" "stored T2 y = y" "distinct (pids es)"
    "\<forall>p \<in> set (pids es). p < q"
  shows "\<exists>s'. solo t s (Awaiters as # fs) s' fs \<and> closed_at s' Q T2 y \<and>
    (\<forall>(T, p, r, j) \<in> set es. (\<exists>a. open_at s p r j T [a]) \<longrightarrow> open_at s' p r j T []) \<and>
    (\<forall>u r j T as. u < q \<and> u \<notin> set (pids es) \<and> open_at s u r j T as \<longrightarrow> open_at s' u r j T as) \<and>
    (\<forall>u T x. closed_at s u T x \<longrightarrow> closed_at s' u T x)"
  using assms
proof (induction es arbitrary: s q as fs)
  case Nil
  then show ?case using solo_awaiters_nil [of t s fs] by auto
next
  case (Cons e es)
  obtain T p r j where e: "e = (T, p, r, j)" by (cases e)
  from Cons.prems(1) obtain i k q' r' j' as' where l0:
    "as = [AFunction k (finally_awaiter T2 q (unawait_fn p i) r' j')]" "q < q'"
    "open_at s p r j T [AFunction i (race_handle T T2 p r0 j0)] \<or> (\<exists>x. closed_at s p T x)"
    "open_at s q' r' j' T2 as'" "race_chain s T2 r0 j0 q' es Q as'"
    unfolding e race_chain.simps by blast
  have "p < q" using Cons.prems(5) by (simp add: e)
  note l = this l0
  have d: "p \<notin> set (pids es)" "distinct (pids es)" using Cons.prems(4) by (auto simp: e)
  let ?fs = "Run Plain (Return VVoid) # Awaiters [] # fs"
  have "p \<noteq> q'" using l(1,3) by simp
  from take_back [OF Cons.prems(2) l(4,5) this, of t "Awaiters [] # fs"] Cons.prems(3)
  obtain s1 where s1: "solo t s (Run Plain (finally_awaiter T2 q (unawait_fn p i) r' j') # Awaiters [] # fs) s1 (Awaiters as' # ?fs)"
    "closed_at s1 q' T2 y" "open_at s p r j T [AFunction i (race_handle T T2 p r0 j0)] \<longrightarrow> open_at s1 p r j T []"
    "\<And>u r j T as. u \<noteq> p \<Longrightarrow> u \<noteq> q' \<Longrightarrow> open_at s u r j T as \<Longrightarrow> open_at s1 u r j T as"
    "\<And>u T x. closed_at s u T x \<Longrightarrow> closed_at s1 u T x"
    by auto
  have "race_chain s1 T2 r0 j0 q' es Q as'"
    using l(6)
  proof (rule race_chain_mono)
    show "open_at s1 u r j T2 as" if "q' < u" "open_at s u r j T2 as" for u r j as
      using s1(4) [OF _ _ that(2)] that(1) l(1,3) by simp
    show "open_at s1 p' r j T as \<or> (\<exists>x. closed_at s1 p' T x)" if "(T, p', r, j) \<in> set es" "open_at s p' r j T as" for T p' r j as
    proof -
      have "p' \<noteq> p" "p' < q" using pids_member [OF that(1)] d(1) Cons.prems(5) by (auto simp: e)
      then show ?thesis using s1(4) [OF _ _ that(2)] l(3) by simp
    qed
  qed (rule s1(5))
  moreover have "\<forall>p \<in> set (pids es). p < q'" using Cons.prems(5) l(3) by (auto simp: e)
  ultimately
  obtain s2 where s2: "solo t s1 (Awaiters as' # ?fs) s2 ?fs" "closed_at s2 Q T2 y"
    "\<And>T p r j a. (T, p, r, j) \<in> set es \<Longrightarrow> open_at s1 p r j T [a] \<Longrightarrow> open_at s2 p r j T []"
    "\<And>u r j T as. u < q' \<Longrightarrow> u \<notin> set (pids es) \<Longrightarrow> open_at s1 u r j T as \<Longrightarrow> open_at s2 u r j T as"
    "\<And>u T x. closed_at s1 u T x \<Longrightarrow> closed_at s2 u T x"
    using Cons.IH [OF _ s1(2) Cons.prems(3) d(2), of as' ?fs] by fast
  have "solo t s (Awaiters as # fs) s (Run Plain (finally_awaiter T2 q (unawait_fn p i) r' j') # Awaiters [] # fs)"
    unfolding l(2) by (rule solo_one) simp
  also note s1(1)
  also note s2(1)
  also have "solo t s2 ?fs s2 (Awaiters [] # fs)" by (rule solo_one) simp
  also note solo_awaiters_nil
  finally have run: "solo t s (Awaiters as # fs) s2 fs" .
  have other: "open_at s2 u ru ju Tu b" if "u < q" "u \<notin> set (pids es)" "u \<noteq> p" "open_at s u ru ju Tu b" for u ru ju Tu b
    using that l(3) by (intro s2(4) s1(4)) auto
  have "open_at s2 p' rp jp Tp []" if "(Tp, p', rp, jp) \<in> set (e # es)" "open_at s p' rp jp Tp [a]" for Tp p' rp jp a
  proof (cases "(Tp, p', rp, jp) = e")
    case True
    with that(2) l(4) open_not_closed have "open_at s1 p r j T []" by (metis e prod.inject s1(3))
    then show ?thesis using True s2(4) l(1,3) d(1) by (simp add: e)
  next
    case False
    then have "(Tp, p', rp, jp) \<in> set es" using that(1) by auto
    moreover from pids_member [OF this] have "p' \<noteq> p" "p' < q" using d(1) Cons.prems(5) by (auto simp: e)
    then have "open_at s1 p' rp jp Tp [a]" using s1(4) [OF _ _ that(2)] l(3) by simp
    ultimately show ?thesis by (rule s2(3))
  qed
  then show ?case using run s2(2) other s1(5) s2(5) by (intro exI [of _ s2] conjI) (auto simp: e)
qed

subsection \<open>Joining a race\<close>

lemma detach_open:
  assumes "open_at s p r j T as"
  obtains s' where "solo t s (Run c (bindP (callP (ODetach p) (\<lambda>_. finish x)) K) # fs) s' (Run c (K x) # fs)"
    "\<And>u r j T as. open_at s u r j T as \<Longrightarrow> open_at s' u r j T as"
proof -
  have "p < length (promises s)" "p_readers (promises s ! p) = []" "IsDone s p = Next False"
    using assms open_IsDone [OF assms] by (simp_all add: open_at_def)
  then obtain s' where "solo t s (Run c (bindP (callP (ODetach p) (\<lambda>_. finish x)) K) # fs) s' (Run c (K x) # fs)"
    "\<forall>q r j T as. open_at s q r j T as \<longrightarrow> open_at s' q r j T as" "\<forall>q. keeps q s s'"
    by (rule detach_bind)
  then show thesis by (intro that) blast+
qed

lemma Promise_Race_joins:
  assumes q: "open_at s q r j T2 []" and p: "open_at s p rp jp T []" "p \<noteq> q"
  shows "\<exists>s' q' r' j' i k. solo t s (Run c (bindP (Promise_Race T p T2 q r0 j0) K) # fs) s' (Run c (K (Inr (VPromise q'))) # fs) \<and>
    open_at s' p rp jp T [AFunction i (race_handle T T2 p r0 j0)] \<and>
    open_at s' q r j T2 [AFunction k (finally_awaiter T2 q (unawait_fn p i) r' j')] \<and>
    open_at s' q' r' j' T2 [] \<and> q < q' \<and>
    (\<forall>u r j T as. u \<noteq> p \<and> u \<noteq> q \<and> open_at s u r j T as \<longrightarrow> open_at s' u r j T as)"
proof -
  let ?h = "race_handle T T2 p r0 j0"
  let ?w = "\<lambda>w. case w of VId i \<Rightarrow> detaching q (Finally T2 q (unawait_fn p i)) | _ \<Rightarrow> thenP ?h (\<lambda>_. Return (VPromise q))"
  have "q < length (promises s)" "p_readers (promises s ! q) = []" "IsDone s q = Next False"
    using q open_IsDone [OF q] by (simp_all add: open_at_def)
  from IsDone_bind [OF this, of t c "\<lambda>d. if d = VBool True then callP (OTouch p) (\<lambda>_. Return (VPromise q))
      else callP (OTryAwait p ?h) ?w" K fs]
  have "solo t s (Run c (bindP (Promise_Race T p T2 q r0 j0) K) # fs) s (Run c (bindP (callP (OTryAwait p ?h) ?w) K) # fs)"
    by (simp add: Promise_Race_def)
  also obtain s1 i where s1: "exec_op t (OTryAwait p ?h) s = Next (s1, [], Inr (VId i))"
    "open_at s1 p rp jp T [AFunction i ?h]" "keeps p s s1"
    using TryAwait_rule [OF p(1), of t ?h] by auto
  let ?D = "\<lambda>x. bindP (callP (ODetach q) (\<lambda>_. finish x)) K"
  have "solo t s (Run c (bindP (callP (OTryAwait p ?h) ?w) K) # fs) s1
      (Run c (bindP (Finally T2 q (unawait_fn p i)) ?D) # fs)"
    by (rule solo_bind_callP0 [OF s1(1)]) (simp_all add: detaching_def bindP_assoc)
  also have q1: "open_at s1 q r j T2 []" using keepsD(1) [OF s1(3) _ q] p(2) by simp
  obtain s2 q' r' j' k where s2: "solo t s1 (Run c (bindP (Finally T2 q (unawait_fn p i)) ?D) # fs) s2
      (Run c (?D (Inr (VPromise q'))) # fs)"
    "open_at s2 q r j T2 [AFunction k (finally_awaiter T2 q (unawait_fn p i) r' j')]" "open_at s2 q' r' j' T2 []"
    "keeps q s1 s2" "q' = length (promises s1)"
    using create_first_fresh [OF q1, of t c T2 "finally_awaiter T2 q (unawait_fn p i)" "finally_settled T2 q (unawait_fn p i)" ?D fs]
    unfolding Finally_eq append_Nil by blast
  note s2(1)
  also obtain s3 where s3: "solo t s2 (Run c (?D (Inr (VPromise q'))) # fs) s3 (Run c (K (Inr (VPromise q'))) # fs)"
    "\<And>u r j T as. open_at s2 u r j T as \<Longrightarrow> open_at s3 u r j T as"
    using s2(2) by (rule detach_open [where t = t and c = c and x = "Inr (VPromise q')" and K = K and fs = fs], intro that)
  note s3(1)
  finally have "solo t s (Run c (bindP (Promise_Race T p T2 q r0 j0) K) # fs) s3 (Run c (K (Inr (VPromise q'))) # fs)" .
  moreover have "open_at s3 p rp jp T [AFunction i ?h]" using s3(2) keepsD(1) [OF s2(4) p(2) s1(2)] .
  moreover have "open_at s3 u ru ju Tu as" if "u \<noteq> p" "u \<noteq> q" "open_at s u ru ju Tu as" for u ru ju Tu as
    using s3(2) keepsD(1) [OF s2(4) that(2) keepsD(1) [OF s1(3) that(1,3)]] .
  moreover have "q < q'" using q1 s2(5) by (simp add: open_at_def)
  ultimately show ?thesis using s3(2) [OF s2(2)] s3(2) [OF s2(3)] by blast
qed

lemma race_fold_joins:
  assumes "open_at s q r j T2 []" "\<forall>(T, p, r, j) \<in> set es. open_at s p r j T []"
    "distinct (pids es)" "\<forall>p \<in> set (pids es). p < q"
  shows "\<exists>s' Q as. solo t s (Run c (bindP (race_fold T2 r0 j0 (map (\<lambda>(T, p, r, j). (T, p)) es) q) K) # fs) s'
      (Run c (K (Inr (VPromise Q))) # fs) \<and>
    open_at s' q r j T2 as \<and> race_chain s' T2 r0 j0 q es Q as \<and> (\<exists>r j. open_at s' Q r j T2 []) \<and>
    (\<forall>(T, p, r, j) \<in> set es. \<exists>i. open_at s' p r j T [AFunction i (race_handle T T2 p r0 j0)]) \<and>
    (\<forall>u r j T as. u < q \<and> u \<notin> set (pids es) \<and> open_at s u r j T as \<longrightarrow> open_at s' u r j T as)"
  using assms
proof (induction es arbitrary: s q r j)
  case Nil
  then show ?case by (auto intro: solo_refl)
next
  case (Cons e es)
  obtain T p rp jp where e: "e = (T, p, rp, jp)" by (cases e)
  have d: "p \<notin> set (pids es)" "distinct (pids es)" "p < q" using Cons.prems(3,4) by (auto simp: e)
  have p: "open_at s p rp jp T []" using Cons.prems(2) by (simp add: e)
  let ?ps = "map (\<lambda>(T, p, r, j). (T, p)) es"
  let ?R = "race_rest T2 r0 j0 ?ps K p"
  have "p \<noteq> q" using d(3) by simp
  from Promise_Race_joins [OF Cons.prems(1) p this, of t c r0 j0 ?R fs]
  obtain s1 q' r' j' i k where s1: "solo t s (Run c (bindP (Promise_Race T p T2 q r0 j0) ?R) # fs) s1 (Run c (?R (Inr (VPromise q'))) # fs)"
    "open_at s1 p rp jp T [AFunction i (race_handle T T2 p r0 j0)]"
    "open_at s1 q r j T2 [AFunction k (finally_awaiter T2 q (unawait_fn p i) r' j')]"
    "open_at s1 q' r' j' T2 []" "q < q'"
    "\<And>u r j T as. u \<noteq> p \<Longrightarrow> u \<noteq> q \<Longrightarrow> open_at s u r j T as \<Longrightarrow> open_at s1 u r j T as"
    by blast
  let ?K = "\<lambda>x. bindP (case x of Inl e \<Rightarrow> Throw e | Inr v \<Rightarrow> as_promise v (race_fold T2 r0 j0 ?ps)) K"
  have R: "?R (Inr (VPromise q')) = bindP (callP (ODetach p) (\<lambda>_. finish (Inr (VPromise q')))) ?K"
    by (simp add: race_rest_def)
  obtain s2 where s2: "solo t s1 (Run c (bindP (callP (ODetach p) (\<lambda>_. finish (Inr (VPromise q')))) ?K) # fs) s2
      (Run c (?K (Inr (VPromise q'))) # fs)"
    "\<And>u r j T as. open_at s1 u r j T as \<Longrightarrow> open_at s2 u r j T as"
    using s1(2) by (rule detach_open [where t = t and c = c and x = "Inr (VPromise q')" and K = ?K and fs = fs], intro that)
  have others: "\<forall>(T, p, r, j) \<in> set es. open_at s2 p r j T []"
  proof (intro ballI, clarify)
    fix T' p' r'' j'' assume m: "(T', p', r'', j'') \<in> set es"
    have "p' \<noteq> p" "p' \<noteq> q" using pids_member [OF m] d(1) Cons.prems(4) by (auto simp: e)
    moreover have "open_at s p' r'' j'' T' []" using m Cons.prems(2) by auto
    ultimately show "open_at s2 p' r'' j'' T' []" using s1(6) s2(2) by blast
  qed
  have "\<forall>p \<in> set (pids es). p < q'" using Cons.prems(4) s1(5) by (auto simp: e)
  from Cons.IH [OF s2(2) [OF s1(4)] others d(2) this]
  obtain s3 Q as where s3: "solo t s2 (Run c (bindP (race_fold T2 r0 j0 ?ps q') K) # fs) s3 (Run c (K (Inr (VPromise Q))) # fs)"
    "open_at s3 q' r' j' T2 as" "race_chain s3 T2 r0 j0 q' es Q as" "\<exists>r j. open_at s3 Q r j T2 []"
    "\<forall>(T, p, r, j) \<in> set es. \<exists>i. open_at s3 p r j T [AFunction i (race_handle T T2 p r0 j0)]"
    "\<And>u r j T as. u < q' \<Longrightarrow> u \<notin> set (pids es) \<Longrightarrow> open_at s2 u r j T as \<Longrightarrow> open_at s3 u r j T as"
    by blast
  have "bindP (race_fold T2 r0 j0 ((T, p) # ?ps) q) K = bindP (Promise_Race T p T2 q r0 j0) ?R"
    by (simp add: thenP_def detaching_def bindP_assoc race_rest_def [abs_def])
  with solo_trans [OF solo_trans [OF s1(1) [unfolded R] s2(1)], of s3] s3(1)
  have run: "solo t s (Run c (bindP (race_fold T2 r0 j0 (map (\<lambda>(T, p, r, j). (T, p)) (e # es)) q) K) # fs) s3
      (Run c (K (Inr (VPromise Q))) # fs)" by (simp add: e as_promise_def)
  have p3: "open_at s3 p rp jp T [AFunction i (race_handle T T2 p r0 j0)]"
    using s3(6) s2(2) [OF s1(2)] d(1,3) s1(5) by simp
  have "q \<notin> set (pids es)" using Cons.prems(4) by (auto simp: e)
  then have q3: "open_at s3 q r j T2 [AFunction k (finally_awaiter T2 q (unawait_fn p i) r' j')]"
    using s3(6) s2(2) [OF s1(3)] s1(5) by simp
  have "race_chain s3 T2 r0 j0 q (e # es) Q [AFunction k (finally_awaiter T2 q (unawait_fn p i) r' j')]"
    unfolding e race_chain.simps using p3 s1(5) s3(2,3) by blast
  moreover have "\<forall>(T, p, r, j) \<in> set (e # es). \<exists>i. open_at s3 p r j T [AFunction i (race_handle T T2 p r0 j0)]"
    using s3(5) p3 by (auto simp: e)
  moreover have "open_at s3 u ru ju Tu b" if "u < q" "u \<notin> set (pids (e # es))" "open_at s u ru ju Tu b" for u ru ju Tu b
    using that s1(5) by (intro s3(6) s2(2) s1(6)) (auto simp: e)
  ultimately show ?case using run q3 s3(4) by blast
qed

subsection \<open>Deciding a race\<close>

lemma race_decided:
  assumes q: "open_at s q r0 j0 T2 as" and ch: "race_chain s T2 r0 j0 q es Q as"
    and p: "(T, p, r, j) \<in> set es" "open_at s p r j T [AFunction i (race_handle T T2 p r0 j0)]"
    and es: "distinct (pids es)" "\<forall>p \<in> set (pids es). p < q"
  shows "\<exists>s'. solo t s (Run c (bindP (callP (settle_op r j x) (\<lambda>_. Return VVoid)) K) # fs) s' (Run c (K (Inr VVoid)) # fs) \<and>
    closed_at s' Q T2 (stored T2 (race_value T T2 (stored T x))) \<and>
    (\<forall>(T', p', r', j') \<in> set es. p' \<noteq> p \<and> (\<exists>a. open_at s p' r' j' T' [a]) \<longrightarrow> open_at s' p' r' j' T' [])"
proof -
  let ?y = "race_value T T2 (stored T x)"
  let ?fs = "Run Plain (Return VVoid) # Awaiters [] # Run c (K (Inr VVoid)) # fs"
  have pq: "p < q" using pids_member [OF p(1)] es(2) by auto
  obtain s1 where s1: "solo t s (Run c (bindP (callP (settle_op r j x) (\<lambda>_. Return VVoid)) K) # fs) s1
      (Awaiters [AFunction i (race_handle T T2 p r0 j0)] # Run c (bindP (Return VVoid) K) # fs)"
    "closed_at s1 p T (stored T x)" "keeps p s s1"
    using p(2) by (rule settle_bind)
  have q1: "open_at s1 q r0 j0 T2 as" using keepsD(1) [OF s1(3) _ q] pq by simp
  obtain s2 where s2: "solo t s1 (Run Plain (race_handle T T2 p r0 j0) # Awaiters [] # Run c (K (Inr VVoid)) # fs) s2 (Awaiters as # ?fs)"
    "closed_at s2 q T2 (stored T2 ?y)" "keeps q s1 s2"
    using continuation_rule [OF s1(2) q1, of t "race_value T T2" "Awaiters [] # Run c (K (Inr VVoid)) # fs"]
    unfolding race_handle_eq by blast
  have stays: "open_at s2 u ru ju Tu b" if "open_at s u ru ju Tu b" "u \<noteq> p" "u \<noteq> q" for u ru ju Tu b
    using keepsD(1) [OF s2(3) that(3) keepsD(1) [OF s1(3) that(2,1)]] .
  have closed: "closed_at s2 u Tu z" if "closed_at s u Tu z" for u Tu z
    using keepsD(2) [OF s2(3) keepsD(2) [OF s1(3) that]] .
  have "race_chain s2 T2 r0 j0 q es Q as"
    using ch
  proof (rule race_chain_mono)
    show "open_at s2 u r j T2 as" if "q < u" "open_at s u r j T2 as" for u r j as
      using stays [OF that(2)] that(1) pq by simp
    show "open_at s2 p' r' j' T' as \<or> (\<exists>x. closed_at s2 p' T' x)"
      if "(T', p', r', j') \<in> set es" "open_at s p' r' j' T' as" for T' p' r' j' as
    proof (cases "p' = p")
      case True
      then have "T' = T" using that(2) p(2) by (simp add: open_at_def)
      then show ?thesis using True keepsD(2) [OF s2(3) s1(2)] by blast
    next
      case False
      have "p' \<noteq> q" using pids_member [OF that(1)] es(2) by auto
      with False show ?thesis using stays [OF that(2)] by blast
    qed
  qed (rule closed)
  from race_cascade [OF this s2(2) stored_idem es, of t ?fs]
  obtain s3 where s3: "solo t s2 (Awaiters as # ?fs) s3 ?fs" "closed_at s3 Q T2 (stored T2 ?y)"
    "\<And>T p r j a. (T, p, r, j) \<in> set es \<Longrightarrow> open_at s2 p r j T [a] \<Longrightarrow> open_at s3 p r j T []"
    by fast
  note s1(1)
  also have "solo t s1 (Awaiters [AFunction i (race_handle T T2 p r0 j0)] # Run c (bindP (Return VVoid) K) # fs) s1
      (Run Plain (race_handle T T2 p r0 j0) # Awaiters [] # Run c (K (Inr VVoid)) # fs)" by (rule solo_one) simp
  also note s2(1)
  also note s3(1)
  also have "solo t s3 ?fs s3 (Awaiters [] # Run c (K (Inr VVoid)) # fs)" by (rule solo_one) simp
  also note solo_awaiters_nil
  finally have "solo t s (Run c (bindP (callP (settle_op r j x) (\<lambda>_. Return VVoid)) K) # fs) s3 (Run c (K (Inr VVoid)) # fs)" .
  moreover have "open_at s3 p' r' j' T' []"
    if "(T', p', r', j') \<in> set es" "p' \<noteq> p" "open_at s p' r' j' T' [a]" for T' p' r' j' a
  proof -
    have "p' \<noteq> q" using pids_member [OF that(1)] es(2) by auto
    then show ?thesis using s3(3) [OF that(1) stays [OF that(3,2)]] by simp
  qed
  ultimately show ?thesis using s3(2) by blast
qed

text \<open>
  C10. Race on pending promises. Race of distinct pending promises returns a pending promise.
  Whichever participant settles first, on whatever thread, settles it: with its exception, or with
  its value converted to the type of the race. When the call that settled the participant returns,
  all other participants are pending and have no awaiter left.
\<close>

theorem Race_first_wins:
  assumes "\<forall>(T, p, r, j) \<in> set es. open_at s p r j T []" "distinct (pids es)" "(T, p, r, j) \<in> set es"
  shows "\<exists>T2 s1 Q. RaceReturn (map fst es) = Some T2 \<and>
    solo t s (Run c (bindP (Race (map (\<lambda>(T, p, r, j). (T, p)) es)) K) # fs) s1 (Run c (K (Inr (VPromise Q))) # fs) \<and>
    outcome_of s1 Q = None \<and>
    (\<forall>t' c' K' fs' x. \<exists>s2.
       solo t' s1 (Run c' (bindP (callP (settle_op r j x) (\<lambda>_. Return VVoid)) K') # fs') s2 (Run c' (K' (Inr VVoid)) # fs') \<and>
       outcome_of s2 Q = Some (stored T2 (race_value T T2 (stored T x))) \<and>
       (\<forall>(T', p', r', j') \<in> set es. p' \<noteq> p \<longrightarrow> open_at s2 p' r' j' T' []))"
proof -
  let ?ps = "map (\<lambda>(T, p, r, j). (T, p)) es"
  obtain T2 where T2: "RaceReturn (map fst es) = Some T2"
    using race_return_exists [of "map fst es"] assms(3) by fastforce
  have fst: "map fst ?ps = map fst es" by (simp add: comp_def split_beta)
  obtain s1 q r0 j0 where s1: "solo t s (Run c (bindP (Race ?ps) K) # fs) s1
      (Run c (bindP (race_fold T2 r0 j0 ?ps q) K) # fs)"
    "open_at s1 q r0 j0 T2 []" "\<forall>p. keeps p s s1" "q = length (promises s)"
    unfolding Race_def fst T2 option.case by (rule Create_bind)
  have o1: "\<forall>(T, p, r, j) \<in> set es. open_at s1 p r j T []"
    using assms(1) keeps_allD(1) [OF s1(3)] by fast
  have less: "\<forall>p \<in> set (pids es). p < q" using assms(1) by (auto simp: s1(4) open_at_def)
  obtain s2 Q as where s2: "solo t s1 (Run c (bindP (race_fold T2 r0 j0 ?ps q) K) # fs) s2 (Run c (K (Inr (VPromise Q))) # fs)"
    "open_at s2 q r0 j0 T2 as" "race_chain s2 T2 r0 j0 q es Q as" "\<exists>r j. open_at s2 Q r j T2 []"
    "\<And>T p r j. (T, p, r, j) \<in> set es \<Longrightarrow> \<exists>i. open_at s2 p r j T [AFunction i (race_handle T T2 p r0 j0)]"
    using race_fold_joins [OF s1(2) o1 assms(2) less, of t c r0 j0 K fs] by fast
  obtain i where i: "open_at s2 p r j T [AFunction i (race_handle T T2 p r0 j0)]" using s2(5) [OF assms(3)] by blast
  have "outcome_of s2 Q = None" using s2(4) open_outcome by blast
  moreover have "\<exists>s3. solo t' s2 (Run c' (bindP (callP (settle_op r j x) (\<lambda>_. Return VVoid)) K') # fs') s3 (Run c' (K' (Inr VVoid)) # fs') \<and>
       outcome_of s3 Q = Some (stored T2 (race_value T T2 (stored T x))) \<and>
       (\<forall>(T', p', r', j') \<in> set es. p' \<noteq> p \<longrightarrow> open_at s3 p' r' j' T' [])" for t' c' K' fs' x
  proof -
    obtain s3 where s3: "solo t' s2 (Run c' (bindP (callP (settle_op r j x) (\<lambda>_. Return VVoid)) K') # fs') s3 (Run c' (K' (Inr VVoid)) # fs')"
      "closed_at s3 Q T2 (stored T2 (race_value T T2 (stored T x)))"
      "\<forall>(T', p', r', j') \<in> set es. p' \<noteq> p \<and> (\<exists>a. open_at s2 p' r' j' T' [a]) \<longrightarrow> open_at s3 p' r' j' T' []"
      using race_decided [OF s2(2,3) assms(3) i assms(2) less, of t' c' x K' fs'] by (elim exE conjE)
    have "open_at s3 p' r' j' T' []" if m: "(T', p', r', j') \<in> set es" "p' \<noteq> p" for T' p' r' j'
      using bspec [OF s3(3) m(1)] s2(5) [OF m(1)] m(2) by auto
    then show ?thesis using s3(1) closed_outcome [OF s3(2)] by (intro exI [of _ s3] conjI) auto
  qed
  ultimately show ?thesis using T2 solo_trans [OF s1(1) s2(1)] by blast
qed

subsection \<open>A race of two pending promises\<close>

definition racing_store :: "unit store" where
  "racing_store = snd (snd (snd (Promise_Create TVoid (fresh_store TInt))))"

lemma racing_store_open: "open_at racing_store 0 0 0 TInt []" "open_at racing_store (Suc 0) (Suc 0) (Suc 0) TVoid []"
  by (simp_all add: racing_store_def fresh_store_def Promise_Create_eq empty_store_def open_at_def)

theorem Race_first_wins_witness:
  "\<exists>s1 Q. solo 0 racing_store [Run Plain (bindP (Race [(TInt, 0), (TVoid, Suc 0)]) finish)] s1 [Run Plain (Return (VPromise Q))] \<and>
     outcome_of s1 Q = None \<and>
     (\<exists>s2. solo 1 s1 [Run Plain (bindP (callP (settle_op (Suc 0) (Suc 0) (Inr VVoid)) (\<lambda>_. Return VVoid)) finish)] s2
         [Run Plain (Return VVoid)] \<and>
       outcome_of s2 Q = Some (Inr VNullopt) \<and> open_at s2 0 0 0 TInt [])"
proof -
  have "RaceReturn (map fst [(TInt, 0 :: pid, 0 :: rid, 0 :: jid), (TVoid, Suc 0, Suc 0, Suc 0)]) = Some (TOptional TInt)"
    "stored (TOptional TInt) (race_value TVoid (TOptional TInt) (stored TVoid (Inr VVoid))) = Inr VNullopt" by code_simp+
  with Race_first_wins [of "[(TInt, 0, 0, 0), (TVoid, Suc 0, Suc 0, Suc 0)]" racing_store TVoid "Suc 0" "Suc 0" "Suc 0"
      0 Plain finish "[]"] racing_store_open
  obtain s1 Q where 1: "solo 0 racing_store [Run Plain (bindP (Race [(TInt, 0), (TVoid, Suc 0)]) finish)] s1 [Run Plain (Return (VPromise Q))]"
    "outcome_of s1 Q = None"
    and 2: "\<forall>t' c' K' fs' x. \<exists>s2. solo t' s1 (Run c' (bindP (callP (settle_op (Suc 0) (Suc 0) x) (\<lambda>_. Return VVoid)) K') # fs')
        s2 (Run c' (K' (Inr VVoid)) # fs') \<and>
      outcome_of s2 Q = Some (stored (TOptional TInt) (race_value TVoid (TOptional TInt) (stored TVoid x))) \<and> open_at s2 0 0 0 TInt []"
    by auto
  show ?thesis
    using 1 2 [rule_format, of 1 Plain "Inr VVoid" finish "[]"]
      \<open>stored (TOptional TInt) (race_value TVoid (TOptional TInt) (stored TVoid (Inr VVoid))) = Inr VNullopt\<close> by auto
qed

end
