(* ===== verification/Sync.thy ===== *)
theory Sync
  imports Combinators Wrapper
begin

text \<open>
  The synchronisation classes built on promises: \<^verbatim>\<open>Mutex\<close> and \<^verbatim>\<open>LockGuard\<close>
  (src/Mutex.cpp), \<^verbatim>\<open>CVPromise\<close> (src/CVPromise.cpp, include/promise/CVPromise.h) and
  \<^verbatim>\<open>StatePromise\<close> (src/StatePromise.cpp). Their objects live beside the promises, in the
  \<open>objects\<close> field of the store; a section under the class's own \<^verbatim>\<open>std::shared_mutex\<close>, or an
  unlocked access to a member, is one \<open>OAtomic\<close> step given by a function on the objects.
\<close>

subsection \<open>Objects\<close>

record mutex =
  mx_promise :: pid
  mx_resolve :: "rid option"

record lock_guard =
  lg_own_lock :: bool
  lg_mutex :: "nat option"

text \<open>A promise with its two handles, as \<^verbatim>\<open>Create\<close> returns them.\<close>

record channel =
  ch_promise :: pid
  ch_resolve :: "rid option"
  ch_reject :: "jid option"

record state_promise =
  sp_ready :: channel
  sp_done :: channel

record objs =
  mutexes :: "mutex list"
  guards :: "lock_guard list"
  cvs :: "channel list"
  states :: "state_promise list"

definition no_objs :: objs where
  "no_objs = \<lparr>mutexes = [], guards = [], cvs = [], states = []\<rparr>"

definition End :: "string \<Rightarrow> exc" where
  "End c = Exc (c @ ''::End'') ''Promise ended''"

definition opt_val :: "('a \<Rightarrow> val) \<Rightarrow> 'a option \<Rightarrow> val" where
  "opt_val f x = (case x of None \<Rightarrow> VNullopt | Some y \<Rightarrow> VSome (f y))"

definition assertP :: "bool \<Rightarrow> string \<Rightarrow> 'o prog \<Rightarrow> 'o prog" where
  "assertP b n m = callP (OAssert b n) (\<lambda>_. m)"

text \<open>\<^verbatim>\<open>(*resolve)()\<close> and \<^verbatim>\<open>reject->Apply<E>()\<close> through a pointer that must not be null.\<close>

definition call_resolve :: "val \<Rightarrow> string \<Rightarrow> 'o prog \<Rightarrow> 'o prog" where
  "call_resolve v n m =
     (case v of
        VSome (VResolve r) \<Rightarrow> callP (OResolve r VVoid) (\<lambda>_. m)
      | _ \<Rightarrow> assertP False n m)"

definition call_reject :: "val \<Rightarrow> string \<Rightarrow> exc \<Rightarrow> 'o prog \<Rightarrow> 'o prog" where
  "call_reject v n e m =
     (case v of
        VSome (VReject j) \<Rightarrow> callP (OReject j e) (\<lambda>_. m)
      | _ \<Rightarrow> assertP False n m)"

definition new_channel :: "pid \<Rightarrow> rid \<Rightarrow> jid \<Rightarrow> channel" where
  "new_channel p r j = \<lparr>ch_promise = p, ch_resolve = Some r, ch_reject = Some j\<rparr>"

subsection \<open>Mutex\<close>

definition upd_mutex :: "nat \<Rightarrow> (mutex \<Rightarrow> mutex) \<Rightarrow> objs \<Rightarrow> objs" where
  "upd_mutex m f b = b\<lparr>mutexes := upd_nth m f (mutexes b)\<rparr>"

text \<open>The constructor: \<^verbatim>\<open>promise_\<close> starts as a fulfilled promise.\<close>

definition Mutex_new :: "objs prog" where
  "Mutex_new =
     thenP (Promise_Resolve TVoid VVoid) (\<lambda>v. as_promise v (\<lambda>p.
       callP (OAtomic (\<lambda>b. (b\<lparr>mutexes := mutexes b @ [\<lparr>mx_promise = p, mx_resolve = None\<rparr>]\<rparr>,
                            VNamed ''Mutex'' (length (mutexes b))))) Return))"

text \<open>The first locked section of Lock: take the promise to wait for and leave one's own.\<close>

definition Mutex_enqueue :: "nat \<Rightarrow> pid \<Rightarrow> objs \<Rightarrow> objs \<times> val" where
  "Mutex_enqueue m p b =
     (upd_mutex m (\<lambda>x. x\<lparr>mx_promise := p\<rparr>) b, VPromise (mx_promise (mutexes b ! m)))"

text \<open>The second one. The value says whether \<^verbatim>\<open>assert(!resolve_)\<close> holds.\<close>

definition Mutex_acquire :: "nat \<Rightarrow> rid \<Rightarrow> objs \<Rightarrow> objs \<times> val" where
  "Mutex_acquire m r b =
     (if mx_resolve (mutexes b ! m) = None
      then (upd_mutex m (\<lambda>x. x\<lparr>mx_resolve := Some r\<rparr>) b, VBool True)
      else (b, VBool False))"

text \<open>The rest of the coroutine after \<^verbatim>\<open>co_await current_promise\<close>.\<close>

definition Mutex_Lock_resumed :: "nat \<Rightarrow> rid \<Rightarrow> outcome \<Rightarrow> objs prog" where
  "Mutex_Lock_resumed m r x =
     (case x of
        Inl e \<Rightarrow> Throw e
      | Inr _ \<Rightarrow> callP (OAtomic (Mutex_acquire m r)) (\<lambda>b.
          assertP (b = VBool True) ''!resolve_'' (Return VVoid)))"

definition Mutex_Lock_body :: "nat \<Rightarrow> objs prog" where
  "Mutex_Lock_body m =
     callP (OCreate TVoid) (\<lambda>h. with_handles h (\<lambda>p r j.
       callP (OAtomic (Mutex_enqueue m p)) (\<lambda>v. as_promise v (\<lambda>current_promise.
         CoAwait current_promise (Mutex_Lock_resumed m r)))))"

definition Mutex_Lock :: "nat \<Rightarrow> objs prog" where
  "Mutex_Lock m = WPromise_from (Fn (TCallable (TIPromise TVoid False) []) (\<lambda>_. Mutex_Lock_body m))"

text \<open>The locked section of UnLock: the resolve handle moves out; null when it is not locked.\<close>

definition Mutex_take :: "nat \<Rightarrow> objs \<Rightarrow> objs \<times> val" where
  "Mutex_take m b =
     (upd_mutex m (\<lambda>x. x\<lparr>mx_resolve := None\<rparr>) b, opt_val VResolve (mx_resolve (mutexes b ! m)))"

definition Mutex_UnLock :: "nat \<Rightarrow> objs prog" where
  "Mutex_UnLock m =
     callP (OAtomic (Mutex_take m)) (\<lambda>v. call_resolve v ''resolve_'' (Return VVoid))"

definition Mutex_OwnsLock :: "nat \<Rightarrow> objs prog" where
  "Mutex_OwnsLock m = callP (OAtomic (\<lambda>b. (b, VBool (mx_resolve (mutexes b ! m) \<noteq> None)))) Return"

subsection \<open>LockGuard\<close>

definition upd_guard :: "nat \<Rightarrow> (lock_guard \<Rightarrow> lock_guard) \<Rightarrow> objs \<Rightarrow> objs" where
  "upd_guard g f b = b\<lparr>guards := upd_nth g f (guards b)\<rparr>"

text \<open>Reads \<^verbatim>\<open>own_lock_\<close> and \<^verbatim>\<open>mutex_\<close>.\<close>

definition with_guard :: "nat \<Rightarrow> (bool \<Rightarrow> nat option \<Rightarrow> objs prog) \<Rightarrow> objs prog" where
  "with_guard g f =
     callP (OAtomic (\<lambda>b. (b, VTuple [VBool (lg_own_lock (guards b ! g)),
                                   opt_val (VNamed ''Mutex'') (lg_mutex (guards b ! g))]))) (\<lambda>v. case v of
         VTuple [VBool own, VSome (VNamed _ m)] \<Rightarrow> f own (Some m)
       | VTuple [VBool own, _] \<Rightarrow> f own None
       | _ \<Rightarrow> Return VVoid)"

definition set_guard :: "nat \<Rightarrow> (lock_guard \<Rightarrow> lock_guard) \<Rightarrow> objs prog \<Rightarrow> objs prog" where
  "set_guard g f k = callP (OAtomic (\<lambda>b. (upd_guard g f b, VVoid))) (\<lambda>_. k)"

definition LockGuard_new :: "nat \<Rightarrow> objs prog" where
  "LockGuard_new m =
     callP (OAtomic (\<lambda>b. (b\<lparr>guards := guards b @ [\<lparr>lg_own_lock = False, lg_mutex = Some m\<rparr>]\<rparr>,
                          VNamed ''LockGuard'' (length (guards b))))) Return"

text \<open>\<^verbatim>\<open>if (own_lock_) { assert(mutex_); mutex_->UnLock(); }\<close> of the destructor and the move.\<close>

definition release_if_owned :: "nat \<Rightarrow> objs prog" where
  "release_if_owned g =
     with_guard g (\<lambda>own mu. if own
       then (case mu of None \<Rightarrow> assertP False ''mutex_'' (Return VVoid) | Some m \<Rightarrow> Mutex_UnLock m)
       else Return VVoid)"

definition LockGuard_move_new :: "nat \<Rightarrow> objs prog" where
  "LockGuard_move_new right =
     callP (OAtomic (\<lambda>b. (upd_guard right (\<lambda>_. \<lparr>lg_own_lock = False, lg_mutex = None\<rparr>)
                            (b\<lparr>guards := guards b @ [guards b ! right]\<rparr>),
                          VNamed ''LockGuard'' (length (guards b))))) Return"

definition LockGuard_move_assign :: "nat \<Rightarrow> nat \<Rightarrow> objs prog" where
  "LockGuard_move_assign g right =
     (if g = right then Return VVoid
      else thenP (release_if_owned g) (\<lambda>_.
        callP (OAtomic (\<lambda>b. (upd_guard right (\<lambda>_. \<lparr>lg_own_lock = False, lg_mutex = None\<rparr>)
                               (upd_guard g (\<lambda>_. guards b ! right) b), VVoid))) Return))"

definition LockGuard_destroy :: "nat \<Rightarrow> objs prog" where
  "LockGuard_destroy g = release_if_owned g"

definition LockGuard_Unlock :: "nat \<Rightarrow> objs prog" where
  "LockGuard_Unlock g =
     with_guard g (\<lambda>own mu. assertP own ''own_lock_'' (case mu of
         None \<Rightarrow> assertP False ''mutex_'' (Return VVoid)
       | Some m \<Rightarrow> set_guard g (\<lambda>x. x\<lparr>lg_own_lock := False\<rparr>) (Mutex_UnLock m)))"

definition LockGuard_OwnsLock :: "nat \<Rightarrow> objs prog" where
  "LockGuard_OwnsLock g = with_guard g (\<lambda>own mu. Return (VBool own))"

definition LockGuard_Lock :: "nat \<Rightarrow> objs prog" where
  "LockGuard_Lock g =
     with_guard g (\<lambda>own mu. case mu of
         None \<Rightarrow> assertP False ''mutex_'' (Return VVoid)
       | Some m \<Rightarrow> assertP (\<not> own) ''!own_lock_''
           (set_guard g (\<lambda>x. x\<lparr>lg_own_lock := True\<rparr>) (Mutex_Lock m)))"

text \<open>\<^verbatim>\<open>co_await\<close> of the promise a call returns, its exception leaving the coroutine.\<close>

definition co_await_call :: "'o prog \<Rightarrow> (val \<Rightarrow> 'o prog) \<Rightarrow> 'o prog" where
  "co_await_call m k =
     thenP m (\<lambda>v. as_promise v (\<lambda>q. CoAwait q (\<lambda>x. case x of Inl e \<Rightarrow> Throw e | Inr w \<Rightarrow> k w)))"

definition LockGuard_Create :: "nat \<Rightarrow> bool \<Rightarrow> objs prog" where
  "LockGuard_Create m defer_lock =
     WPromise_from (Fn (TCallable (TIPromise (TNamed ''LockGuard'') False) []) (\<lambda>_.
       thenP (LockGuard_new m) (\<lambda>v. case v of
           VNamed _ g \<Rightarrow>
             if defer_lock then Return v
             else co_await_call (LockGuard_Lock g) (\<lambda>_. Return v)
         | _ \<Rightarrow> Return VVoid)))"

subsection \<open>CVPromise\<close>

definition CVPromise_new :: "objs prog" where
  "CVPromise_new =
     callP (OCreate TVoid) (\<lambda>h. with_handles h (\<lambda>p r j.
       callP (OAtomic (\<lambda>b. (b\<lparr>cvs := cvs b @ [new_channel p r j]\<rparr>,
                            VNamed ''CVPromise'' (length (cvs b))))) Return))"

definition CVPromise_destroy :: "nat \<Rightarrow> objs prog" where
  "CVPromise_destroy c =
     callP (OAtomic (\<lambda>b. (b, opt_val VReject (ch_reject (cvs b ! c))))) (\<lambda>v.
       call_reject v ''reject_'' (End ''CVPromise'') (Return VVoid))"

definition CVPromise_Wait :: "nat \<Rightarrow> objs prog" where
  "CVPromise_Wait c = callP (OAtomic (\<lambda>b. (b, VPromise (ch_promise (cvs b ! c))))) Return"

text \<open>\<^verbatim>\<open>operator*\<close> reads the same member.\<close>

definition CVPromise_deref :: "nat \<Rightarrow> objs prog" where
  "CVPromise_deref c = callP (OAtomic (\<lambda>b. (b, VPromise (ch_promise (cvs b ! c))))) Return"

definition relock :: "nat \<Rightarrow> objs fn" where
  "relock g = Fn (TCallable (TIPromise TVoid False) [])
     (\<lambda>_. co_await_call (LockGuard_Lock g) (\<lambda>_. Return VVoid))"

definition CVPromise_Wait_lock :: "nat \<Rightarrow> nat \<Rightarrow> objs prog" where
  "CVPromise_Wait_lock c g =
     thenP (CVPromise_Wait c) (\<lambda>v. as_promise v (\<lambda>p.
       thenP (thenP (LockGuard_OwnsLock g) (\<lambda>own. if own = VBool True then LockGuard_Unlock g else Return VVoid))
         (\<lambda>_. WPromise_Then True TVoid p (relock g) [])))"

text \<open>The locked section of Notify and Reject: a new promise and handles, the old ones returned.\<close>

definition CVPromise_exchange :: "nat \<Rightarrow> channel \<Rightarrow> objs \<Rightarrow> objs \<times> val" where
  "CVPromise_exchange c new b =
     (let old = cvs b ! c in
      (b\<lparr>cvs := (cvs b)[c := new]\<rparr>,
       VTuple [opt_val VResolve (ch_resolve old), opt_val VReject (ch_reject old), VPromise (ch_promise old)]))"

definition assert_done :: "pid \<Rightarrow> string \<Rightarrow> 'o prog \<Rightarrow> 'o prog" where
  "assert_done p n k = thenP (WPromise_Done p) (\<lambda>b. assertP (b = VBool True) n k)"

definition CVPromise_Notify :: "nat \<Rightarrow> objs prog" where
  "CVPromise_Notify c =
     callP (OCreate TVoid) (\<lambda>h. with_handles h (\<lambda>p r j.
       callP (OAtomic (CVPromise_exchange c (new_channel p r j))) (\<lambda>v. case v of
           VTuple [resolve, reject, VPromise old_promise] \<Rightarrow>
             call_resolve resolve ''resolve_'' (assert_done old_promise ''old_promise.Done()'' (Return VVoid))
         | _ \<Rightarrow> Return VVoid)))"

definition CVPromise_Reject :: "nat \<Rightarrow> exc \<Rightarrow> objs prog" where
  "CVPromise_Reject c e =
     callP (OCreate TVoid) (\<lambda>h. with_handles h (\<lambda>p r j.
       callP (OAtomic (CVPromise_exchange c (new_channel p r j))) (\<lambda>v. case v of
           VTuple [resolve, reject, VPromise old_promise] \<Rightarrow>
             call_reject reject ''reject_'' e (assert_done old_promise ''old_promise.Done()'' (Return VVoid))
         | _ \<Rightarrow> Return VVoid)))"

definition CVPromise_Resolved :: "nat \<Rightarrow> objs prog" where
  "CVPromise_Resolved c = thenP (CVPromise_Wait c) (\<lambda>v. as_promise v WPromise_Resolved)"

definition CVPromise_Rejected :: "nat \<Rightarrow> objs prog" where
  "CVPromise_Rejected c = thenP (CVPromise_Wait c) (\<lambda>v. as_promise v WPromise_Rejected)"

subsection \<open>StatePromise\<close>

text \<open>The class has no mutex: its members are read and assigned without synchronisation.\<close>

definition with_state :: "nat \<Rightarrow> (val \<Rightarrow> pid \<Rightarrow> val \<Rightarrow> pid \<Rightarrow> objs prog) \<Rightarrow> objs prog" where
  "with_state i f =
     callP (OAtomic (\<lambda>b. let x = states b ! i in
       (b, VTuple [opt_val VResolve (ch_resolve (sp_ready x)), VPromise (ch_promise (sp_ready x)),
                   opt_val VResolve (ch_resolve (sp_done x)), VPromise (ch_promise (sp_done x))]))) (\<lambda>v. case v of
         VTuple [rr, VPromise rp, dr, VPromise dp] \<Rightarrow> f rr rp dr dp
       | _ \<Rightarrow> Return VVoid)"

definition StatePromise_new :: "objs prog" where
  "StatePromise_new =
     callP (OCreate TVoid) (\<lambda>h. with_handles h (\<lambda>p r j.
       callP (OCreate TVoid) (\<lambda>h'. with_handles h' (\<lambda>p' r' j'.
         callP (OAtomic (\<lambda>b. (b\<lparr>states := states b @ [\<lparr>sp_ready = new_channel p r j, sp_done = new_channel p' r' j'\<rparr>]\<rparr>,
                              VNamed ''StatePromise'' (length (states b))))) Return))))"

definition StatePromise_destroy :: "nat \<Rightarrow> objs prog" where
  "StatePromise_destroy i =
     with_state i (\<lambda>ready_resolve ready done_resolve dn.
       assertP (ready_resolve \<noteq> VNullopt) ''ready_resolve_'' (assertP (done_resolve \<noteq> VNullopt) ''done_resolve_''
         (call_resolve ready_resolve ''ready_resolve_'' (call_resolve done_resolve ''done_resolve_'' (Return VVoid)))))"

definition StatePromise_WaitReady :: "nat \<Rightarrow> objs prog" where
  "StatePromise_WaitReady i = with_state i (\<lambda>_ ready _ _. Return (VPromise ready))"

definition StatePromise_WaitDone :: "nat \<Rightarrow> objs prog" where
  "StatePromise_WaitDone i = with_state i (\<lambda>_ _ _ dn. Return (VPromise dn))"

definition StatePromise_Wait :: "nat \<Rightarrow> objs prog" where
  "StatePromise_Wait i =
     thenP (StatePromise_WaitDone i) (\<lambda>v. as_promise v (\<lambda>dn.
       thenP (StatePromise_WaitReady i) (\<lambda>w. as_promise w (\<lambda>ready. Race [(TVoid, dn), (TVoid, ready)]))))"

definition throw_End :: "'o fn" where
  "throw_End = Fn (TCallable TVoid []) (\<lambda>_. Throw (End ''StatePromise''))"

definition StatePromise_WaitDoneWithReject :: "nat \<Rightarrow> objs prog" where
  "StatePromise_WaitDoneWithReject i =
     with_state i (\<lambda>_ _ _ dn. WPromise_Then False TVoid dn throw_End [])"

definition StatePromise_WaitWithReject :: "nat \<Rightarrow> objs prog" where
  "StatePromise_WaitWithReject i =
     thenP (StatePromise_WaitDoneWithReject i) (\<lambda>v. as_promise v (\<lambda>dn.
       thenP (StatePromise_WaitReady i) (\<lambda>w. as_promise w (\<lambda>ready. Race [(TVoid, dn), (TVoid, ready)]))))"

definition StatePromise_Ready :: "nat \<Rightarrow> objs prog" where
  "StatePromise_Ready i =
     with_state i (\<lambda>ready_resolve ready done_resolve dn.
       assertP (ready_resolve \<noteq> VNullopt) ''ready_resolve_'' (
         thenP (WPromise_Done ready) (\<lambda>a. assertP (a \<noteq> VBool True) ''!ready_promise_.Done()'' (
           thenP (WPromise_Done dn) (\<lambda>b. assertP (b \<noteq> VBool True) ''!done_promise_.Done()'' (
             call_resolve ready_resolve ''ready_resolve_'' (Return VVoid)))))))"

definition StatePromise_Done :: "nat \<Rightarrow> objs prog" where
  "StatePromise_Done i =
     with_state i (\<lambda>ready_resolve ready done_resolve dn.
       assertP (done_resolve \<noteq> VNullopt) ''done_resolve_'' (
         thenP (WPromise_Done ready) (\<lambda>ready_was_done.
           call_resolve done_resolve ''done_resolve_'' (
             if ready_was_done = VBool True then Return VVoid
             else call_resolve ready_resolve ''ready_resolve_'' (Return VVoid)))))"

definition StatePromise_IsDone :: "nat \<Rightarrow> objs prog" where
  "StatePromise_IsDone i =
     with_state i (\<lambda>_ ready _ dn. thenP (WPromise_Resolved dn) (\<lambda>a.
       if a = VBool True then WPromise_Resolved ready else Return (VBool False)))"

definition set_ready :: "nat \<Rightarrow> channel \<Rightarrow> objs \<Rightarrow> objs" where
  "set_ready i c b = b\<lparr>states := upd_nth i (\<lambda>x. x\<lparr>sp_ready := c\<rparr>) (states b)\<rparr>"

definition set_done :: "nat \<Rightarrow> channel \<Rightarrow> objs \<Rightarrow> objs" where
  "set_done i c b = b\<lparr>states := upd_nth i (\<lambda>x. x\<lparr>sp_done := c\<rparr>) (states b)\<rparr>"

text \<open>\<^verbatim>\<open>std::tie(promise, resolve, reject) = Promise<void>::Create()\<close>.\<close>

definition renew :: "(channel \<Rightarrow> objs \<Rightarrow> objs) \<Rightarrow> objs prog \<Rightarrow> objs prog" where
  "renew upd k =
     callP (OCreate TVoid) (\<lambda>h. with_handles h (\<lambda>p r j.
       callP (OAtomic (\<lambda>b. (upd (new_channel p r j) b, VVoid))) (\<lambda>_. k)))"

definition StatePromise_Reset :: "nat \<Rightarrow> objs prog" where
  "StatePromise_Reset i =
     with_state i (\<lambda>_ ready _ dn. thenP (WPromise_Resolved dn) (\<lambda>a.
       if a = VBool True then
         thenP (WPromise_Resolved ready) (\<lambda>b. assertP (b = VBool True) ''ready_promise_.Resolved()'' (
           renew (set_ready i) (renew (set_done i) (Return VVoid))))
       else thenP (WPromise_Resolved ready) (\<lambda>b.
         if b = VBool True then renew (set_ready i) (Return VVoid) else Return VVoid)))"

end
