(* ===== verification/Locks.thy ===== *)
theory Locks
  imports Sync
begin

text \<open>
  What \<^verbatim>\<open>Mutex\<close> and \<^verbatim>\<open>LockGuard\<close> (src/Mutex.cpp) do when the steps of other threads do not
  come between: a Lock on a free and on a held mutex, the UnLock that frees it or hands it over,
  and the guard. The interleaved case is in the theory of the lock order.
\<close>

subsection \<open>Rules for the objects\<close>

lemma objects_at [simp]:
  "open_at (s\<lparr>objects := b\<rparr>) p r j T as = open_at s p r j T as"
  "held_at (s\<lparr>objects := b\<rparr>) p T x rs = held_at s p T x rs"
  "coro_with (s\<lparr>objects := b\<rparr>) p r T h as = coro_with s p r T h as"
  unfolding open_at_def held_at_def coro_at_def by (cases x; simp)+

text \<open>A step that changes nothing but the objects and what was not described before.\<close>

definition moves :: "pid \<Rightarrow> 'o store \<Rightarrow> 'o store \<Rightarrow> bool" where
  "moves p s s' \<longleftrightarrow> keeps p s (s'\<lparr>objects := objects s\<rparr>)"

lemma movesD:
  assumes "moves p s s'"
  shows "q \<noteq> p \<Longrightarrow> open_at s q r j T as \<Longrightarrow> open_at s' q r j T as" "held_at s q T x rs \<Longrightarrow> held_at s' q T x rs"
    "q \<noteq> p \<Longrightarrow> coro_with s q r T h as \<Longrightarrow> coro_with s' q r T h as"
  using keepsD [OF assms [unfolded moves_def]] by simp_all

lemma movesI: "keeps p (s\<lparr>objects := b\<rparr>) s' \<Longrightarrow> moves p s s'"
  by (auto simp: moves_def keeps_def)

definition carries :: "'o store \<Rightarrow> 'o store \<Rightarrow> bool" where
  "carries s s' \<longleftrightarrow> (\<forall>p. keeps p s (s'\<lparr>objects := objects s\<rparr>))"

lemma carriesD:
  assumes "carries s s'"
  shows "open_at s q r j T as \<Longrightarrow> open_at s' q r j T as" "held_at s q T x rs \<Longrightarrow> held_at s' q T x rs"
    "coro_with s q r T h as \<Longrightarrow> coro_with s' q r T h as"
  using keeps_allD [OF assms [unfolded carries_def]] by simp_all

lemma carriesI: "\<forall>p. keeps p s s' \<Longrightarrow> carries s (s'\<lparr>objects := b\<rparr>)"
  using keeps_allD(4) [of s s'] by (auto simp: carries_def keeps_def)

lemma carries_after: "\<forall>p. keeps p s s1 \<Longrightarrow> carries s1 s2 \<Longrightarrow> carries s s2"
  unfolding carries_def using keeps_all_trans [of s s1] keeps_allD(4) [of s s1] by fastforce

lemma carries_fresh:
  assumes "carries s s1" "keeps q s1 s2" "q = length (promises s)"
  shows "carries s s2"
proof -
  have "keeps q (s1\<lparr>objects := objects s\<rparr>) (s2\<lparr>objects := objects s\<rparr>)"
    using assms(2) unfolding keeps_def by simp
  then show ?thesis using keeps_fresh assms(1,3) unfolding carries_def by blast
qed

lemma carries_objects: "carries (s\<lparr>objects := b\<rparr>) s' \<Longrightarrow> carries s s'"
  unfolding carries_def keeps_def objects_at by auto

lemma Atomic_bind:
  "solo t s (Run c (bindP (callP (OAtomic f) g) K) # fs) (s\<lparr>objects := fst (f (objects s))\<rparr>)
     (Run c (bindP (g (snd (f (objects s)))) K) # fs)"
  by (rule solo_bind_callP0) (simp_all add: ret_def split_beta)

lemma assert_bind:
  "b \<Longrightarrow> solo t s (Run c (bindP (assertP b n m) K) # fs) s (Run c (bindP m K) # fs)"
  unfolding assertP_def by (rule solo_bind_callP0) (simp_all add: ret_def)

lemmas Create_run = Create_bind [where K = finish, unfolded bindP_finish_right]
  and Atomic_run = Atomic_bind [where K = finish, unfolded bindP_finish_right]
  and assert_run = assert_bind [where K = finish, unfolded bindP_finish_right]

lemma mutex_upd [simp]:
  "m < length (mutexes b) \<Longrightarrow> mutexes (upd_mutex m f b) ! m = f (mutexes b ! m)"
  "length (mutexes (upd_mutex m f b)) = length (mutexes b)"
  by (simp_all add: upd_mutex_def)

text \<open>A mutex that nobody holds or waits for, and one that is held.\<close>

definition mutex_free :: "objs store \<Rightarrow> nat \<Rightarrow> bool" where
  "mutex_free s m \<longleftrightarrow>
     m < length (mutexes (objects s)) \<and> mx_resolve (mutexes (objects s) ! m) = None \<and>
     closed_at s (mx_promise (mutexes (objects s) ! m)) TVoid (Inr VVoid)"

definition mutex_held :: "objs store \<Rightarrow> nat \<Rightarrow> pid \<Rightarrow> rid \<Rightarrow> bool" where
  "mutex_held s m p r \<longleftrightarrow>
     m < length (mutexes (objects s)) \<and> mutexes (objects s) ! m = \<lparr>mx_promise = p, mx_resolve = Some r\<rparr>"

lemma Mutex_Lock_eq:
  "Mutex_Lock m = MakePromise (Fn (TFunction (TIPromise TVoid False) []) (\<lambda>_. Mutex_Lock_body m)) []"
  by (simp add: Mutex_Lock_def WPromise_from_def MakePromise_def)

lemma Lock_enqueues:
  assumes "m < length (mutexes (objects s))"
  obtains s' p r j where "solo t s (Run (Coroutine q) (Mutex_Lock_body m) # fs) s'
      (Run (Coroutine q) (CoAwait (mx_promise (mutexes (objects s) ! m)) (Mutex_Lock_resumed m r)) # fs)"
    "open_at s' p r j TVoid []" "objects s' = upd_mutex m (\<lambda>x. x\<lparr>mx_promise := p\<rparr>) (objects s)"
    "carries s s'" "p = length (promises s)"
proof -
  let ?x = "mutexes (objects s) ! m"
  let ?f = "\<lambda>p r j. callP (OAtomic (Mutex_enqueue m p)) (\<lambda>v. as_promise v (\<lambda>current_promise.
         CoAwait current_promise (Mutex_Lock_resumed m r)))"
  obtain s1 p r j where s1: "solo t s (Run (Coroutine q) (Mutex_Lock_body m) # fs) s1
      (Run (Coroutine q) (?f p r j) # fs)"
    "open_at s1 p r j TVoid []" "\<forall>p. keeps p s s1" "p = length (promises s)"
    unfolding Mutex_Lock_body_def by (rule Create_run)
  let ?b = "upd_mutex m (\<lambda>x. x\<lparr>mx_promise := p\<rparr>) (objects s)"
  have "solo t s (Run (Coroutine q) (Mutex_Lock_body m) # fs) (s1\<lparr>objects := ?b\<rparr>)
      (Run (Coroutine q) (CoAwait (mx_promise ?x) (Mutex_Lock_resumed m r)) # fs)"
    using solo_trans [OF s1(1) Atomic_run] keeps_allD(4) [OF s1(3)]
    by (simp add: as_promise_def Mutex_enqueue_def)
  from that [OF this _ _ carriesI [OF s1(3)] s1(4)] s1(2) show thesis by simp
qed

lemma resumed_run:
  assumes "m < length (mutexes (objects s))" "mx_resolve (mutexes (objects s) ! m) = None"
  shows "solo t s (Run c (Mutex_Lock_resumed m r (Inr v)) # fs)
      (s\<lparr>objects := upd_mutex m (\<lambda>x. x\<lparr>mx_resolve := Some r\<rparr>) (objects s)\<rparr>) (Run c (Return VVoid) # fs)"
proof -
  let ?s = "s\<lparr>objects := upd_mutex m (\<lambda>x. x\<lparr>mx_resolve := Some r\<rparr>) (objects s)\<rparr>"
  let ?g = "\<lambda>b. assertP (b = VBool True) ''!resolve_'' (Return VVoid)"
  have "solo t s (Run c (callP (OAtomic (Mutex_acquire m r)) ?g) # fs) ?s (Run c (?g (VBool True)) # fs)"
    using Atomic_run [of t s c "Mutex_acquire m r" ?g fs] assms by (simp add: Mutex_acquire_def)
  also have "solo t ?s (Run c (?g (VBool True)) # fs) ?s (Run c (Return VVoid) # fs)"
    by (rule assert_run) simp
  finally show ?thesis by (simp add: Mutex_Lock_resumed_def)
qed

lemma Lock_free_body:
  assumes "mutex_free s m"
  shows "\<exists>s' p r j. solo t s (Run (Coroutine q) (Mutex_Lock_body m) # fs) s' (Run (Coroutine q) (Return VVoid) # fs) \<and>
    mutex_held s' m p r \<and> open_at s' p r j TVoid [] \<and> p = length (promises s) \<and> carries s s' \<and>
    guards (objects s') = guards (objects s)"
proof -
  note free = assms [unfolded mutex_free_def]
  obtain s1 p r j where s1: "solo t s (Run (Coroutine q) (Mutex_Lock_body m) # fs) s1
      (Run (Coroutine q) (CoAwait (mx_promise (mutexes (objects s) ! m)) (Mutex_Lock_resumed m r)) # fs)"
    "open_at s1 p r j TVoid []" "objects s1 = upd_mutex m (\<lambda>x. x\<lparr>mx_promise := p\<rparr>) (objects s)"
    "carries s s1" "p = length (promises s)"
    using free by (elim conjE Lock_enqueues)
  let ?s = "s1\<lparr>objects := upd_mutex m (\<lambda>x. x\<lparr>mx_resolve := Some r\<rparr>) (objects s1)\<rparr>"
  have "solo t s1 (Run (Coroutine q) (CoAwait (mx_promise (mutexes (objects s) ! m)) (Mutex_Lock_resumed m r)) # fs)
      ?s (Run (Coroutine q) (Return VVoid) # fs)"
  proof (rule solo_trans [OF CoAwait_rule])
    show "closed_at s1 (mx_promise (mutexes (objects s) ! m)) TVoid (Inr VVoid)"
      using free carriesD(2) [OF s1(4)] by blast
    show "solo t s1 (Run (Coroutine q) (Mutex_Lock_resumed m r (Inr VVoid)) # fs) ?s (Run (Coroutine q) (Return VVoid) # fs)"
      using free s1(3) by (intro resumed_run) simp_all
  qed
  moreover have "mutex_held ?s m p r" using free s1(3) by (simp add: mutex_held_def)
  moreover have "carries s ?s" using s1(4) by (simp add: carries_def)
  moreover have "open_at ?s p r j TVoid []" using s1(2) by simp
  moreover have "guards (objects ?s) = guards (objects s)" using s1(3) by (simp add: upd_mutex_def)
  ultimately show ?thesis using solo_trans [OF s1(1)] s1(5) by blast
qed

lemma Lock_free_run:
  assumes "mutex_free s m"
  shows "\<exists>s' q p r j. solo t s (Run c (bindP (Mutex_Lock m) K) # fs) s' (Run c (K (Inr (VPromise q))) # fs) \<and>
    closed_at s' q TVoid (Inr VVoid) \<and> mutex_held s' m p r \<and> open_at s' p r j TVoid [] \<and>
    guards (objects s') = guards (objects s) \<and> carries s s'"
proof -
  let ?P = "\<lambda>q s'. \<exists>p r j. mutex_held s' m p r \<and> open_at s' p r j TVoid [] \<and> p \<noteq> q \<and>
    guards (objects s') = guards (objects s) \<and> carries s s'"
  have "\<exists>s' q s2. solo t s (Run c (bindP (Mutex_Lock m) K) # fs) s' (Run c (K (Inr (VPromise q))) # fs) \<and>
      closed_at s' q TVoid (stored TVoid (Inr VVoid)) \<and> keeps q s2 s' \<and> ?P q s2 \<and> q = length (promises s)"
    unfolding Mutex_Lock_eq
  proof (rule MakePromise_run_new)
    fix s1 :: "objs store" and q rq
    assume q: "running_at s1 q rq TVoid" and k: "\<forall>q. keeps q s s1"
    have "mutex_free s1 m" using assms keeps_allD(2,4) [OF k] by (simp add: mutex_free_def)
    then obtain s2 p r j where s2: "solo t s1 (Run (Coroutine q) (Mutex_Lock_body m) # Run c (K (Inr (VPromise q))) # fs) s2
        (Run (Coroutine q) (Return VVoid) # Run c (K (Inr (VPromise q))) # fs)" "mutex_held s2 m p r"
      "open_at s2 p r j TVoid []" "p = length (promises s1)" "carries s1 s2"
      "guards (objects s2) = guards (objects s1)"
      using Lock_free_body by blast
    moreover have "p \<noteq> q" using q s2(4) by (simp add: coro_at_def)
    moreover have "carries s s2" using k s2(5) by (rule carries_after)
    moreover have "guards (objects s2) = guards (objects s)" using s2(6) keeps_allD(4) [OF k] by simp
    ultimately show "\<exists>s2. solo t s1 (Run (Coroutine q) (Mutex_Lock_body m) # Run c (K (Inr (VPromise q))) # fs) s2
        (Run (Coroutine q) (finish (Inr VVoid)) # Run c (K (Inr (VPromise q))) # fs) \<and> running_at s2 q rq TVoid \<and> ?P q s2"
      using carriesD(3) [OF s2(5) q] by auto
  qed
  then obtain s' q s2 p r j where s': "solo t s (Run c (bindP (Mutex_Lock m) K) # fs) s' (Run c (K (Inr (VPromise q))) # fs)"
    "closed_at s' q TVoid (stored TVoid (Inr VVoid))" "keeps q s2 s'" "mutex_held s2 m p r"
    "open_at s2 p r j TVoid []" "p \<noteq> q" "guards (objects s2) = guards (objects s)" "carries s s2"
    "q = length (promises s)" by blast
  have "mutex_held s' m p r" using s'(4) keepsD(4) [OF s'(3)] by (simp add: mutex_held_def)
  moreover have "open_at s' p r j TVoid []" using keepsD(1) [OF s'(3,6,5)] .
  moreover have "closed_at s' q TVoid (Inr VVoid)" using s'(2) by (simp add: stored_def is_void_def)
  moreover have "carries s s'" using s'(8,3,9) by (rule carries_fresh)
  moreover have "guards (objects s') = guards (objects s)" using s'(7) keepsD(4) [OF s'(3)] by simp
  ultimately show ?thesis using s'(1) by blast
qed

lemma UnLock_run:
  assumes "mutex_held s m p' r" "open_at s p r j TVoid as"
  obtains s' where "solo t s (Run c (bindP (Mutex_UnLock m) K) # fs) s' (Awaiters as # Run c (K (Inr VVoid)) # fs)"
    "closed_at s' p TVoid (Inr VVoid)" "objects s' = upd_mutex m (\<lambda>x. x\<lparr>mx_resolve := None\<rparr>) (objects s)"
    "moves p s s'"
proof -
  note held = assms(1) [unfolded mutex_held_def]
  let ?s = "s\<lparr>objects := upd_mutex m (\<lambda>x. x\<lparr>mx_resolve := None\<rparr>) (objects s)\<rparr>"
  let ?m = "callP (settle_op r j (Inr VVoid)) (\<lambda>_. Return VVoid)"
  have "solo t s (Run c (bindP (Mutex_UnLock m) K) # fs) ?s (Run c (bindP ?m K) # fs)"
    using Atomic_bind [of t s c "Mutex_take m" "\<lambda>v. call_resolve v ''resolve_'' (Return VVoid)" K fs] held
    by (simp add: Mutex_UnLock_def Mutex_take_def opt_val_def call_resolve_def)
  moreover have "open_at ?s p r j TVoid as" using assms(2) by simp
  then obtain s' where s': "solo t ?s (Run c (bindP ?m K) # fs) s' (Awaiters as # Run c (bindP (Return VVoid) K) # fs)"
    "closed_at s' p TVoid (stored TVoid (Inr VVoid))" "keeps p ?s s'" by (rule settle_bind)
  ultimately have "solo t s (Run c (bindP (Mutex_UnLock m) K) # fs) s' (Awaiters as # Run c (K (Inr VVoid)) # fs)"
    using solo_trans by fastforce
  from that [OF this _ _ movesI [OF s'(3)]] s'(2) keepsD(4) [OF s'(3)] show thesis
    by (simp add: stored_def is_void_def)
qed


subsection \<open>Waiting coroutines\<close>

text \<open>A coroutine that awaits a pending promise is registered with it and gives up its frame.\<close>

lemma Suspend_rule:
  assumes q: "running_at s q rq T" and p: "open_at s p r j T' as"
  obtains s' where "solo t s (Run (Coroutine q) (CoAwait p k) # fs) s' fs"
    "coro_at s' q rq T (Suspended p k)" "open_at s' p r j T' (as @ [ACoroutine q])" "objects s' = objects s"
    "\<forall>u r j T as. u \<noteq> p \<longrightarrow> open_at s u r j T as \<longrightarrow> open_at s' u r j T as"
    "\<forall>u T x rs. held_at s u T x rs \<longrightarrow> held_at s' u T x rs"
proof -
  note o = q [unfolded coro_at_def] and a = p [unfolded open_at_def]
  let ?g = "\<lambda>y. y\<lparr>p_handle := Suspended p k\<rparr>"
  let ?h = "\<lambda>x. x\<lparr>p_use_count := p_use_count x + 1, p_awaiters := p_awaiters x @ [ACoroutine q]\<rparr>"
  let ?s1 = "upd_promise q ?g s" and ?s2 = "upd_promise p ?h (upd_promise q ?g s)"
  have pq: "q \<noteq> p" using o a by auto
  have p1: "open_at ?s1 p r j T' as" using a pq by (simp add: open_at_def)
  have "solo t s (Run (Coroutine q) (CoAwait p k) # fs) ?s1 (Suspend q p # fs)"
    using open_IsDone [OF p] a by (intro solo_one) (simp add: co_await_def valid_promise_def with_shared_def)
  also have "solo t ?s1 (Suspend q p # fs) ?s2 fs"
    using open_IsDone [OF p1] a pq
    by (intro solo_one) (simp add: await_suspend_def with_unique_def Await_coroutine_def)
  finally have run: "solo t s (Run (Coroutine q) (CoAwait p k) # fs) ?s2 fs" .
  have k: "keeps q s ?s1" using o by (intro keeps_upd [of _ _ ?g _ "[]" "[]" "[]"]) auto
  have k2: "keeps p ?s1 ?s2" using a by (intro keeps_upd [of _ _ ?h _ "[]" "[]" "[]"]) auto
  have "open_at ?s2 u r' j' T2 bs" if "u \<noteq> p" "open_at s u r' j' T2 bs" for u r' j' T2 bs
  proof -
    have "u \<noteq> q" using that(2) o by (auto simp: open_at_def)
    then show ?thesis using keepsD(1) [OF k2 that(1) keepsD(1) [OF k _ that(2)]] by blast
  qed
  moreover have "held_at ?s2 u T2 x rs" if "held_at s u T2 x rs" for u T2 x rs
    using keepsD(2) [OF k2 keepsD(2) [OF k that]] .
  moreover have "coro_at ?s2 q rq T (Suspended p k)" using o pq by (simp add: coro_at_def)
  moreover have "open_at ?s2 p r j T' (as @ [ACoroutine q])" using p1 by (simp add: open_at_def)
  ultimately show thesis using run by (intro that [of ?s2]) simp_all
qed

text \<open>It goes on with the outcome once the promise is settled.\<close>

lemma Resume_rule:
  assumes q: "coro_with s q rq T (Suspended p k) as" and p: "held_at s p T' x rs" and t: "t \<notin> set rs"
  obtains s' where "solo t s (Resume q # fs) s' (Run (Coroutine q) (k x) # fs)"
    "coro_with s' q rq T Running as" "keeps q s s'"
proof -
  note o = q [unfolded coro_at_def]
  let ?g = "\<lambda>y. y\<lparr>p_handle := Running\<rparr>"
  let ?s = "upd_promise q ?g s"
  have "solo t s (Resume q # fs) ?s (Run (Coroutine q) (k x) # fs)"
    using o p t closed_await [OF p]
    by (intro solo_one) (simp add: resume_def with_shared_def held_at_def)
  moreover have "coro_with ?s q rq T Running as" using o by (simp add: coro_at_def)
  moreover have "keeps q s ?s" using o by (intro keeps_upd [of _ _ ?g _ "[]" "[]" "[]"]) auto
  ultimately show thesis by (rule that)
qed

lemma Lock_contended_run:
  assumes m: "m < length (mutexes (objects s))" "mutexes (objects s) ! m = \<lparr>mx_promise = p, mx_resolve = Some r0\<rparr>"
    and p: "open_at s p r j TVoid as"
  shows "\<exists>s' q rq p' r' j'. solo t s (Run c (bindP (Mutex_Lock m) K) # fs) s' (Run c (K (Inr (VPromise q))) # fs) \<and>
    coro_at s' q rq TVoid (Suspended p (Mutex_Lock_resumed m r')) \<and>
    open_at s' p r j TVoid (as @ [ACoroutine q]) \<and> open_at s' p' r' j' TVoid [] \<and> p' \<noteq> p \<and>
    objects s' = upd_mutex m (\<lambda>x. x\<lparr>mx_promise := p'\<rparr>) (objects s)"
proof -
  let ?f = "\<lambda>h. with_handles h (\<lambda>p r j. Return (VPromise p))"
  let ?R = "\<lambda>q. Run c (K (Inr (VPromise q))) # fs"
  obtain s1 q rq jq where s1: "solo t s (Run c (bindP (callP (OStart TVoid False (\<lambda>r j. Mutex_Lock_body m)) ?f) K) # fs) s1
       (Run (Coroutine q) (Mutex_Lock_body m) # Run c (bindP (?f (VTuple [VPromise q, VResolve rq, VReject jq])) K) # fs)"
    "running_at s1 q rq TVoid" "\<forall>q. keeps q s s1" "q = length (promises s)"
    by (rule Start_rule)
  have b: "objects s1 = objects s" and p1: "open_at s1 p r j TVoid as" using keeps_allD [OF s1(3)] p by auto
  obtain s2 p' r' j' where s2: "solo t s1 (Run (Coroutine q) (Mutex_Lock_body m) # ?R q) s2
      (Run (Coroutine q) (CoAwait (mx_promise (mutexes (objects s1) ! m)) (Mutex_Lock_resumed m r')) # ?R q)"
    "open_at s2 p' r' j' TVoid []" "objects s2 = upd_mutex m (\<lambda>x. x\<lparr>mx_promise := p'\<rparr>) (objects s1)"
    "carries s1 s2" "p' = length (promises s1)"
    using m(1) unfolding b [symmetric] by (rule Lock_enqueues)
  have pp: "p' \<noteq> p" using s2(5) p1 by (auto simp: open_at_def)
  obtain s3 where s3: "solo t s2 (Run (Coroutine q) (CoAwait p (Mutex_Lock_resumed m r')) # ?R q) s3 (?R q)"
    "coro_at s3 q rq TVoid (Suspended p (Mutex_Lock_resumed m r'))" "open_at s3 p r j TVoid (as @ [ACoroutine q])"
    "objects s3 = objects s2" "\<forall>u r j T as. u \<noteq> p \<longrightarrow> open_at s2 u r j T as \<longrightarrow> open_at s3 u r j T as"
    "\<forall>u T x rs. held_at s2 u T x rs \<longrightarrow> held_at s3 u T x rs"
    using carriesD(3) [OF s2(4) s1(2)] carriesD(1) [OF s2(4) p1] by (rule Suspend_rule)
  have "solo t s (Run c (bindP (Mutex_Lock m) K) # fs) s1 (Run (Coroutine q) (Mutex_Lock_body m) # ?R q)"
    using s1(1) unfolding Mutex_Lock_eq MakePromise_coroutine by simp
  also note s2(1) [unfolded b m(2) mutex.select_convs]
  also note s3(1)
  finally have run: "solo t s (Run c (bindP (Mutex_Lock m) K) # fs) s3 (?R q)" .
  moreover have "open_at s3 p' r' j' TVoid []" using s3(5) pp s2(2) by blast
  moreover have "objects s3 = upd_mutex m (\<lambda>x. x\<lparr>mx_promise := p'\<rparr>) (objects s)"
    using b s2(3) s3(4) by simp
  ultimately show ?thesis using s3(2,3) pp by blast
qed

lemma UnLock_handoff:
  assumes m: "mutex_held s m p' r" and p: "open_at s p r j TVoid [ACoroutine q]"
    and q: "coro_at s q rq TVoid (Suspended p (Mutex_Lock_resumed m r'))"
    and p': "open_at s p' r' j' TVoid as" and pp: "p' \<noteq> p"
  shows "\<exists>s'. solo t s (Run c (bindP (Mutex_UnLock m) K) # fs) s' (Run c (K (Inr VVoid)) # fs) \<and>
    closed_at s' q TVoid (Inr VVoid) \<and> mutex_held s' m p' r' \<and> open_at s' p' r' j' TVoid as \<and>
    closed_at s' p TVoid (Inr VVoid)"
proof -
  let ?F = "Awaiters [] # Run c (K (Inr VVoid)) # fs"
  note held = m [unfolded mutex_held_def]
  obtain s1 where s1: "solo t s (Run c (bindP (Mutex_UnLock m) K) # fs) s1 (Awaiters [ACoroutine q] # Run c (K (Inr VVoid)) # fs)"
    "closed_at s1 p TVoid (Inr VVoid)" "objects s1 = upd_mutex m (\<lambda>x. x\<lparr>mx_resolve := None\<rparr>) (objects s)" "moves p s s1"
    using m p by (rule UnLock_run)
  have qp: "q \<noteq> p" "p' \<noteq> q" using p q p' by (auto simp: open_at_def coro_at_def)
  have "solo t s1 (Awaiters [ACoroutine q] # Run c (K (Inr VVoid)) # fs) s1 (Resume q # ?F)" by (rule solo_one) simp
  also obtain s2 where s2: "solo t s1 (Resume q # ?F) s2 (Run (Coroutine q) (Mutex_Lock_resumed m r' (Inr VVoid)) # ?F)"
    "running_at s2 q rq TVoid" "keeps q s1 s2"
    using movesD(3) [OF s1(4) qp(1) q] s1(2) by (rule Resume_rule) simp
  note this(1)
  also have "solo t s2 (Run (Coroutine q) (Mutex_Lock_resumed m r' (Inr VVoid)) # ?F)
      (s2\<lparr>objects := upd_mutex m (\<lambda>x. x\<lparr>mx_resolve := Some r'\<rparr>) (objects s2)\<rparr>) (Run (Coroutine q) (Return VVoid) # ?F)"
    (is "solo _ _ _ ?s3 _")
    using held s1(3) keepsD(4) [OF s2(3)] by (intro resumed_run) simp_all
  also have "running_at ?s3 q rq TVoid" using s2(2) by simp
  then obtain s4 where s4: "solo t ?s3 (Run (Coroutine q) (finish (Inr VVoid)) # ?F) s4 ?F"
    "closed_at s4 q TVoid (stored TVoid (Inr VVoid))" "keeps q ?s3 s4"
    using coroutine_end by blast
  note this(1) [unfolded finish.simps]
  also note solo_awaiters_nil
  finally have run: "solo t s (Run c (bindP (Mutex_UnLock m) K) # fs) s4 (Run c (K (Inr VVoid)) # fs)"
    using s1(1) solo_trans by blast
  have "open_at ?s3 p' r' j' TVoid as"
    using keepsD(1) [OF s2(3) qp(2) movesD(1) [OF s1(4) pp p']] by simp
  from keepsD(1) [OF s4(3) qp(2) this] have "open_at s4 p' r' j' TVoid as" .
  moreover have "mutex_held s4 m p' r'"
    using held s1(3) keepsD(4) [OF s2(3)] keepsD(4) [OF s4(3)] by (simp add: mutex_held_def)
  moreover have "closed_at ?s3 p TVoid (Inr VVoid)" using keepsD(2) [OF s2(3) s1(2)] by simp
  from keepsD(2) [OF s4(3) this] have "closed_at s4 p TVoid (Inr VVoid)" .
  moreover have "closed_at s4 q TVoid (Inr VVoid)" using s4(2) by (simp add: stored_def is_void_def)
  ultimately show ?thesis using run by blast
qed

subsection \<open>The laws of the mutex\<close>

text \<open>
  Lock and UnLock. On a free mutex Lock returns a promise that is already fulfilled and the
  mutex is owned; UnLock then makes it free again, whoever calls it.
\<close>

theorem Lock_UnLock_roundtrip:
  assumes "mutex_free s m"
  shows "\<exists>s1 q r. solo t s (Run c (bindP (Mutex_Lock m) K) # fs) s1 (Run c (K (Inr (VPromise q))) # fs) \<and>
    outcome_of s1 q = Some (Inr VVoid) \<and> mx_resolve (mutexes (objects s1) ! m) = Some r \<and>
    (\<forall>t' c' K' fs'. \<exists>s2. solo t' s1 (Run c' (bindP (Mutex_UnLock m) K') # fs') s2 (Run c' (K' (Inr VVoid)) # fs') \<and>
       mutex_free s2 m)"
proof -
  obtain s1 q p r j where s1: "solo t s (Run c (bindP (Mutex_Lock m) K) # fs) s1 (Run c (K (Inr (VPromise q))) # fs)"
    "closed_at s1 q TVoid (Inr VVoid)" "mutex_held s1 m p r" "open_at s1 p r j TVoid []"
    using Lock_free_run [OF assms] by blast
  have "\<exists>s2. solo t' s1 (Run c' (bindP (Mutex_UnLock m) K') # fs') s2 (Run c' (K' (Inr VVoid)) # fs') \<and> mutex_free s2 m"
    for t' c' K' fs'
  proof -
    obtain s2 where s2: "solo t' s1 (Run c' (bindP (Mutex_UnLock m) K') # fs') s2 (Awaiters [] # Run c' (K' (Inr VVoid)) # fs')"
      "closed_at s2 p TVoid (Inr VVoid)" "objects s2 = upd_mutex m (\<lambda>x. x\<lparr>mx_resolve := None\<rparr>) (objects s1)" "moves p s1 s2"
      using s1(3,4) by (rule UnLock_run)
    from s1(3) s2(2,3) have "mutex_free s2 m" by (simp add: mutex_free_def mutex_held_def)
    with solo_trans [OF s2(1) solo_awaiters_nil] show ?thesis by blast
  qed
  moreover have "mx_resolve (mutexes (objects s1) ! m) = Some r" using s1(3) by (simp add: mutex_held_def)
  ultimately show ?thesis using s1(1) closed_outcome [OF s1(2)] by blast
qed

text \<open>
  Handing over a held mutex. A Lock on a mutex that somebody holds returns a pending promise;
  the UnLock of the holder resumes the waiting coroutine before it returns, which takes the mutex,
  and the promise of the Lock is fulfilled.
\<close>

theorem contended_Lock_handed_over:
  assumes "mutex_held s m p r" "open_at s p r j TVoid []"
  shows "\<exists>s1 q r'. solo t s (Run c (bindP (Mutex_Lock m) K) # fs) s1 (Run c (K (Inr (VPromise q))) # fs) \<and>
    outcome_of s1 q = None \<and> mx_resolve (mutexes (objects s1) ! m) = Some r \<and>
    (\<forall>t' c' K' fs'. \<exists>s2. solo t' s1 (Run c' (bindP (Mutex_UnLock m) K') # fs') s2 (Run c' (K' (Inr VVoid)) # fs') \<and>
       outcome_of s2 q = Some (Inr VVoid) \<and> mx_resolve (mutexes (objects s2) ! m) = Some r')"
proof -
  have m: "m < length (mutexes (objects s))" "mutexes (objects s) ! m = \<lparr>mx_promise = p, mx_resolve = Some r\<rparr>"
    using assms(1) by (simp_all add: mutex_held_def)
  obtain s1 q rq p' r' j' where s1: "solo t s (Run c (bindP (Mutex_Lock m) K) # fs) s1 (Run c (K (Inr (VPromise q))) # fs)"
    "coro_at s1 q rq TVoid (Suspended p (Mutex_Lock_resumed m r'))" "open_at s1 p r j TVoid ([] @ [ACoroutine q])"
    "open_at s1 p' r' j' TVoid []" "p' \<noteq> p" "objects s1 = upd_mutex m (\<lambda>x. x\<lparr>mx_promise := p'\<rparr>) (objects s)"
    using Lock_contended_run [OF m assms(2)] by blast
  have h: "mutex_held s1 m p' r" using m s1(6) by (simp add: mutex_held_def)
  have "\<exists>s2. solo t' s1 (Run c' (bindP (Mutex_UnLock m) K') # fs') s2 (Run c' (K' (Inr VVoid)) # fs') \<and>
      outcome_of s2 q = Some (Inr VVoid) \<and> mx_resolve (mutexes (objects s2) ! m) = Some r'" for t' c' K' fs'
    using UnLock_handoff [OF h s1(3) [unfolded append_Nil] s1(2,4,5), of t' c' K' fs'] closed_outcome
    by (fastforce simp: mutex_held_def)
  moreover have "outcome_of s1 q = None" using s1(2) by (simp add: coro_at_def outcome_of_def resolver_outcome_def)
  moreover have "mx_resolve (mutexes (objects s1) ! m) = Some r" using h by (simp add: mutex_held_def)
  ultimately show ?thesis using s1(1) by blast
qed

subsection \<open>Guards\<close>

lemma guard_upd [simp]:
  "g < length (guards b) \<Longrightarrow> guards (upd_guard g f b) ! g = f (guards b ! g)"
  "mutexes (upd_guard g f b) = mutexes b" "length (guards (upd_guard g f b)) = length (guards b)"
  "guards (upd_mutex m h b) = guards b"
  by (simp_all add: upd_guard_def upd_mutex_def)

lemma with_guard_bind:
  assumes "guards (objects s) ! g = \<lparr>lg_own_lock = own, lg_mutex = Some m\<rparr>" "f own (Some m) = k"
  shows "solo t s (Run c (bindP (with_guard g f) K) # fs) s (Run c (bindP k K) # fs)"
  unfolding with_guard_def
  by (rule solo_bind_callP0, simp add: ret_def assms(1), simp, simp add: assms opt_val_def)

lemma LockGuard_Lock_run:
  assumes "g < length (guards (objects s))" "guards (objects s) ! g = \<lparr>lg_own_lock = False, lg_mutex = Some m\<rparr>"
  shows "solo t s (Run c (bindP (LockGuard_Lock g) K) # fs) (s\<lparr>objects := upd_guard g (\<lambda>x. x\<lparr>lg_own_lock := True\<rparr>) (objects s)\<rparr>)
    (Run c (bindP (Mutex_Lock m) K) # fs)"
proof -
  let ?s = "s\<lparr>objects := upd_guard g (\<lambda>x. x\<lparr>lg_own_lock := True\<rparr>) (objects s)\<rparr>"
  let ?m = "set_guard g (\<lambda>x. x\<lparr>lg_own_lock := True\<rparr>) (Mutex_Lock m)"
  have "solo t s (Run c (bindP (LockGuard_Lock g) K) # fs) s (Run c (bindP (assertP True ''!own_lock_'' ?m) K) # fs)"
    unfolding LockGuard_Lock_def by (rule with_guard_bind [OF assms(2)]) simp
  also have "solo t s (Run c (bindP (assertP True ''!own_lock_'' ?m) K) # fs) s (Run c (bindP ?m K) # fs)"
    by (rule assert_bind) simp
  also have "solo t s (Run c (bindP ?m K) # fs) ?s (Run c (bindP (Mutex_Lock m) K) # fs)"
    using Atomic_bind [of t s c "\<lambda>b. (upd_guard g (\<lambda>x. x\<lparr>lg_own_lock := True\<rparr>) b, VVoid)" "\<lambda>_. Mutex_Lock m" K fs]
    by (simp add: set_guard_def)
  finally show ?thesis .
qed

lemma LockGuard_destroy_run:
  assumes "guards (objects s) ! g = \<lparr>lg_own_lock = True, lg_mutex = Some m\<rparr>"
  shows "solo t s (Run c (bindP (LockGuard_destroy g) K) # fs) s (Run c (bindP (Mutex_UnLock m) K) # fs)"
  unfolding LockGuard_destroy_def release_if_owned_def by (rule with_guard_bind [OF assms]) simp

text \<open>
  C33. A guard whose Lock is still pending already claims to own the lock: when it is destroyed
  before the lock is acquired, its destructor unlocks the mutex under the holder, and the mutex
  then belongs to the pending Lock, which no guard will release.
\<close>

theorem pending_guard_unlocks_holder:
  assumes "mutex_held s m p r" "open_at s p r j TVoid []"
    and "g < length (guards (objects s))" "guards (objects s) ! g = \<lparr>lg_own_lock = False, lg_mutex = Some m\<rparr>"
  shows "\<exists>s1 q. solo t s (Run c (bindP (LockGuard_Lock g) K) # fs) s1 (Run c (K (Inr (VPromise q))) # fs) \<and>
    outcome_of s1 q = None \<and> lg_own_lock (guards (objects s1) ! g) \<and>
    (\<forall>t' c' K' fs'. \<exists>s2 r'. solo t' s1 (Run c' (bindP (LockGuard_destroy g) K') # fs') s2 (Run c' (K' (Inr VVoid)) # fs') \<and>
       outcome_of s2 p = Some (Inr VVoid) \<and> mx_resolve (mutexes (objects s2) ! m) = Some r' \<and> r' \<noteq> r)"
proof -
  let ?s = "s\<lparr>objects := upd_guard g (\<lambda>x. x\<lparr>lg_own_lock := True\<rparr>) (objects s)\<rparr>"
  have m: "m < length (mutexes (objects ?s))" "mutexes (objects ?s) ! m = \<lparr>mx_promise = p, mx_resolve = Some r\<rparr>"
    and p: "open_at ?s p r j TVoid []"
    using assms(1,2) by (simp_all add: mutex_held_def)
  obtain s1 q rq p' r' j' where s1: "solo t ?s (Run c (bindP (Mutex_Lock m) K) # fs) s1 (Run c (K (Inr (VPromise q))) # fs)"
    "coro_at s1 q rq TVoid (Suspended p (Mutex_Lock_resumed m r'))" "open_at s1 p r j TVoid ([] @ [ACoroutine q])"
    "open_at s1 p' r' j' TVoid []" "p' \<noteq> p" "objects s1 = upd_mutex m (\<lambda>x. x\<lparr>mx_promise := p'\<rparr>) (objects ?s)"
    using Lock_contended_run [OF m p] by blast
  have h: "mutex_held s1 m p' r" using m s1(6) by (simp add: mutex_held_def)
  have g: "guards (objects s1) ! g = \<lparr>lg_own_lock = True, lg_mutex = Some m\<rparr>" using assms(3,4) s1(6) by simp
  have rr: "r' \<noteq> r" using s1(3-5) by (auto simp: open_at_def)
  have "\<exists>s2 r'. solo t' s1 (Run c' (bindP (LockGuard_destroy g) K') # fs') s2 (Run c' (K' (Inr VVoid)) # fs') \<and>
       outcome_of s2 p = Some (Inr VVoid) \<and> mx_resolve (mutexes (objects s2) ! m) = Some r' \<and> r' \<noteq> r" for t' c' K' fs'
  proof -
    obtain s2 where s2: "solo t' s1 (Run c' (bindP (Mutex_UnLock m) K') # fs') s2 (Run c' (K' (Inr VVoid)) # fs')"
      "mutex_held s2 m p' r'" "closed_at s2 p TVoid (Inr VVoid)"
      using UnLock_handoff [OF h s1(3) [unfolded append_Nil] s1(2,4,5), of t' c' K' fs'] by blast
    have "mx_resolve (mutexes (objects s2) ! m) = Some r'" using s2(2) by (simp add: mutex_held_def)
    with solo_trans [OF LockGuard_destroy_run [OF g] s2(1)] closed_outcome [OF s2(3)] rr show ?thesis by blast
  qed
  moreover have "outcome_of s1 q = None" using s1(2) by (simp add: coro_at_def outcome_of_def resolver_outcome_def)
  moreover have "lg_own_lock (guards (objects s1) ! g)" using g by simp
  ultimately show ?thesis using solo_trans [OF LockGuard_Lock_run [OF assms(3,4)] s1(1)] by blast
qed

subsection \<open>On concrete mutexes\<close>

text \<open>A mutex after its constructor, one that somebody holds, and a guard that has not locked yet.\<close>

definition mutex_objs :: "rid option \<Rightarrow> objs" where
  "mutex_objs r = no_objs\<lparr>mutexes := [\<lparr>mx_promise = 0, mx_resolve = r\<rparr>],
     guards := [\<lparr>lg_own_lock = False, lg_mutex = Some 0\<rparr>]\<rparr>"

definition free_store :: "objs store" where
  "free_store = (empty_store (mutex_objs None))\<lparr>
     promises := [(new_promise TVoid True NoHandle)\<lparr>p_resolver := Some 0\<rparr>],
     resolvers := [store_outcome (Inr VVoid) (linked_resolver TVoid 0)]\<rparr>"

definition held_store :: "objs store" where
  "held_store = snd (snd (snd (Promise_Create TVoid (empty_store (mutex_objs (Some 0))))))"

lemma free_store_free: "mutex_free free_store 0"
  by (simp add: mutex_free_def held_at_def free_store_def empty_store_def mutex_objs_def no_objs_def
      new_promise_def linked_resolver_def is_void_def)

lemma held_store_held: "mutex_held held_store 0 0 0" "open_at held_store 0 0 0 TVoid []"
  by (simp_all add: mutex_held_def open_at_def held_store_def Promise_Create_eq empty_store_def mutex_objs_def no_objs_def)

theorem Lock_UnLock_roundtrip_witness:
  "\<exists>s1 q. solo 0 free_store [Run Plain (bindP (Mutex_Lock 0) finish)] s1 [Run Plain (Return (VPromise q))] \<and>
     outcome_of s1 q = Some (Inr VVoid)"
  using Lock_UnLock_roundtrip [OF free_store_free, of 0 Plain finish "[]"] by auto

theorem contended_Lock_handed_over_witness:
  "\<exists>s1 q. solo 0 held_store [Run Plain (bindP (Mutex_Lock 0) finish)] s1 [Run Plain (Return (VPromise q))] \<and>
     outcome_of s1 q = None"
  using contended_Lock_handed_over [OF held_store_held, of 0 Plain finish "[]"] by auto

theorem pending_guard_unlocks_holder_witness:
  "\<exists>s1 q. solo 0 held_store [Run Plain (bindP (LockGuard_Lock 0) finish)] s1 [Run Plain (Return (VPromise q))] \<and>
     outcome_of s1 q = None \<and> lg_own_lock (guards (objects s1) ! 0)"
proof -
  have "0 < length (guards (objects held_store))"
    "guards (objects held_store) ! 0 = \<lparr>lg_own_lock = False, lg_mutex = Some 0\<rparr>"
    by (simp_all add: held_store_def Promise_Create_eq empty_store_def mutex_objs_def no_objs_def)
  from pending_guard_unlocks_holder [OF held_store_held this, of 0 Plain finish "[]"] show ?thesis by auto
qed

end
