(* ===== verification/Gathering.thy ===== *)
theory Gathering
  imports Racing Locks
begin

text \<open>
  All on promises that are still pending (details::All in include/promise/details/helpers.inl).
  Both overloads are coroutines that await their participants in order; the locale \<open>gathering\<close> is
  what the two have in common: how the coroutine parks on a pending participant and goes on when
  that one settles. Inside it: whatever the order in which the participants settle, the coroutine
  gathers the same outcome. The two overloads are its interpretations.
\<close>

subsection \<open>Settling several promises\<close>

text \<open>Threads settle the participants one after the other, in the order of the list.\<close>

inductive settle_all :: "'o store \<Rightarrow> (participant \<times> tid \<times> outcome) list \<Rightarrow> 'o store \<Rightarrow> bool" where
  settle_none: "settle_all s [] s"
| settle_next: "solo t s [Run Plain (callP (settle_op r j x) (\<lambda>_. Return VVoid))] s' [Run Plain (Return VVoid)] \<Longrightarrow>
     settle_all s' es s'' \<Longrightarrow> settle_all s (((T, p, r, j), t, x) # es) s''"

definition outcome_in :: "(participant \<times> tid \<times> outcome) list \<Rightarrow> participant \<Rightarrow> outcome" where
  "outcome_in es e = stored (fst e) (snd (the (map_of es e)))"

lemma outcome_in_member:
  "distinct (map fst es) \<Longrightarrow> (e, t, x) \<in> set es \<Longrightarrow> outcome_in es e = stored (fst e) x"
  by (simp add: outcome_in_def)

subsection \<open>The contract of an awaiting loop\<close>

text \<open>What the events around the participant \<open>p\<close> and the coroutine of \<open>q\<close> leave alone.\<close>

definition spares :: "pid \<Rightarrow> pid \<Rightarrow> 'o store \<Rightarrow> 'o store \<Rightarrow> bool" where
  "spares p q s s' \<longleftrightarrow>
     (\<forall>u r j T as. u < q \<and> u \<noteq> p \<and> open_at s u r j T as \<longrightarrow> open_at s' u r j T as) \<and>
     (\<forall>u T x. closed_at s u T x \<longrightarrow> closed_at s' u T x)"

lemma sparesD:
  "spares p q s s' \<Longrightarrow> u < q \<Longrightarrow> u \<noteq> p \<Longrightarrow> open_at s u r j T as \<Longrightarrow> open_at s' u r j T as"
  "spares p q s s' \<Longrightarrow> closed_at s u T x \<Longrightarrow> closed_at s' u T x"
  unfolding spares_def by blast+

lemma spares_trans: "spares p q s s' \<Longrightarrow> spares p q s' s'' \<Longrightarrow> spares p q s s''"
  unfolding spares_def by blast

lemma keeps_spares: "keeps u s s' \<Longrightarrow> u = p \<or> q \<le> u \<Longrightarrow> spares p q s s'"
  unfolding spares_def using keepsD(1,2) by (metis leD)

lemma keeps_all_spares: "\<forall>u. keeps u s s' \<Longrightarrow> spares p q s s'"
  using keeps_spares [of p s s' p q] by blast

text \<open>
  A coroutine whose body \<open>body es vs\<close> awaits the promises \<open>es\<close> in order, having gathered \<open>vs\<close>.
  \<open>parked\<close> describes the heap while it waits for one of them, with the rest \<open>k\<close> of its body.
\<close>

locale gathering =
  fixes body :: "participant list \<Rightarrow> val list \<Rightarrow> 'o prog"
    and add :: "cty \<Rightarrow> val list \<Rightarrow> val \<Rightarrow> val list"
    and wrap :: "val list \<Rightarrow> val"
    and parked :: "'o store \<Rightarrow> pid \<Rightarrow> rid \<Rightarrow> cty \<Rightarrow> participant \<Rightarrow> (outcome \<Rightarrow> 'o prog) \<Rightarrow> bool"
  assumes ended: "body [] vs = Return (wrap vs)"
    and settled: "closed_at s p T x \<Longrightarrow>
      \<exists>s'. solo t s (Run (Coroutine q) (body ((T, p, r, j) # es) vs) # fs) s'
          (Run (Coroutine q) (case x of Inl e \<Rightarrow> Throw e | Inr v \<Rightarrow> body es (add T vs v)) # fs) \<and>
        (\<forall>u. keeps u s s')"
    and park: "open_at s p r j T [] \<Longrightarrow> running_at s q rq TR \<Longrightarrow> p < q \<Longrightarrow>
      \<exists>s'. solo t s (Run (Coroutine q) (body ((T, p, r, j) # es) vs) # fs) s' fs \<and>
        parked s' q rq TR (T, p, r, j) (\<lambda>x. case x of Inl e \<Rightarrow> Throw e | Inr v \<Rightarrow> body es (add T vs v)) \<and>
        spares p q s s'"
    and wake: "parked s q rq TR (T, p, r, j) k \<Longrightarrow>
      \<exists>s' gs. solo t s (Run c (bindP (callP (settle_op r j x) (\<lambda>_. Return VVoid)) K) # fs) s'
          (Run (Coroutine q) (k (stored T x)) # gs @ Run c (K (Inr VVoid)) # fs) \<and>
        (\<forall>s fs. solo t s (gs @ fs) s fs) \<and> running_at s' q rq TR \<and>
        closed_at s' p T (stored T x) \<and> spares p q s s'"
    and stays: "parked s q rq TR (T, p, r, j) k \<Longrightarrow> keeps u s s' \<Longrightarrow> u \<noteq> p \<Longrightarrow> u < q \<Longrightarrow>
      parked s' q rq TR (T, p, r, j) k"
    and pending: "parked s q rq TR e k \<Longrightarrow> outcome_of s q = None"
begin

text \<open>What the loop ends with, when \<open>f\<close> gives the outcomes of the participants.\<close>

fun gathered :: "(participant \<Rightarrow> outcome) \<Rightarrow> participant list \<Rightarrow> val list \<Rightarrow> outcome" where
  "gathered f [] vs = Inr (wrap vs)"
| "gathered f (e # es) vs = (case f e of Inl x \<Rightarrow> Inl x | Inr v \<Rightarrow> gathered f es (add (fst e) vs v))"

abbreviation fresh_in :: "'o store \<Rightarrow> participant \<Rightarrow> bool" where
  "fresh_in s \<equiv> (\<lambda>(T, p, r, j). open_at s p r j T [])"

abbreviation settled_in :: "'o store \<Rightarrow> (participant \<Rightarrow> outcome) \<Rightarrow> participant \<Rightarrow> bool" where
  "settled_in s f \<equiv> (\<lambda>e. closed_at s (fst (snd e)) (fst e) (f e))"

definition progress :: "'o store \<Rightarrow> pid \<Rightarrow> rid \<Rightarrow> cty \<Rightarrow> (participant \<Rightarrow> outcome) \<Rightarrow> outcome \<Rightarrow>
    participant set \<Rightarrow> bool" where
  "progress s q rq TR f y rem \<longleftrightarrow>
     (\<exists>e es vs. parked s q rq TR e (\<lambda>x. case x of Inl e \<Rightarrow> Throw e | Inr v \<Rightarrow> body es (add (fst e) vs v)) \<and>
        e \<in> rem \<and> (\<forall>e' \<in> rem - {e}. fresh_in s e') \<and> (\<forall>e' \<in> set es - rem. settled_in s f e') \<and>
        distinct (e # es) \<and> y = gathered f (e # es) vs) \<or>
     (closed_at s q TR (stored TR y) \<and> (\<forall>e \<in> rem. fresh_in s e))"

lemma progress_closed: "progress s q rq TR f y {} \<Longrightarrow> closed_at s q TR (stored TR y)"
  by (auto simp: progress_def)

text \<open>The coroutine ends, and the participants that are left stay what they are.\<close>

lemma progress_ends:
  assumes "running_at s q rq TR" "\<forall>e \<in> rem. fresh_in s e" "\<forall>e \<in> rem. fst (snd e) < q"
  shows "\<exists>s'. solo t s (Run (Coroutine q) (finish y) # fs) s' fs \<and> progress s' q rq TR f y rem"
proof -
  obtain s' where s': "solo t s (Run (Coroutine q) (finish y) # fs) s' fs" "closed_at s' q TR (stored TR y)" "keeps q s s'"
    using coroutine_end [OF assms(1)] by blast
  have "fresh_in s' e" if "e \<in> rem" for e
  proof -
    obtain T p r j where e: "e = (T, p, r, j)" by (cases e)
    have "open_at s p r j T []" "p \<noteq> q" using assms(2,3) that e by auto
    then show ?thesis using keepsD(1) [OF s'(3)] e by simp
  qed
  then show ?thesis using s' by (auto simp: progress_def)
qed

text \<open>The addresses of the participants that are not settled yet.\<close>

definition apart :: "pid \<Rightarrow> participant set \<Rightarrow> bool" where
  "apart q rem \<longleftrightarrow> (\<forall>e \<in> rem. fst (snd e) < q) \<and>
     (\<forall>e \<in> rem. \<forall>e' \<in> rem. fst (snd e) = fst (snd e') \<longrightarrow> e = e')"

lemma apart_subset: "apart q rem \<Longrightarrow> rem' \<subseteq> rem \<Longrightarrow> apart q rem'"
  unfolding apart_def by blast

lemma fresh_spared:
  assumes "spares p q s s'" "apart q rem" "e \<in> rem" "fresh_in s e" "fst (snd e) \<noteq> p"
  shows "fresh_in s' e"
proof -
  obtain T u r j where e: "e = (T, u, r, j)" by (cases e)
  have "u < q" "u \<noteq> p" using assms(2,3,5) by (auto simp: e apart_def)
  then show ?thesis using sparesD(1) [OF assms(1)] assms(4) by (simp add: e)
qed

lemma progress_advance:
  assumes "running_at s q rq TR" "\<forall>e \<in> rem. fresh_in s e" "\<forall>e \<in> set es - rem. settled_in s f e" "distinct es"
    "apart q rem"
  shows "\<exists>s'. solo t s (Run (Coroutine q) (body es vs) # fs) s' fs \<and> progress s' q rq TR f (gathered f es vs) rem"
  using assms(1-4)
proof (induction es arbitrary: s vs)
  case Nil
  have "\<forall>e \<in> rem. fst (snd e) < q" using assms(5) by (simp add: apart_def)
  from progress_ends [OF Nil.prems(1,2) this, of t "Inr (wrap vs)" fs f] show ?case by (simp add: ended)
next
  case (Cons e es)
  obtain T p r j where e: "e = (T, p, r, j)" by (cases e)
  let ?k = "\<lambda>x. case x of Inl e \<Rightarrow> Throw e | Inr v \<Rightarrow> body es (add T vs v)"
  show ?case
  proof (cases "e \<in> rem")
    case True
    then have o: "open_at s p r j T []" "p < q" using Cons.prems(2) assms(5) by (auto simp: e apart_def)
    obtain s' where s': "solo t s (Run (Coroutine q) (body ((T, p, r, j) # es) vs) # fs) s' fs"
      "parked s' q rq TR (T, p, r, j) ?k" "spares p q s s'"
      using park [OF o(1) Cons.prems(1) o(2)] by blast
    have "fresh_in s' e'" if "e' \<in> rem - {e}" for e'
      using fresh_spared [OF s'(3) assms(5), of e'] that Cons.prems(2) assms(5) True
      unfolding apart_def e by (metis DiffE fst_conv insertCI snd_conv)
    moreover have "settled_in s' f e'" if "e' \<in> set es - rem" for e'
      using sparesD(2) [OF s'(3)] Cons.prems(3) that by simp
    ultimately have "progress s' q rq TR f (gathered f (e # es) vs) rem"
      unfolding progress_def using s'(2) True Cons.prems(4)
      by (intro disjI1 exI [of _ e] exI [of _ es] exI [of _ vs]) (simp add: e)
    then show ?thesis using s'(1) e by blast
  next
    case False
    then have "closed_at s p T (f e)" using bspec [OF Cons.prems(3), of e] by (simp add: e)
    from settled [OF this, of t q r j es vs fs]
    obtain s1 where s1: "solo t s (Run (Coroutine q) (body (e # es) vs) # fs) s1 (Run (Coroutine q) (?k (f e)) # fs)"
      "\<forall>u. keeps u s s1" unfolding e by blast
    have r1: "running_at s1 q rq TR" using keeps_allD(3) [OF s1(2)] Cons.prems(1) .
    have f1: "\<forall>e \<in> rem. fresh_in s1 e" using keeps_allD(1) [OF s1(2)] Cons.prems(2) by fast
    have c1: "\<forall>e \<in> set es - rem. settled_in s1 f e" using keeps_allD(2) [OF s1(2)] Cons.prems(3) by auto
    have d: "distinct es" using Cons.prems(4) by simp
    show ?thesis
    proof (cases "f e")
      case (Inl x)
      have "\<forall>e \<in> rem. fst (snd e) < q" using assms(5) by (simp add: apart_def)
      from progress_ends [OF r1 f1 this, of t "Inl x" fs f] show ?thesis
        using solo_trans [OF s1(1)] Inl by auto
    next
      case (Inr v)
      from Cons.IH [OF r1 f1 c1 d, of "add T vs v"] show ?thesis
        using solo_trans [OF s1(1)] Inr by (auto simp: e)
    qed
  qed
qed

text \<open>A participant settles: the coroutine goes on if it waits for that one.\<close>

lemma progress_settle:
  assumes pr: "progress s q rq TR f y rem" and e: "(T, p, r, j) \<in> rem" "f (T, p, r, j) = stored T x"
    and ap: "apart q rem"
  shows "\<exists>s'. solo t s (Run c (bindP (callP (settle_op r j x) (\<lambda>_. Return VVoid)) K) # fs) s' (Run c (K (Inr VVoid)) # fs) \<and>
    progress s' q rq TR f y (rem - {(T, p, r, j)})"
proof -
  let ?e = "(T, p, r, j)"
  have pq: "p < q" using e(1) ap by (auto simp: apart_def)
  have other: "fst (snd e') \<noteq> p" if "e' \<in> rem" "e' \<noteq> ?e" for e'
    using ap e(1) that unfolding apart_def by (metis fst_conv snd_conv)
  have ap': "apart q (rem - {?e})" using ap by (rule apart_subset) simp
  have alone: "\<exists>s'. solo t s (Run c (bindP (callP (settle_op r j x) (\<lambda>_. Return VVoid)) K) # fs) s' (Run c (K (Inr VVoid)) # fs) \<and>
      closed_at s' p T (stored T x) \<and> keeps p s s'" if o: "open_at s p r j T []"
  proof -
    obtain s' where s': "solo t s (Run c (bindP (callP (settle_op r j x) (\<lambda>_. Return VVoid)) K) # fs) s'
        (Awaiters [] # Run c (bindP (Return VVoid) K) # fs)" "closed_at s' p T (stored T x)" "keeps p s s'"
      using o by (rule settle_bind)
    show ?thesis using solo_trans [OF s'(1) solo_awaiters_nil] s'(2,3) by auto
  qed
  from pr [unfolded progress_def] show ?thesis
  proof (elim disjE exE conjE)
    fix e0 :: participant and es vs
    let ?k = "\<lambda>x. case x of Inl e \<Rightarrow> Throw e | Inr v \<Rightarrow> body es (add (fst e0) vs v)"
    assume pk: "parked s q rq TR e0 ?k" and e0: "e0 \<in> rem" and fr: "\<forall>e' \<in> rem - {e0}. fresh_in s e'"
      and cl: "\<forall>e' \<in> set es - rem. settled_in s f e'" and d: "distinct (e0 # es)" and y: "y = gathered f (e0 # es) vs"
    show ?thesis
    proof (cases "e0 = ?e")
      case True
      obtain s1 gs where s1: "solo t s (Run c (bindP (callP (settle_op r j x) (\<lambda>_. Return VVoid)) K) # fs) s1
          (Run (Coroutine q) (?k (stored T x)) # gs @ Run c (K (Inr VVoid)) # fs)"
        "\<And>s fs. solo t s (gs @ fs) s fs" "running_at s1 q rq TR" "closed_at s1 p T (stored T x)" "spares p q s s1"
        using wake [OF pk [unfolded True]] by (fold True) blast
      have f1: "\<forall>e' \<in> rem - {?e}. fresh_in s1 e'"
        using fresh_spared [OF s1(5) ap] fr other True by blast
      have c1: "\<forall>e' \<in> set es - (rem - {?e}). settled_in s1 f e'"
        using cl sparesD(2) [OF s1(5)] d True by auto
      let ?fs = "gs @ Run c (K (Inr VVoid)) # fs"
      obtain s2 where s2: "solo t s1 (Run (Coroutine q) (?k (stored T x)) # ?fs) s2 ?fs"
        "progress s2 q rq TR f y (rem - {?e})"
      proof (cases "stored T x")
        case (Inl z)
        have "\<forall>e \<in> rem - {?e}. fst (snd e) < q" using ap' by (simp add: apart_def)
        from progress_ends [OF s1(3) f1 this, of t "Inl z" ?fs f] show thesis
          using that y True e(2) Inl by auto
      next
        case (Inr v)
        from progress_advance [OF s1(3) f1 c1 _ ap', of t "add T vs v" ?fs] show thesis
          using that y True e(2) Inr d by auto
      qed
      show ?thesis using solo_trans [OF solo_trans [OF s1(1) s2(1)] s1(2)] s2(2) by blast
    next
      case False
      then have "open_at s p r j T []" using bspec [OF fr, of ?e] e(1) by simp
      then obtain s' where s': "solo t s (Run c (bindP (callP (settle_op r j x) (\<lambda>_. Return VVoid)) K) # fs) s' (Run c (K (Inr VVoid)) # fs)"
        "closed_at s' p T (stored T x)" "keeps p s s'" using alone by blast
      have sp: "spares p q s s'" using s'(3) by (rule keeps_spares) simp
      obtain T0 p0 r0 j0 where e0': "e0 = (T0, p0, r0, j0)" by (cases e0)
      have "p0 \<noteq> p" using other [OF e0] False by (auto simp: e0')
      then have "parked s' q rq TR e0 ?k" using stays [OF pk [unfolded e0'] s'(3)] pq unfolding e0' by blast
      moreover have "fresh_in s' e'" if "e' \<in> rem - {?e} - {e0}" for e'
        using fresh_spared [OF sp ap, of e'] fr other that by blast
      moreover have "settled_in s' f e'" if "e' \<in> set es - (rem - {?e})" for e'
        using that cl sparesD(2) [OF sp] s'(2) e(2) by (cases "e' = ?e") auto
      ultimately have "progress s' q rq TR f y (rem - {?e})"
        unfolding progress_def using e0 False d y
        by (intro disjI1 exI [of _ e0] exI [of _ es] exI [of _ vs]) simp
      then show ?thesis using s'(1) by blast
    qed
  next
    assume cl: "closed_at s q TR (stored TR y)" and fr: "\<forall>e \<in> rem. fresh_in s e"
    then obtain s' where s': "solo t s (Run c (bindP (callP (settle_op r j x) (\<lambda>_. Return VVoid)) K) # fs) s' (Run c (K (Inr VVoid)) # fs)"
      "keeps p s s'" using alone bspec [OF fr e(1)] by auto
    have sp: "spares p q s s'" using s'(2) by (rule keeps_spares) simp
    have "\<forall>e' \<in> rem - {?e}. fresh_in s' e'" using fresh_spared [OF sp ap] fr other by blast
    then have "progress s' q rq TR f y (rem - {?e})" unfolding progress_def using sparesD(2) [OF sp cl] by blast
    then show ?thesis using s'(1) by blast
  qed
qed


lemma progress_settle_all:
  assumes "progress s q rq TR f y (set (map fst es))" "distinct (map fst es)" "apart q (set (map fst es))"
    "\<forall>(e, t, x) \<in> set es. f e = stored (fst e) x"
  shows "\<exists>s'. settle_all s es s' \<and> closed_at s' q TR (stored TR y)"
  using assms
proof (induction es arbitrary: s)
  case Nil
  then have "closed_at s q TR (stored TR y)" by (intro progress_closed) simp
  then show ?case using settle_none by blast
next
  case (Cons a es)
  obtain T p r j t x where a: "a = ((T, p, r, j), t, x)" by (cases a) auto
  let ?e = "(T, p, r, j)"
  have "?e \<in> set (map fst (a # es))" "f ?e = stored T x" using Cons.prems(4) by (auto simp: a)
  from progress_settle [OF Cons.prems(1) this Cons.prems(3), of t Plain finish "[]"]
  obtain s1 where s1: "solo t s [Run Plain (callP (settle_op r j x) (\<lambda>_. Return VVoid))] s1 [Run Plain (Return VVoid)]"
    "progress s1 q rq TR f y (set (map fst (a # es)) - {?e})" by auto
  have "set (map fst (a # es)) - {?e} = set (map fst es)" using Cons.prems(2) by (auto simp: a)
  with s1(2) have "progress s1 q rq TR f y (set (map fst es))" by simp
  moreover have "apart q (set (map fst es))" using Cons.prems(3) by (rule apart_subset) auto
  ultimately have "\<exists>s'. settle_all s1 es s' \<and> closed_at s' q TR (stored TR y)"
    using Cons.prems(2,4) by (intro Cons.IH) simp_all
  then obtain s2 where "settle_all s1 es s2" "closed_at s2 q TR (stored TR y)" by blast
  then show ?case using settle_next [OF s1(1)] a by blast
qed

text \<open>
  The promise of the coroutine is pending until the participants are settled, and the order in
  which they are settled does not matter.
\<close>

lemma gathers:
  assumes "\<forall>e \<in> set es. fresh_in s e" "distinct (map (fst \<circ> snd) es)"
  shows "\<exists>s1 Q. solo t s (Run c (bindP (MakePromise (Fn (TFunction (TIPromise TR False) []) (\<lambda>_. body es [])) []) K) # fs)
      s1 (Run c (K (Inr (VPromise Q))) # fs) \<and>
    (es \<noteq> [] \<longrightarrow> outcome_of s1 Q = None) \<and>
    (\<forall>ev. distinct (map fst ev) \<and> set (map fst ev) = set es \<longrightarrow>
       (\<exists>s2. settle_all s1 ev s2 \<and> outcome_of s2 Q = Some (stored TR (gathered (outcome_in ev) es []))))"
proof -
  let ?f = "\<lambda>h. with_handles h (\<lambda>p r j. Return (VPromise p))"
  obtain s1 q rq j where s1: "solo t s (Run c (bindP (callP (OStart TR False (\<lambda>r j. body es [])) ?f) K) # fs) s1
       (Run (Coroutine q) (body es []) # Run c (bindP (?f (VTuple [VPromise q, VResolve rq, VReject j])) K) # fs)"
    "running_at s1 q rq TR" "\<forall>q. keeps q s s1" "q = length (promises s)"
    by (rule Start_rule)
  let ?fs = "Run c (K (Inr (VPromise q))) # fs"
  have fr: "\<forall>e \<in> set es. fresh_in s1 e" using assms(1) keeps_allD(1) [OF s1(3)] by fast
  have lt: "fst (snd e) < q" if "e \<in> set es" for e
    using bspec [OF assms(1) that] by (cases e) (simp add: s1(4) open_at_def)
  have ap: "apart q (set es)"
    using lt assms(2) unfolding apart_def by (auto simp: distinct_map inj_on_def)
  have d: "distinct es" using assms(2) by (simp add: distinct_map)
  obtain s2 where s2: "solo t s1 (Run (Coroutine q) (body es []) # ?fs) s2 ?fs" "es \<noteq> [] \<longrightarrow> outcome_of s2 q = None"
    "\<And>f. progress s2 q rq TR f (gathered f es []) (set es)"
  proof (cases es)
    case Nil
    from coroutine_end [OF s1(2), of t "Inr (wrap [])" ?fs]
    obtain s' where "solo t s1 (Run (Coroutine q) (finish (Inr (wrap []))) # ?fs) s' ?fs"
      "closed_at s' q TR (stored TR (Inr (wrap [])))" by blast
    then show thesis by (intro that [of s']) (simp_all add: Nil ended progress_def)
  next
    case (Cons e es')
    obtain T p r j where e: "e = (T, p, r, j)" by (cases e)
    have o: "open_at s1 p r j T []" "p < q" using fr lt [of e] by (auto simp: Cons e)
    from park [OF o(1) s1(2) o(2), of t es' "[]" ?fs]
    obtain s' where s': "solo t s1 (Run (Coroutine q) (body (e # es') []) # ?fs) s' ?fs"
      "parked s' q rq TR e (\<lambda>x. case x of Inl e \<Rightarrow> Throw e | Inr v \<Rightarrow> body es' (add (fst e) [] v))" "spares p q s1 s'"
      unfolding e fst_conv by blast
    have "\<forall>e' \<in> set es - {e}. fresh_in s' e'"
    proof
      fix e' assume m: "e' \<in> set es - {e}"
      then have "fst (snd e') \<noteq> p" using ap by (auto simp: apart_def Cons e)
      then show "fresh_in s' e'" using fresh_spared [OF s'(3) ap] m fr by blast
    qed
    then have "progress s' q rq TR f (gathered f es []) (set es)" for f
      unfolding progress_def using s'(2) d
      by (intro disjI1 exI [of _ e] exI [of _ es'] exI [of _ "[]"]) (simp add: Cons)
    then show thesis using s'(1) pending [OF s'(2)] by (intro that [of s']) (simp_all add: Cons)
  qed
  have "\<exists>s3. settle_all s2 ev s3 \<and> outcome_of s3 q = Some (stored TR (gathered (outcome_in ev) es []))"
    if ev: "distinct (map fst ev)" "set (map fst ev) = set es" for ev
  proof -
    have "\<forall>(e, t, x) \<in> set ev. outcome_in ev e = stored (fst e) x" using outcome_in_member [OF ev(1)] by blast
    from progress_settle_all [OF s2(3) [of "outcome_in ev", folded ev(2)] ev(1) ap [folded ev(2)] this]
    show ?thesis using closed_outcome by blast
  qed
  moreover have "solo t s (Run c (bindP (MakePromise (Fn (TFunction (TIPromise TR False) []) (\<lambda>_. body es [])) []) K) # fs) s2 ?fs"
    using solo_trans [OF s1(1)] s2(1) by (simp add: MakePromise_coroutine)
  ultimately show ?thesis using s2(2) by blast
qed

end

subsection \<open>A container of promises\<close>

definition loop_parked :: "'o store \<Rightarrow> pid \<Rightarrow> rid \<Rightarrow> cty \<Rightarrow> participant \<Rightarrow> (outcome \<Rightarrow> 'o prog) \<Rightarrow> bool" where
  "loop_parked s q rq TR e k \<longleftrightarrow>
     (case e of (T, p, r, j) \<Rightarrow>
        p < q \<and> coro_at s q rq TR (Suspended p k) \<and> open_at s p r j T [ACoroutine q])"

lemma coro_outcome: "coro_at s p r T h \<Longrightarrow> outcome_of s p = None"
  by (auto simp: coro_at_def outcome_of_def resolver_outcome_def)

text \<open>The awaiter of a suspended coroutine, once the promise it waits for is settled.\<close>

lemma awaiter_resumes:
  assumes "coro_at s q rq TR (Suspended p k)" "closed_at s p T x"
  shows "\<exists>s'. solo t s (Awaiters [ACoroutine q] # fs) s' (Run (Coroutine q) (k x) # Awaiters [] # fs) \<and>
    running_at s' q rq TR \<and> keeps q s s'"
proof -
  have "solo t s (Awaiters [ACoroutine q] # fs) s (Resume q # Awaiters [] # fs)" by (rule solo_one) simp
  moreover obtain s' where "solo t s (Resume q # Awaiters [] # fs) s' (Run (Coroutine q) (k x) # Awaiters [] # fs)"
    "running_at s' q rq TR" "keeps q s s'"
    using assms by (rule Resume_rule) simp
  ultimately show ?thesis using solo_trans by blast
qed

interpretation container: gathering "\<lambda>es vs. all_loop T (pids es) vs" "\<lambda>T vs v. vs @ [v]"
  "\<lambda>vs. if is_void T then VVoid else VVector vs" loop_parked for T
proof (unfold_locales, goal_cases)
  case (1 vs)
  then show ?case by simp
next
  case (2 s p T' x t q r j es vs fs)
  from CoAwait_rule [OF 2, of t q] show ?case by (intro exI [of _ s] conjI) simp_all
next
  case (3 s p r j T' q rq TR t es vs fs)
  let ?k = "\<lambda>x. case x of Inl e \<Rightarrow> Throw e | Inr v \<Rightarrow> all_loop T (pids es) (vs @ [v])"
  obtain s' where s': "solo t s (Run (Coroutine q) (CoAwait p ?k) # fs) s' fs"
    "coro_at s' q rq TR (Suspended p ?k)" "open_at s' p r j T' ([] @ [ACoroutine q])" "objects s' = objects s"
    "\<forall>u r j T as. u \<noteq> p \<longrightarrow> open_at s u r j T as \<longrightarrow> open_at s' u r j T as"
    "\<forall>u T x rs. held_at s u T x rs \<longrightarrow> held_at s' u T x rs"
    using 3(2,1) by (rule Suspend_rule)
  then show ?case using 3(3) by (intro exI [of _ s'] conjI) (simp_all add: loop_parked_def spares_def)
next
  case (4 s q rq TR T' p r j k t c x K fs)
  then have pk: "p < q" "coro_at s q rq TR (Suspended p k)" "open_at s p r j T' [ACoroutine q]"
    by (simp_all add: loop_parked_def)
  obtain s1 where s1: "solo t s (Run c (bindP (callP (settle_op r j x) (\<lambda>_. Return VVoid)) K) # fs) s1
      (Awaiters [ACoroutine q] # Run c (bindP (Return VVoid) K) # fs)"
    "closed_at s1 p T' (stored T' x)" "keeps p s s1"
    using pk(3) by (rule settle_bind)
  have "coro_at s1 q rq TR (Suspended p k)" using keepsD(3) [OF s1(3) _ pk(2)] pk(1) by simp
  from awaiter_resumes [OF this s1(2)]
  obtain s2 where s2: "solo t s1 (Awaiters [ACoroutine q] # Run c (bindP (Return VVoid) K) # fs) s2
      (Run (Coroutine q) (k (stored T' x)) # Awaiters [] # Run c (bindP (Return VVoid) K) # fs)"
    "running_at s2 q rq TR" "keeps q s1 s2" by blast
  have "spares p q s s2" using spares_trans [OF keeps_spares [OF s1(3)] keeps_spares [OF s2(3)]] by simp
  then show ?case
    using solo_trans [OF s1(1) s2(1)] s2(2) keepsD(2) [OF s2(3) s1(2)]
    by (intro exI [of _ s2] exI [of _ "[Awaiters []]"]) (simp add: solo_awaiters_nil)
next
  case (5 s q rq TR T' p r j k u s')
  then show ?case unfolding loop_parked_def prod.case
    using keepsD(3) [OF 5(2), of q] keepsD(1) [OF 5(2), of p] by auto
next
  case (6 s q rq TR e k)
  then show ?case by (auto simp: loop_parked_def intro: coro_outcome)
qed

subsection \<open>A pack of promises\<close>

text \<open>What the promise of the callback gives: the value in a tuple, an empty one for void.\<close>

definition tupled :: "cty \<Rightarrow> outcome \<Rightarrow> outcome" where
  "tupled T x = map_sum id (\<lambda>v. VTuple (if is_void T then [] else [v])) x"

abbreviation wrap_type :: "cty \<Rightarrow> cty" where
  "wrap_type T \<equiv> TTuple (if is_void T then [] else [T])"

lemma wrap_result:
  "then_result (fn_type (wrap_fn T)) (\<lambda>vs. Inr (VTuple vs)) [] T x = tupled T x"
  "return_or_void_t (fn_type (wrap_fn T)) = wrap_type T"
  by (auto simp: wrap_fn_def tupled_def then_result_def stored_def pass_value_def return_or_void_t_def
      is_void_def split: sum.split)

definition pack_parked :: "'o store \<Rightarrow> pid \<Rightarrow> rid \<Rightarrow> cty \<Rightarrow> participant \<Rightarrow> (outcome \<Rightarrow> 'o prog) \<Rightarrow> bool" where
  "pack_parked s q rq TR e k \<longleftrightarrow>
     (case e of (T, p, r, j) \<Rightarrow> \<exists>u ru ju i k'.
        p < q \<and> q < u \<and> coro_at s q rq TR (Suspended u k') \<and>
        open_at s p r j T [AFunction i (then_awaiter T p (wrap_fn T) [] ru ju)] \<and>
        open_at s u ru ju (wrap_type T) [ACoroutine q] \<and> (\<forall>x. k' (tupled T x) = k x))"

text \<open>The callback runs: the coroutine goes on with the outcome of the participant.\<close>

lemma wrap_awaiter_run:
  assumes "closed_at s p T x" "open_at s u ru ju (wrap_type T) [ACoroutine q]"
    "coro_at s q rq TR (Suspended u k')" "q < u"
  shows "\<exists>s'. solo t s (Run Plain (then_awaiter T p (wrap_fn T) [] ru ju) # fs) s'
      (Run (Coroutine q) (k' (tupled T x)) # Awaiters [] # Run Plain (Return VVoid) # fs) \<and>
    running_at s' q rq TR \<and> spares p q s s'"
proof -
  have w: "wrap_fn T = pure_fn (fn_type (wrap_fn T)) (\<lambda>vs. Inr (VTuple vs))" by (simp add: wrap_fn_pure)
  obtain s1 where s1: "solo t s (Run Plain (then_awaiter T p (wrap_fn T) [] ru ju) # fs) s1
      (Awaiters [ACoroutine q] # Run Plain (Return VVoid) # fs)"
    "closed_at s1 u (wrap_type T) (tupled T x)" "keeps u s s1"
    using then_chain.continuation [OF assms(1), of u ru ju "fn_type (wrap_fn T)" "[ACoroutine q]"
        t "\<lambda>vs. Inr (VTuple vs)" "[]" fs] assms(2) w wrap_result by metis
  have "coro_at s1 q rq TR (Suspended u k')" using keepsD(3) [OF s1(3) _ assms(3)] assms(4) by simp
  from awaiter_resumes [OF this s1(2), of t "Run Plain (Return VVoid) # fs"]
  obtain s2 where s2: "solo t s1 (Awaiters [ACoroutine q] # Run Plain (Return VVoid) # fs) s2
      (Run (Coroutine q) (k' (tupled T x)) # Awaiters [] # Run Plain (Return VVoid) # fs)"
    "running_at s2 q rq TR" "keeps q s1 s2" by blast
  have "spares p q s s2" using spares_trans [OF keeps_spares [OF s1(3)] keeps_spares [OF s2(3)]] assms(4) by simp
  then show ?thesis using solo_trans [OF s1(1) s2(1)] s2(2) by blast
qed

lemma all_pack_loop_Cons:
  "all_pack_loop ((T, p) # ps) vs = bindP (ThenPlain T p (wrap_fn T) []) (\<lambda>r. bindP (callP (ODetach p) (\<lambda>_. finish r))
     (\<lambda>r. case r of Inl e \<Rightarrow> Throw e | Inr w \<Rightarrow> as_promise w (\<lambda>q. CoAwait q
        (\<lambda>x. case x of Inl e \<Rightarrow> Throw e | Inr v \<Rightarrow> all_pack_loop ps (vs @ tuple_of v)))))"
  by (simp add: thenP_def detaching_def bindP_assoc)

text \<open>Awaiting a pending participant: the callback is registered and the coroutine waits for its promise.\<close>

lemma pack_parks:
  fixes s :: "'o store"
  assumes p: "open_at s p r j T []" "p < q" and q: "running_at s q rq TR"
  shows "\<exists>s'. solo t s (Run (Coroutine q) (all_pack_loop ((T, p) # ps) vs) # fs) s' fs \<and>
    pack_parked s' q rq TR (T, p, r, j) (\<lambda>x. case x of Inl e \<Rightarrow> Throw e
      | Inr v \<Rightarrow> all_pack_loop ps (vs @ (if is_void T then [] else [v]))) \<and> spares p q s s'"
proof -
  let ?k' = "\<lambda>x. case x of Inl e \<Rightarrow> Throw e | Inr v \<Rightarrow> all_pack_loop ps (vs @ tuple_of v)"
  let ?K = "\<lambda>r. case r of Inl e \<Rightarrow> Throw e | Inr w \<Rightarrow> as_promise w (\<lambda>q. CoAwait q ?k')"
  let ?D = "\<lambda>r. bindP (callP (ODetach p) (\<lambda>_. finish r)) ?K"
  obtain s1 u ru ju i where s1: "solo t s (Run (Coroutine q) (all_pack_loop ((T, p) # ps) vs) # fs) s1
      (Run (Coroutine q) (?D (Inr (VPromise u))) # fs)"
    "open_at s1 p r j T [AFunction i (then_awaiter T p (wrap_fn T) [] ru ju)]"
    "open_at s1 u ru ju (wrap_type T) []" "keeps p s s1" "u \<noteq> p" "u = length (promises s)"
    using then_pending_run [OF p(1), of t "Coroutine q" "wrap_fn T" "[]" ?D fs]
    unfolding all_pack_loop_Cons wrap_result by auto
  have q1: "running_at s1 q rq TR" using keepsD(3) [OF s1(4) _ q] p(2) by simp
  have u: "q < u" using q s1(6) by (simp add: coro_at_def)
  have "p < length (promises s1)" "p_readers (promises s1 ! p) = []" "IsDone s1 p = Next False"
    using s1(2) open_IsDone [OF s1(2)] by (simp_all add: open_at_def)
  then obtain s2 where s2: "solo t s1 (Run (Coroutine q) (?D (Inr (VPromise u))) # fs) s2
      (Run (Coroutine q) (?K (Inr (VPromise u))) # fs)"
    "\<forall>q r j T as. open_at s1 q r j T as \<longrightarrow> open_at s2 q r j T as" "\<forall>q. keeps q s1 s2"
    by (rule detach_bind)
  have q2: "running_at s2 q rq TR" using keeps_allD(3) [OF s2(3) q1] .
  have u2: "open_at s2 u ru ju (wrap_type T) []" using s2(2) s1(3) by blast
  obtain s3 where s3: "solo t s2 (Run (Coroutine q) (CoAwait u ?k') # fs) s3 fs"
    "coro_at s3 q rq TR (Suspended u ?k')" "open_at s3 u ru ju (wrap_type T) ([] @ [ACoroutine q])"
    "objects s3 = objects s2" "\<forall>v r j T as. v \<noteq> u \<longrightarrow> open_at s2 v r j T as \<longrightarrow> open_at s3 v r j T as"
    "\<forall>v T x rs. held_at s2 v T x rs \<longrightarrow> held_at s3 v T x rs"
    using q2 u2 by (rule Suspend_rule)
  have "spares p q s1 s3"
    using keeps_all_spares [OF s2(3), of p q] s3(5,6) u unfolding spares_def by (metis order_less_asym)
  then have sp: "spares p q s s3" using spares_trans keeps_spares [OF s1(4)] by blast
  have p3: "open_at s3 p r j T [AFunction i (then_awaiter T p (wrap_fn T) [] ru ju)]"
    using s3(5) [rule_format, of p] s2(2) [rule_format, OF s1(2)] s1(5) by simp
  have "?k' (tupled T x) = (case x of Inl e \<Rightarrow> Throw e
      | Inr v \<Rightarrow> all_pack_loop ps (vs @ (if is_void T then [] else [v])))" for x
    by (cases x) (simp_all add: tupled_def)
  then have "pack_parked s3 q rq TR (T, p, r, j) (\<lambda>x. case x of Inl e \<Rightarrow> Throw e
      | Inr v \<Rightarrow> all_pack_loop ps (vs @ (if is_void T then [] else [v])))"
    unfolding pack_parked_def prod.case using p(2) u s3(2) s3(3) [unfolded append_Nil] p3
    by (intro exI [of _ u] exI [of _ ru] exI [of _ ju] exI [of _ i] exI [of _ ?k'] conjI allI)
  moreover have "?K (Inr (VPromise u)) = (CoAwait u ?k' :: 'o prog)" by (simp add: as_promise_def)
  with s3(1) have "solo t s2 (Run (Coroutine q) (?K (Inr (VPromise u))) # fs) s3 fs" by (simp only:)
  note solo_trans [OF solo_trans [OF s1(1) s2(1)] this]
  ultimately show ?thesis using sp by blast
qed

text \<open>When the participant settles, its callback settles the promise and the coroutine goes on.\<close>

lemma pack_wakes:
  fixes s :: "'o store"
  assumes "pack_parked s q rq TR (T, p, r, j) k"
  shows "\<exists>s' gs. solo t s (Run c (bindP (callP (settle_op r j x) (\<lambda>_. Return VVoid)) K) # fs) s'
      (Run (Coroutine q) (k (stored T x)) # gs @ Run c (K (Inr VVoid)) # fs) \<and>
    (\<forall>s fs. solo t s (gs @ fs) s fs) \<and> running_at s' q rq TR \<and>
    closed_at s' p T (stored T x) \<and> spares p q s s'"
proof -
  obtain u ru ju i k' where pk: "p < q" "q < u" "coro_at s q rq TR (Suspended u k')"
    "open_at s p r j T [AFunction i (then_awaiter T p (wrap_fn T) [] ru ju)]"
    "open_at s u ru ju (wrap_type T) [ACoroutine q]" "\<And>x. k' (tupled T x) = k x"
    using assms unfolding pack_parked_def prod.case by blast
  let ?aw = "then_awaiter T p (wrap_fn T) [] ru ju" and ?fs = "Run c (K (Inr VVoid)) # fs"
  obtain s1 where s1: "solo t s (Run c (bindP (callP (settle_op r j x) (\<lambda>_. Return VVoid)) K) # fs) s1
      (Awaiters [AFunction i ?aw] # Run c (bindP (Return VVoid) K) # fs)"
    "closed_at s1 p T (stored T x)" "keeps p s s1"
    using pk(4) by (rule settle_bind)
  have "open_at s1 u ru ju (wrap_type T) [ACoroutine q]" "coro_at s1 q rq TR (Suspended u k')"
    using keepsD(1) [OF s1(3) _ pk(5)] keepsD(3) [OF s1(3) _ pk(3)] pk(1,2) by simp_all
  from wrap_awaiter_run [OF s1(2) this pk(2), of t "Awaiters [] # ?fs"]
  obtain s2 where s2: "solo t s1 (Run Plain ?aw # Awaiters [] # ?fs) s2
      (Run (Coroutine q) (k (stored T x)) # Awaiters [] # Run Plain (Return VVoid) # Awaiters [] # ?fs)"
    "running_at s2 q rq TR" "spares p q s1 s2" unfolding pk(6) by blast
  have "solo t s1 (Awaiters [AFunction i ?aw] # ?fs) s1 (Run Plain ?aw # Awaiters [] # ?fs)"
    by (rule solo_one) simp
  note run = solo_trans [OF s1(1) [unfolded bindP.simps] solo_trans [OF this s2(1)]]
  let ?gs = "[Awaiters [], Run Plain (Return VVoid), Awaiters []]"
  have "solo t s (?gs @ fs) s fs" for s :: "'o store" and fs
  proof -
    have "solo t s (Run Plain (Return VVoid) # Awaiters [] # fs) s (Awaiters [] # fs)" by (rule solo_one) simp
    from solo_trans [OF solo_awaiters_nil solo_trans [OF this solo_awaiters_nil]] show ?thesis by simp
  qed
  then show ?thesis
    using run s2(2) sparesD(2) [OF s2(3) s1(2)] spares_trans [OF keeps_spares [OF s1(3)] s2(3)]
    by (intro exI [of _ s2] exI [of _ ?gs]) simp
qed

abbreviation typed_pids :: "participant list \<Rightarrow> (cty \<times> pid) list" where
  "typed_pids \<equiv> map (\<lambda>(T, p, r, j). (T, p))"

interpretation pack: gathering "\<lambda>es vs. all_pack_loop (typed_pids es) vs"
  "\<lambda>T vs v. vs @ (if is_void T then [] else [v])" VTuple pack_parked
proof (unfold_locales, goal_cases)
  case (1 vs)
  then show ?case by simp
next
  case (2 s p T x t q r j es vs fs)
  from pack_step [OF 2, of t q "typed_pids es" vs fs] show ?case by simp
next
  case (3 s p r j T q rq TR t es vs fs)
  from pack_parks [OF 3(1,3,2), of t "typed_pids es" vs fs] show ?case by simp
next
  case 4
  then show ?case by (rule pack_wakes)
next
  case (5 s q rq TR T p r j k u s')
  then obtain w ru ju i k' where pk: "p < q" "q < w" "coro_at s q rq TR (Suspended w k')"
    "open_at s p r j T [AFunction i (then_awaiter T p (wrap_fn T) [] ru ju)]"
    "open_at s w ru ju (wrap_type T) [ACoroutine q]" "\<forall>x. k' (tupled T x) = k x"
    unfolding pack_parked_def prod.case by blast
  have "q \<noteq> u" "p \<noteq> u" "w \<noteq> u" using 5(3,4) pk(2) by auto
  then show ?case unfolding pack_parked_def prod.case
    using pk(1,2,6) keepsD(3) [OF 5(2) _ pk(3)] keepsD(1) [OF 5(2) _ pk(4)] keepsD(1) [OF 5(2) _ pk(5)] by blast
next
  case (6 s q rq TR e k)
  then show ?case by (auto simp: pack_parked_def intro: coro_outcome)
qed

subsection \<open>All of pending promises\<close>

lemma container_gathered:
  "container.gathered T f es vs =
     map_sum id (\<lambda>vs. if is_void T then VVoid else VVector vs) (gather (map f es) vs)"
proof (induction es arbitrary: vs)
  case (Cons e es)
  then show ?case by (cases "f e") simp_all
qed simp

lemma pack_gathered: "pack.gathered f es vs = gather_pack (map (\<lambda>e. (fst e, f e)) es) vs"
proof (induction es arbitrary: vs)
  case (Cons e es)
  then show ?case by (cases "f e"; cases e) simp_all
qed simp

text \<open>
  C13. All of a container of pending promises. All returns a promise that is pending. In whatever
  order and by whatever threads the participants are settled, once all of them are it has the
  outcome it would have had if they had been settled before: the vector of their values in the
  order of the container (nothing for void promises), or the exception of the first one in that
  order that is rejected.
\<close>

theorem All_container_any_order:
  assumes "\<forall>(T', p, r, j) \<in> set es. T' = T \<and> open_at s p r j T []" "distinct (pids es)"
  shows "\<exists>s1 Q. solo t s (Run c (bindP (All_container T (pids es)) K) # fs) s1 (Run c (K (Inr (VPromise Q))) # fs) \<and>
    (es \<noteq> [] \<longrightarrow> outcome_of s1 Q = None) \<and>
    (\<forall>ev. distinct (map fst ev) \<and> set (map fst ev) = set es \<longrightarrow>
       (\<exists>s2. settle_all s1 ev s2 \<and>
          outcome_of s2 Q = Some (stored (all_container_return T) (all_outcome T (map (outcome_in ev) es)))))"
proof -
  have "\<forall>(T', p, r, j) \<in> set es. open_at s p r j T' []" using assms(1) by auto
  moreover have "distinct (map (fst \<circ> snd) es)" using assms(2) by (simp add: comp_def)
  ultimately show ?thesis
    unfolding All_container_def all_outcome_def
    by (rule container.gathers [where T = T, unfolded container_gathered])
qed

text \<open>
  C12. All of a pack of pending promises of any types. All returns a promise that is pending. In
  whatever order and by whatever threads the participants are settled, once all of them are it has
  the outcome it would have had if they had been settled before: the tuple of the values of the
  non-void ones in the order of the arguments, or the exception of the first rejected one.
\<close>

theorem All_any_order:
  assumes "\<forall>(T, p, r, j) \<in> set es. open_at s p r j T []" "distinct (pids es)"
  shows "\<exists>s1 Q. solo t s (Run c (bindP (All (typed_pids es)) K) # fs) s1 (Run c (K (Inr (VPromise Q))) # fs) \<and>
    (es \<noteq> [] \<longrightarrow> outcome_of s1 Q = None) \<and>
    (\<forall>ev. distinct (map fst ev) \<and> set (map fst ev) = set es \<longrightarrow>
       (\<exists>s2. settle_all s1 ev s2 \<and>
          outcome_of s2 Q = Some (gather_pack (map (\<lambda>e. (fst e, outcome_in ev e)) es) [])))"
proof -
  let ?T = "all_return (map fst (typed_pids es))"
  have st: "stored ?T y = y" for y by (simp add: stored_def all_return_def is_void_def split: sum.split)
  have "distinct (map (fst \<circ> snd) es)" using assms(2) by (simp add: comp_def)
  from pack.gathers [OF assms(1) this, of t c ?T K fs] show ?thesis
    unfolding All_def pack_gathered st .
qed

subsection \<open>Two pending promises, settled in reverse order\<close>

theorem All_any_order_witness:
  "\<exists>s1 s2 Q. solo 0 racing_store [Run Plain (bindP (All [(TInt, 0), (TVoid, Suc 0)]) finish)] s1 [Run Plain (Return (VPromise Q))] \<and>
     settle_all s1 [((TVoid, Suc 0, Suc 0, Suc 0), 1, Inr VVoid), ((TInt, 0, 0, 0), 2, Inr (VInt 5))] s2 \<and>
     outcome_of s2 Q = Some (Inr (VTuple [VInt 5]))"
proof -
  let ?ev = "[((TVoid, Suc 0, Suc 0, Suc 0), 1, Inr VVoid), ((TInt, 0, 0, 0), 2, Inr (VInt 5))] :: (participant \<times> tid \<times> outcome) list"
  have y: "gather_pack (map (\<lambda>e. (fst e, outcome_in ?ev e)) [(TInt, 0, 0, 0), (TVoid, Suc 0, Suc 0, Suc 0)]) [] =
      Inr (VTuple [VInt 5])" by code_simp
  from All_any_order [of "[(TInt, 0, 0, 0), (TVoid, Suc 0, Suc 0, Suc 0)]" racing_store 0 Plain finish "[]"] racing_store_open
  obtain s1 Q where 1: "solo 0 racing_store [Run Plain (bindP (All [(TInt, 0), (TVoid, Suc 0)]) finish)] s1 [Run Plain (Return (VPromise Q))]"
    and 2: "\<forall>ev. distinct (map fst ev) \<and> set (map fst ev) = {(TInt, 0, 0, 0), (TVoid, Suc 0, Suc 0, Suc 0)} \<longrightarrow>
       (\<exists>s2. settle_all s1 ev s2 \<and> outcome_of s2 Q =
          Some (gather_pack (map (\<lambda>e. (fst e, outcome_in ev e)) [(TInt, 0, 0, 0), (TVoid, Suc 0, Suc 0, Suc 0)]) []))"
    by auto
  have "distinct (map fst ?ev) \<and> set (map fst ?ev) = {(TInt, 0, 0, 0), (TVoid, Suc 0, Suc 0, Suc 0)}" by auto
  from 2 [rule_format, OF this] 1 show ?thesis unfolding y by blast
qed

definition two_ints :: "unit store" where
  "two_ints = snd (snd (snd (Promise_Create TInt (fresh_store TInt))))"

theorem All_container_any_order_witness:
  "\<exists>s1 s2 Q. solo 0 two_ints [Run Plain (bindP (All_container TInt [0, Suc 0]) finish)] s1 [Run Plain (Return (VPromise Q))] \<and>
     settle_all s1 [((TInt, Suc 0, Suc 0, Suc 0), 1, Inr (VInt 6)), ((TInt, 0, 0, 0), 2, Inr (VInt 5))] s2 \<and>
     outcome_of s2 Q = Some (Inr (VVector [VInt 5, VInt 6]))"
proof -
  let ?ev = "[((TInt, Suc 0, Suc 0, Suc 0), 1, Inr (VInt 6)), ((TInt, 0, 0, 0), 2, Inr (VInt 5))] :: (participant \<times> tid \<times> outcome) list"
  have y: "stored (all_container_return TInt) (all_outcome TInt (map (outcome_in ?ev) [(TInt, 0, 0, 0), (TInt, Suc 0, Suc 0, Suc 0)])) =
      Inr (VVector [VInt 5, VInt 6])" by code_simp
  have "open_at two_ints 0 0 0 TInt []" "open_at two_ints (Suc 0) (Suc 0) (Suc 0) TInt []"
    by (simp_all add: two_ints_def fresh_store_def Promise_Create_eq empty_store_def open_at_def)
  with All_container_any_order [of "[(TInt, 0, 0, 0), (TInt, Suc 0, Suc 0, Suc 0)]" TInt two_ints 0 Plain finish "[]"]
  obtain s1 Q where 1: "solo 0 two_ints [Run Plain (bindP (All_container TInt [0, Suc 0]) finish)] s1 [Run Plain (Return (VPromise Q))]"
    and 2: "\<forall>ev. distinct (map fst ev) \<and> set (map fst ev) = {(TInt, 0, 0, 0), (TInt, Suc 0, Suc 0, Suc 0)} \<longrightarrow>
       (\<exists>s2. settle_all s1 ev s2 \<and> outcome_of s2 Q = Some (stored (all_container_return TInt)
          (all_outcome TInt (map (outcome_in ev) [(TInt, 0, 0, 0), (TInt, Suc 0, Suc 0, Suc 0)]))))"
    by auto
  have "distinct (map fst ?ev) \<and> set (map fst ?ev) = {(TInt, 0, 0, 0), (TInt, Suc 0, Suc 0, Suc 0)}" by auto
  from 2 [rule_format, OF this] 1 show ?thesis unfolding y by blast
qed

end
