(* ===== verification/Nested.thy ===== *)
theory Nested
  imports Racing Locks
begin

text \<open>
  Callbacks that are promise functions. Then, Catch and Finally start the coroutine of such a
  callback with MakePromise and forward the outcome of its promise to the promise they returned,
  through a Then and a Catch of their own (\<open>forward\<close>). The theory runs that machinery for callbacks
  whose coroutine computes its outcome from the arguments, and shows that ThenPromise, CatchPromise
  and Finally fulfil the contract \<open>chaining_alone\<close> of theory Laws.
\<close>

subsection \<open>Callbacks that are coroutines\<close>

text \<open>A coroutine that computes the outcome of its promise from its arguments.\<close>

abbreviation coroutine_type :: "cty \<Rightarrow> cty list \<Rightarrow> cty" where
  "coroutine_type T as \<equiv> TFunction (TIPromise T False) (filter (\<lambda>a. \<not> IS_RESOLVER a) as)"

definition coroutine_fn :: "cty \<Rightarrow> cty list \<Rightarrow> (val list \<Rightarrow> outcome) \<Rightarrow> 'o fn" where
  "coroutine_fn T as g = Fn (coroutine_type T as) (\<lambda>vs. finish (g vs))"

lemma coroutine_fn_sel [simp]: "fn_type (coroutine_fn T as g) = coroutine_type T as"
  "fn_body (coroutine_fn T as g) vs = finish (g vs)"
  by (simp_all add: coroutine_fn_def)

lemma resolver_args_none:
  assumes "all_args_t t = Some as" "\<forall>a \<in> set as. \<not> IS_RESOLVER a"
  shows "resolver_args t r j = []"
  using assms(2) unfolding resolver_args_def assms(1) by (cases as rule: remdups_adj.cases) auto

lemma no_handles [simp]: "resolver_args (coroutine_type T as) r j = []"
  by (rule resolver_args_none) (auto simp: all_args_t_def)

lemma promise_value_coroutine [simp]: "promise_value (coroutine_fn T as g) = T"
  by (simp add: promise_value_def promise_defs)

lemma MakePromise_coroutine_fn:
  "MakePromise (Fn (coroutine_type T as) b) vs =
     callP (OStart T False (\<lambda>r j. b vs)) (\<lambda>h. with_handles h (\<lambda>p r j. Return (VPromise p)))"
proof -
  have "MakePromise_overload (coroutine_type T as) = MakeCoroutine" "return_or_void_t (coroutine_type T as) = TIPromise T False"
    by (simp_all add: MakePromise_overload_def promise_defs function_constructible.simps)
  then show ?thesis
    unfolding MakePromise_def normalise.simps fn.sel Let_def MakeCoroutine_promise_def no_handles
    by (simp add: promise_defs)
qed

text \<open>A coroutine whose body gets to its end without suspending.\<close>

lemma coroutine_run:
  assumes "\<And>s1 n r fs'. running_at s1 n r T \<Longrightarrow> \<exists>s2. solo t s1 (Run (Coroutine n) (b vs) # fs') s2
      (Run (Coroutine n) (finish y) # fs') \<and> (\<forall>p. keeps p s1 s2)"
  shows "\<exists>s' n. solo t s (Run c (bindP (MakePromise (Fn (coroutine_type T as) b) vs) K) # fs) s'
      (Run c (K (Inr (VPromise n))) # fs) \<and> closed_at s' n T (stored T y) \<and> (\<forall>p. keeps p s s')"
proof -
  let ?f = "\<lambda>h. with_handles h (\<lambda>p r j. Return (VPromise p))"
  obtain s1 n r j where s1: "solo t s (Run c (bindP (callP (OStart T False (\<lambda>r j. b vs)) ?f) K) # fs) s1
       (Run (Coroutine n) (b vs) # Run c (bindP (?f (VTuple [VPromise n, VResolve r, VReject j])) K) # fs)"
    "running_at s1 n r T" "\<forall>q. keeps q s s1" "n = length (promises s)"
    by (rule Start_rule)
  have K: "bindP (?f (VTuple [VPromise n, VResolve r, VReject j])) K = K (Inr (VPromise n))" by simp
  obtain s2 where s2: "solo t s1 (Run (Coroutine n) (b vs) # Run c (K (Inr (VPromise n))) # fs) s2
      (Run (Coroutine n) (finish y) # Run c (K (Inr (VPromise n))) # fs)" "\<forall>p. keeps p s1 s2"
    using assms [OF s1(2)] by blast
  obtain s3 where s3: "solo t s2 (Run (Coroutine n) (finish y) # Run c (K (Inr (VPromise n))) # fs) s3
      (Run c (K (Inr (VPromise n))) # fs)" "closed_at s3 n T (stored T y)" "keeps n s2 s3"
    using coroutine_end [OF keeps_allD(3) [OF s2(2) s1(2)]] by blast
  have "\<forall>p. keeps p s s3" using keeps_fresh [OF keeps_all_trans [OF s1(3) s2(2)] s3(3) s1(4)] .
  with solo_trans [OF s1(1) [unfolded K] solo_trans [OF s2(1) s3(1)]] s3(2) show ?thesis
    unfolding MakePromise_coroutine_fn by blast
qed

lemma coroutine_fn_run:
  "\<exists>s' n. solo t s (Run c (bindP (MakePromise (coroutine_fn T as g) vs) K) # fs) s' (Run c (K (Inr (VPromise n))) # fs) \<and>
     closed_at s' n T (stored T (g vs)) \<and> (\<forall>p. keeps p s s')"
  unfolding coroutine_fn_def by (rule coroutine_run) (use solo_refl keeps_refl in blast)

subsection \<open>Callbacks of the library\<close>

text \<open>\<open>resolve_fn\<close> and \<open>reject_fn\<close> settle the promise they were made for.\<close>

lemma settle_fn_run:
  assumes "open_at s q r j T2 []"
  shows "\<exists>s'. solo t s (Run c (bindP (callP (settle_op r j x) (\<lambda>_. Return VVoid)) K) # fs) s' (Run c (K (Inr VVoid)) # fs) \<and>
    closed_at s' q T2 (stored T2 x) \<and> keeps q s s'"
proof -
  obtain s' where s': "solo t s (Run c (bindP (callP (settle_op r j x) (\<lambda>_. Return VVoid)) K) # fs) s'
      (Awaiters [] # Run c (bindP (Return VVoid) K) # fs)" "closed_at s' q T2 (stored T2 x)" "keeps q s s'"
    using assms by (rule settle_bind)
  then show ?thesis using solo_trans [OF s'(1) solo_awaiters_nil] by auto
qed

lemma fn_type_library [simp]:
  "fn_type (resolve_fn T g r) = TFunction TVoid (if is_void T then [] else [TCRef T])"
  "fn_type (reject_fn j) = TFunction TVoid [TExceptionPtr]"
  by (simp_all add: resolve_fn_def reject_fn_def)

lemma reject_fn_body:
  "apply_handler isa (reject_fn j) [] e = callP (settle_op r j (Inl e)) (\<lambda>_. Return VVoid)"
  by (simp add: apply_handler_def catches_def exception_param_def promise_defs reject_fn_def)

subsection \<open>Then and Catch with the callbacks of the library\<close>

text \<open>On a settled promise, Then runs a callback that settles another promise with \<open>h v\<close>,
  and passes an exception on.\<close>

definition settles :: "cty \<Rightarrow> 'o fn \<Rightarrow> rid \<Rightarrow> jid \<Rightarrow> (val \<Rightarrow> outcome) \<Rightarrow> bool" where
  "settles T f r j h \<longleftrightarrow> return_or_void_t (fn_type f) = TVoid \<and>
     (\<forall>v. (is_void T \<longrightarrow> v = VVoid) \<longrightarrow>
        fn_body f (pass_value T v []) = callP (settle_op r j (h v)) (\<lambda>_. Return VVoid))"

lemma settles_body:
  "settles T f r j h \<Longrightarrow> is_void T \<longrightarrow> v = VVoid \<Longrightarrow>
     fn_body f (pass_value T v []) = callP (settle_op r j (h v)) (\<lambda>_. Return VVoid)"
  by (simp add: settles_def)

lemma resolve_fn_settles: "settles T (resolve_fn T g r) r j (\<lambda>v. Inr (g v))"
  by (auto simp: settles_def promise_defs resolve_fn_def pass_value_def)

lemma reject_with_settles: "settles TVoid (reject_with_fn j e) r j (\<lambda>v. Inl e)"
  by (simp add: settles_def reject_with_fn_def pass_value_def is_void_def promise_defs)

definition ignore_value :: "outcome \<Rightarrow> outcome" where
  "ignore_value x = map_sum id (\<lambda>_. VVoid) x"

lemma stored_simps [simp]: "stored TVoid (Inr v) = Inr VVoid" "stored T (Inl e) = Inl e"
  by (simp_all add: stored_def is_void_def)

lemma then_settles:
  assumes n: "closed_at s n T x" and q: "open_at s q r j T2 []" and f: "settles T f r j h"
  shows "\<exists>s' w. solo t s (Run c (bindP (ThenPlain T n f []) K) # fs) s' (Run c (K (Inr (VPromise w))) # fs) \<and>
    closed_at s' w TVoid (ignore_value x) \<and>
    (case x of Inr v \<Rightarrow> closed_at s' q T2 (stored T2 (h v)) | Inl e \<Rightarrow> open_at s' q r j T2 []) \<and> keeps q s s'"
proof -
  let ?k = "\<lambda>y. case y of Inr w \<Rightarrow> Promise_Resolve TVoid w | Inl e \<Rightarrow> Promise_Reject TVoid e"
  have T2: "return_or_void_t (fn_type f) = TVoid" using f by (simp add: settles_def)
  have "exec_op t (OTryAwaitNew n TVoid (then_awaiter T n f [])) s = Next (s, [], Inr VVoid)"
    using n by (rule TryAwaitNew_settled)
  then have "solo t s (Run c (bindP (ThenPlain T n f []) K) # fs) s (Run c (bindP (then_settled T TVoid n f []) K) # fs)"
    unfolding ThenPlain_def T2 Let_def by (rule solo_bind_callP0) simp_all
  also have "solo t s (Run c (bindP (then_settled T TVoid n f []) K) # fs) s
      (Run c (bindP (case x of Inl e \<Rightarrow> Promise_Reject TVoid e
         | Inr v \<Rightarrow> bindP (fn_body f (pass_value T v [])) ?k) K) # fs)"
    unfolding then_settled_def by (rule Outcome_bind [OF n])
  finally have run: "solo t s (Run c (bindP (ThenPlain T n f []) K) # fs) s
      (Run c (bindP (case x of Inl e \<Rightarrow> Promise_Reject TVoid e
         | Inr v \<Rightarrow> bindP (fn_body f (pass_value T v [])) ?k) K) # fs)" .
  show ?thesis
  proof (cases x)
    case (Inl e)
    obtain s' w where s': "solo t s (Run c (bindP (?k (Inl e)) K) # fs) s' (Run c (K (Inr (VPromise w))) # fs)"
      "closed_at s' w TVoid (stored TVoid (Inl e))" "\<forall>p. keeps p s s'" by (rule Promise_settled_rule)
    from solo_trans [OF run [unfolded Inl sum.case] s'(1) [unfolded sum.case]] s'(2,3) keeps_allD(1) [OF s'(3) q]
    show ?thesis by (intro exI [of _ s'] exI [of _ w]) (simp add: Inl ignore_value_def)
  next
    case (Inr v)
    have v: "is_void T \<longrightarrow> v = VVoid" using n by (auto simp: Inr held_at_def)
    let ?m = "callP (settle_op r j (h v)) (\<lambda>_. Return VVoid)"
    obtain s1 where s1: "solo t s (Run c (bindP ?m (\<lambda>y. bindP (?k y) K)) # fs) s1 (Run c (bindP (?k (Inr VVoid)) K) # fs)"
      "closed_at s1 q T2 (stored T2 (h v))" "keeps q s s1"
      using settle_fn_run [OF q, of t c "h v" "\<lambda>y. bindP (?k y) K" fs] by blast
    obtain s2 w where s2: "solo t s1 (Run c (bindP (?k (Inr VVoid)) K) # fs) s2 (Run c (K (Inr (VPromise w))) # fs)"
      "closed_at s2 w TVoid (stored TVoid (Inr VVoid))" "\<forall>p. keeps p s1 s2" by (rule Promise_settled_rule)
    have "solo t s (Run c (bindP (bindP (fn_body f (pass_value T v [])) ?k) K) # fs) s2 (Run c (K (Inr (VPromise w))) # fs)"
      unfolding settles_body [OF f v] bindP_assoc using solo_trans [OF s1(1) s2(1)] .
    from solo_trans [OF run [unfolded Inr sum.case] this] show ?thesis
      using s2(2) keeps_allD(2) [OF s2(3) s1(2)] keeps_trans [OF s1(3) s2(3) [rule_format]]
      by (intro exI [of _ s2] exI [of _ w]) (simp add: Inr ignore_value_def)
  qed
qed

text \<open>A fresh promise and an old one change: nothing else does.\<close>

lemma keeps_two:
  assumes "\<forall>p. keeps p s s1" "u = length (promises s)" "keeps q s1 s2" "keeps u s2 s3" "q \<noteq> u"
  shows "keeps q s s3"
  unfolding keeps_def
proof (intro conjI allI impI)
  fix v r j T as assume v: "v \<noteq> q \<and> open_at s v r j T as"
  then have "v \<noteq> u" using assms(2) by (auto simp: open_at_def)
  then show "open_at s3 v r j T as"
    using v keepsD(1) [OF assms(4)] keepsD(1) [OF assms(3)] keeps_allD(1) [OF assms(1)] by blast
next
  fix v r T h as assume v: "v \<noteq> q \<and> coro_with s v r T h as"
  then have "v \<noteq> u" using assms(2) by (auto simp: coro_at_def)
  then show "coro_with s3 v r T h as"
    using v keepsD(3) [OF assms(4)] keepsD(3) [OF assms(3)] keeps_allD(3) [OF assms(1)] by blast
next
  fix v T x rs assume "held_at s v T x rs"
  then show "held_at s3 v T x rs"
    using keepsD(2) [OF assms(4)] keepsD(2) [OF assms(3)] keeps_allD(2) [OF assms(1)] by blast
next
  show "objects s3 = objects s"
    using keepsD(4) [OF assms(4)] keepsD(4) [OF assms(3)] keeps_allD(4) [OF assms(1)] by simp
qed

text \<open>The continuation of Catch with \<open>reject_fn\<close>: an exception settles the promise \<open>q\<close>.\<close>

lemma catch_reject_run:
  assumes w: "closed_at s w TVoid x" and u: "open_at s u ru ju TVoid []"
    and q: "case x of Inr v \<Rightarrow> True | Inl e \<Rightarrow> open_at s q r j T2 []" "q \<noteq> u"
  shows "\<exists>s2 s3. solo t s (Run c (bindP (catch_continuation isa TVoid TVoid w (reject_fn j) [] ru ju) K) # fs) s3
      (Run c (K (Inr VVoid)) # fs) \<and> closed_at s3 u TVoid (Inr VVoid) \<and>
    (case x of Inr v \<Rightarrow> True | Inl e \<Rightarrow> closed_at s3 q T2 (Inl e)) \<and> keeps q s s2 \<and> keeps u s2 s3"
proof -
  let ?k = "catch_continuation isa TVoid TVoid w (reject_fn j) [] ru ju"
  have "solo t s (Run c (bindP ?k K) # fs) s (Run c (bindP (case x of
         Inl e \<Rightarrow> settle_with ru ju (catch_result TVoid TVoid) (callP (settle_op r j (Inl e)) (\<lambda>_. Return VVoid))
       | Inr v \<Rightarrow> callP (settle_op ru ju (Inr (catch_value TVoid TVoid v))) (\<lambda>_. Return VVoid)) K) # fs)"
    unfolding catch_continuation_def reject_fn_body [of isa j _ r] settle_op.simps by (rule Outcome_bind [OF w])
  note start = this
  show ?thesis
  proof (cases x)
    case (Inr v)
    obtain s2 where "solo t s (Run c (bindP (callP (settle_op ru ju (Inr (catch_value TVoid TVoid v))) (\<lambda>_. Return VVoid)) K) # fs) s2
        (Run c (K (Inr VVoid)) # fs)" "closed_at s2 u TVoid (stored TVoid (Inr (catch_value TVoid TVoid v)))" "keeps u s s2"
      using settle_fn_run [OF u] by blast
    then show ?thesis
      using solo_trans [OF start [unfolded Inr sum.case]] unfolding Inr
      by (intro exI [of _ s] exI [of _ s2]) simp
  next
    case (Inl e)
    have q1: "open_at s q r j T2 []" using q(1) by (simp add: Inl)
    let ?R = "\<lambda>y. bindP (case y of
         Inr v \<Rightarrow> callP (OResolve ru (catch_result TVoid TVoid v)) (\<lambda>_. Return VVoid)
       | Inl e \<Rightarrow> callP (OReject ju e) (\<lambda>_. Return VVoid)) K"
    obtain s2 where s2: "solo t s (Run c (bindP (callP (settle_op r j (Inl e)) (\<lambda>_. Return VVoid)) ?R) # fs) s2
        (Run c (?R (Inr VVoid)) # fs)" "closed_at s2 q T2 (stored T2 (Inl e))" "keeps q s s2"
      using settle_fn_run [OF q1] by blast
    have u2: "open_at s2 u ru ju TVoid []" using keepsD(1) [OF s2(3) _ u] q(2) by simp
    obtain s3 where s3: "solo t s2 (Run c (bindP (callP (settle_op ru ju (Inr (catch_result TVoid TVoid VVoid))) (\<lambda>_. Return VVoid)) K) # fs) s3
        (Run c (K (Inr VVoid)) # fs)" "closed_at s3 u TVoid (stored TVoid (Inr (catch_result TVoid TVoid VVoid)))" "keeps u s2 s3"
      using settle_fn_run [OF u2] by blast
    have "solo t s (Run c (bindP (settle_with ru ju (catch_result TVoid TVoid) (callP (settle_op r j (Inl e)) (\<lambda>_. Return VVoid))) K) # fs) s3
        (Run c (K (Inr VVoid)) # fs)"
      using solo_trans [OF s2(1)] s3(1) unfolding settle_with_def bindP_assoc by simp
    note solo_trans [OF start [unfolded Inl sum.case] this]
    moreover have "closed_at s3 q T2 (Inl e)" using keepsD(2) [OF s3(3) s2(2)] by simp
    ultimately show ?thesis using s3(2,3) s2(3) unfolding Inl
      by (intro exI [of _ s2] exI [of _ s3]) simp
  qed
qed

text \<open>Catch with \<open>reject_fn\<close> on a settled void promise.\<close>

lemma catch_reject_settled:
  assumes w: "closed_at s w TVoid x"
    and q: "case x of Inr v \<Rightarrow> True | Inl e \<Rightarrow> open_at s q r j T2 []" "q < length (promises s)"
  shows "\<exists>s' u. solo t s (Run c (bindP (CatchPlain isa TVoid w (reject_fn j) []) K) # fs) s' (Run c (K (Inr (VPromise u))) # fs) \<and>
    closed_at s' u TVoid (Inr VVoid) \<and>
    (case x of Inr v \<Rightarrow> True | Inl e \<Rightarrow> closed_at s' q T2 (Inl e)) \<and> keeps q s s'"
proof -
  let ?k = "catch_continuation isa TVoid TVoid w (reject_fn j) []"
  have ct: "catch_type TVoid TVoid = TVoid" "return_or_void_t (fn_type (reject_fn j)) = TVoid"
    by (simp_all add: catch_type_def promise_defs)
  have eq: "CatchPlain isa TVoid w (reject_fn j) [] = create_first TVoid w ?k ?k"
    unfolding CatchPlain_eq ct ..
  let ?w = "\<lambda>u ru ju y. case y of VId i \<Rightarrow> Return (VPromise u) | _ \<Rightarrow> thenP (?k ru ju) (\<lambda>_. Return (VPromise u))"
  obtain s1 u ru ju where s1: "solo t s (Run c (bindP (create_first TVoid w ?k ?k) K) # fs) s1
       (Run c (bindP (callP (OTryAwait w (?k ru ju)) (?w u ru ju)) K) # fs)"
    "open_at s1 u ru ju TVoid []" "\<forall>p. keeps p s s1" "u = length (promises s)"
    by (rule create_first_start)
  let ?K = "\<lambda>r. bindP (case r of Inl e \<Rightarrow> Throw e | Inr v \<Rightarrow> Return (VPromise u)) K"
  have w1: "closed_at s1 w TVoid x" using keeps_allD(2) [OF s1(3) w] .
  have run: "solo t s1 (Run c (bindP (callP (OTryAwait w (?k ru ju)) (?w u ru ju)) K) # fs) s1
      (Run c (bindP (?k ru ju) ?K) # fs)"
    by (rule solo_bind_callP0 [OF TryAwait_settled [OF w1]]) (simp_all add: thenP_def bindP_assoc)
  have q1: "case x of Inr v \<Rightarrow> True | Inl e \<Rightarrow> open_at s1 q r j T2 []" "q \<noteq> u"
    using q s1(4) keeps_allD(1) [OF s1(3)] by (simp_all split: sum.splits)
  obtain s2 s3 where s3: "solo t s1 (Run c (bindP (?k ru ju) ?K) # fs) s3 (Run c (?K (Inr VVoid)) # fs)"
    "closed_at s3 u TVoid (Inr VVoid)" "case x of Inr v \<Rightarrow> True | Inl e \<Rightarrow> closed_at s3 q T2 (Inl e)"
    "keeps q s1 s2" "keeps u s2 s3"
    using catch_reject_run [OF w1 s1(2) q1] by blast
  have "keeps q s s3" using s1(3,4) s3(4,5) q1(2) by (rule keeps_two)
  then show ?thesis using solo_trans [OF s1(1) solo_trans [OF run s3(1)]] s3(2,3) unfolding eq by auto
qed

subsection \<open>Forwarding\<close>

definition forward_to :: "cty \<Rightarrow> 'o fn \<Rightarrow> jid \<Rightarrow> val \<Rightarrow> 'o prog" where
  "forward_to T f j v =
     as_promise v (\<lambda>q.
       thenP (detaching q (ThenPlain T q f [])) (\<lambda>w. as_promise w (\<lambda>q2.
         thenP (detaching q2 (CatchPlain (\<lambda>_ _. False) TVoid q2 (reject_fn j) [])) (\<lambda>u.
           as_promise u (\<lambda>q3. callP (ODetach q3) (\<lambda>_. Return VVoid))))))"

lemma forward_eq: "forward T g r j = forward_to T (resolve_fn T g r) j"
  by (simp add: forward_def forward_to_def fun_eq_iff)

lemma finally_exception_eq:
  "IS_PROMISE_FUNCTION (fn_type f) \<Longrightarrow>
     finally_exception f j e = thenP (MakePromise f []) (forward_to TVoid (reject_with_fn j e) j)"
  by (simp add: finally_exception_def forward_to_def [abs_def])

text \<open>The rest of \<open>forward\<close> once Then has returned, and once Catch has.\<close>

definition forward_rest2 :: "pid \<Rightarrow> (outcome \<Rightarrow> 'o prog) \<Rightarrow> outcome \<Rightarrow> 'o prog" where
  "forward_rest2 w K x = bindP (callP (ODetach w) (\<lambda>_. finish x)) (\<lambda>y.
     bindP (case y of Inl e \<Rightarrow> Throw e
       | Inr u \<Rightarrow> as_promise u (\<lambda>q3. callP (ODetach q3) (\<lambda>_. Return VVoid))) K)"

definition forward_rest1 :: "jid \<Rightarrow> pid \<Rightarrow> (outcome \<Rightarrow> 'o prog) \<Rightarrow> outcome \<Rightarrow> 'o prog" where
  "forward_rest1 j n K x = bindP (callP (ODetach n) (\<lambda>_. finish x)) (\<lambda>y.
     bindP (case y of Inl e \<Rightarrow> Throw e
       | Inr w \<Rightarrow> as_promise w (\<lambda>q2.
           thenP (detaching q2 (CatchPlain (\<lambda>_ _. False) TVoid q2 (reject_fn j) [])) (\<lambda>u.
             as_promise u (\<lambda>q3. callP (ODetach q3) (\<lambda>_. Return VVoid))))) K)"

lemma forward_split:
  "bindP (forward_to T f j (VPromise n)) K =
     bindP (ThenPlain T n f []) (forward_rest1 j n K)"
  unfolding forward_to_def as_promise_def [of "VPromise n"] val.case
  by (subst thenP_def, subst detaching_def) (simp add: bindP_assoc forward_rest1_def [abs_def])

lemma forward_rest1_run:
  assumes "IsDone s n = Next b" "n < length (promises s)" "p_readers (promises s ! n) = []"
  shows "\<exists>s'. solo t s (Run c (forward_rest1 j n K (Inr (VPromise w))) # fs) s'
      (Run c (bindP (CatchPlain (\<lambda>_ _. False) TVoid w (reject_fn j) []) (forward_rest2 w K)) # fs) \<and>
    (\<forall>q r j T as. open_at s q r j T as \<longrightarrow> open_at s' q r j T as) \<and> (\<forall>q. keeps q s s')"
proof -
  obtain s' where s': "exec_op t (ODetach n) s = Next (s', [], Inr VVoid)"
    "\<forall>q r j T as. open_at s q r j T as \<longrightarrow> open_at s' q r j T as" "\<forall>q. keeps q s s'"
    using assms(2,3,1) by (rule Detach_rule)
  have "solo t s (Run c (forward_rest1 j n K (Inr (VPromise w))) # fs) s'
      (Run c (bindP (CatchPlain (\<lambda>_ _. False) TVoid w (reject_fn j) []) (forward_rest2 w K)) # fs)"
    unfolding forward_rest1_def
    by (rule solo_bind_callP0 [OF s'(1)])
      (simp_all add: as_promise_def [of "VPromise w"] thenP_def detaching_def bindP_assoc forward_rest2_def [abs_def])
  with s'(2,3) show ?thesis by blast
qed

lemma forward_rest2_run:
  assumes w: "w < length (promises s)" "p_readers (promises s ! w) = []" "IsDone s w = Next b"
    and u: "open_at s u r j T as \<or> closed_at s u T x"
  shows "\<exists>s'. solo t s (Run c (forward_rest2 w K (Inr (VPromise u))) # fs) s' (Run c (K (Inr VVoid)) # fs) \<and>
    (\<forall>q r j T as. open_at s q r j T as \<longrightarrow> open_at s' q r j T as) \<and> (\<forall>q. keeps q s s')"
proof -
  obtain s1 where s1: "exec_op t (ODetach w) s = Next (s1, [], Inr VVoid)"
    "\<forall>q r j T as. open_at s q r j T as \<longrightarrow> open_at s1 q r j T as" "\<forall>q. keeps q s s1"
    using w by (rule Detach_rule)
  have "u < length (promises s1) \<and> p_readers (promises s1 ! u) = [] \<and> (\<exists>b. IsDone s1 u = Next b)"
    using u
  proof
    assume "open_at s u r j T as"
    then have o: "open_at s1 u r j T as" using s1(2) by blast
    show ?thesis using o open_IsDone [OF o] by (auto simp: open_at_def)
  next
    assume "closed_at s u T x"
    then have o: "closed_at s1 u T x" using keeps_allD(2) [OF s1(3)] by blast
    show ?thesis using o closed_IsDone [OF o] by (auto simp: held_at_def)
  qed
  then obtain s2 where s2: "exec_op t (ODetach u) s1 = Next (s2, [], Inr VVoid)"
    "\<forall>q r j T as. open_at s1 q r j T as \<longrightarrow> open_at s2 q r j T as" "\<forall>q. keeps q s1 s2"
    using Detach_rule by metis
  have "solo t s (Run c (forward_rest2 w K (Inr (VPromise u))) # fs) s1
      (Run c (bindP (callP (ODetach u) (\<lambda>_. Return VVoid)) K) # fs)"
    unfolding forward_rest2_def by (rule solo_bind_callP0 [OF s1(1)]) (simp_all add: as_promise_def)
  also have "solo t s1 (Run c (bindP (callP (ODetach u) (\<lambda>_. Return VVoid)) K) # fs) s2 (Run c (K (Inr VVoid)) # fs)"
    by (rule solo_bind_callP0 [OF s2(1)]) simp_all
  finally show ?thesis using s1(2) s2(2) keeps_all_trans [OF s1(3) s2(3)] by blast
qed

text \<open>Forwarding a settled promise settles the other one before \<open>forward\<close> returns.\<close>

lemma forward_to_settled:
  assumes n: "closed_at s n T x" and q: "open_at s q r j T2 []" and f: "settles T f r j h"
  shows "\<exists>s'. solo t s (Run c (bindP (forward_to T f j (VPromise n)) K) # fs) s' (Run c (K (Inr VVoid)) # fs) \<and>
    closed_at s' q T2 (stored T2 (case x of Inl e \<Rightarrow> Inl e | Inr v \<Rightarrow> h v)) \<and> keeps q s s'"
proof -
  obtain s1 w where s1: "solo t s (Run c (bindP (forward_to T f j (VPromise n)) K) # fs) s1
      (Run c (forward_rest1 j n K (Inr (VPromise w))) # fs)"
    "closed_at s1 w TVoid (ignore_value x)"
    "case x of Inr v \<Rightarrow> closed_at s1 q T2 (stored T2 (h v)) | Inl e \<Rightarrow> open_at s1 q r j T2 []" "keeps q s s1"
    using then_settles [OF n q f, of t c "forward_rest1 j n K" fs] unfolding forward_split by blast
  have n1: "closed_at s1 n T x" using keepsD(2) [OF s1(4) n] .
  have "n < length (promises s1)" "p_readers (promises s1 ! n) = []" "IsDone s1 n = Next True"
    using n1 closed_IsDone [OF n1] by (simp_all add: held_at_def)
  then obtain s2 where s2: "solo t s1 (Run c (forward_rest1 j n K (Inr (VPromise w))) # fs) s2
      (Run c (bindP (CatchPlain (\<lambda>_ _. False) TVoid w (reject_fn j) []) (forward_rest2 w K)) # fs)"
    "\<forall>q r j T as. open_at s1 q r j T as \<longrightarrow> open_at s2 q r j T as" "\<forall>q. keeps q s1 s2"
    using forward_rest1_run by blast
  have w2: "closed_at s2 w TVoid (ignore_value x)" using keeps_allD(2) [OF s2(3) s1(2)] .
  have q2: "case ignore_value x of Inr v \<Rightarrow> True | Inl e \<Rightarrow> open_at s2 q r j T2 []"
    using s1(3) s2(2) by (cases x) (simp_all add: ignore_value_def)
  have q3: "q < length (promises s2)"
  proof (cases x)
    case (Inl e)
    then show ?thesis using q2 by (simp add: ignore_value_def open_at_def)
  next
    case (Inr v)
    then have "closed_at s1 q T2 (stored T2 (h v))" using s1(3) by simp
    from keeps_allD(2) [OF s2(3) this] show ?thesis by (simp add: held_at_def)
  qed
  obtain s3 u where s3: "solo t s2 (Run c (bindP (CatchPlain (\<lambda>_ _. False) TVoid w (reject_fn j) []) (forward_rest2 w K)) # fs) s3
      (Run c (forward_rest2 w K (Inr (VPromise u))) # fs)" "closed_at s3 u TVoid (Inr VVoid)"
    "case ignore_value x of Inr v \<Rightarrow> True | Inl e \<Rightarrow> closed_at s3 q T2 (Inl e)" "keeps q s2 s3"
    using catch_reject_settled [OF w2 q2 q3] by blast
  have w3: "closed_at s3 w TVoid (ignore_value x)" using keepsD(2) [OF s3(4) w2] .
  have w4: "w < length (promises s3)" "p_readers (promises s3 ! w) = []" "IsDone s3 w = Next True"
    using w3 closed_IsDone [OF w3] by (simp_all add: held_at_def)
  obtain s4 where s4: "solo t s3 (Run c (forward_rest2 w K (Inr (VPromise u))) # fs) s4 (Run c (K (Inr VVoid)) # fs)"
    "\<forall>q. keeps q s3 s4"
    using forward_rest2_run [OF w4 disjI2 [OF s3(2)], of t c K fs] by blast
  have "closed_at s4 q T2 (stored T2 (case x of Inl e \<Rightarrow> Inl e | Inr v \<Rightarrow> h v))"
  proof (cases x)
    case (Inl e)
    then show ?thesis using s3(3) keeps_allD(2) [OF s4(2)] by (simp add: ignore_value_def)
  next
    case (Inr v)
    then have "closed_at s1 q T2 (stored T2 (h v))" using s1(3) by simp
    then show ?thesis
      using keeps_allD(2) [OF s4(2)] keepsD(2) [OF s3(4)] keeps_allD(2) [OF s2(3)] by (simp add: Inr)
  qed
  moreover have "keeps q s s4"
    using keeps_trans [OF keeps_trans [OF s1(4) s2(3) [rule_format]] keeps_trans [OF s3(4) s4(2) [rule_format]]] .
  ultimately show ?thesis
    using solo_trans [OF solo_trans [OF s1(1) s2(1)] solo_trans [OF s3(1) s4(1)]] by blast
qed

lemma forward_settled:
  assumes "closed_at s n T x" "open_at s q r j T2 []"
  shows "\<exists>s'. solo t s (Run c (bindP (forward T g r j (VPromise n)) K) # fs) s' (Run c (K (Inr VVoid)) # fs) \<and>
    closed_at s' q T2 (stored T2 (map_sum id g x)) \<and> keeps q s s'"
proof -
  have "map_sum id g x = (case x of Inl e \<Rightarrow> Inl e | Inr v \<Rightarrow> Inr (g v))" by (cases x) simp_all
  then show ?thesis using forward_to_settled [OF assms resolve_fn_settles] unfolding forward_eq by metis
qed
subsection \<open>Then with a promise function\<close>

abbreviation then_start :: "cty \<Rightarrow> cty \<Rightarrow> pid \<Rightarrow> 'o fn \<Rightarrow> val list \<Rightarrow> 'o prog" where
  "then_start T T2 p f args \<equiv> Call (OOutcome p) (\<lambda>x. case x of
      Inl e \<Rightarrow> Promise_Reject T2 e | Inr v \<Rightarrow> MakePromise f (pass_value T v args))"

definition nested_result :: "cty \<Rightarrow> (val list \<Rightarrow> outcome) \<Rightarrow> val list \<Rightarrow> cty \<Rightarrow> outcome \<Rightarrow> outcome" where
  "nested_result T2 g args T x =
     stored T2 (case x of Inl e \<Rightarrow> Inl e | Inr v \<Rightarrow> g (pass_value T v args))"

lemma Promise_settled_run:
  "\<exists>s' n. solo t s (Run c (bindP (case x of Inr v \<Rightarrow> Promise_Resolve T v | Inl e \<Rightarrow> Promise_Reject T e) K) # fs) s'
      (Run c (K (Inr (VPromise n))) # fs) \<and> closed_at s' n T (stored T x) \<and> (\<forall>p. keeps p s s')"
  using Promise_settled_rule [of t s c T x K fs] by blast

lemma then_start_run:
  assumes "closed_at s p T x"
  shows "\<exists>s' n. solo t s (Run c (bindP (then_start T T2 p (coroutine_fn T2 as g) args) K) # fs) s'
      (Run c (K (Inr (VPromise n))) # fs) \<and>
    closed_at s' n T2 (nested_result T2 g args T x) \<and> (\<forall>p. keeps p s s')"
proof -
  let ?k = "\<lambda>x. case x of Inl e \<Rightarrow> Promise_Reject T2 e
    | Inr v \<Rightarrow> MakePromise (coroutine_fn T2 as g) (pass_value T v args)"
  have "\<exists>s' n. solo t s (Run c (bindP (?k x) K) # fs) s' (Run c (K (Inr (VPromise n))) # fs) \<and>
    closed_at s' n T2 (nested_result T2 g args T x) \<and> (\<forall>p. keeps p s s')"
  proof (cases x)
    case (Inl e)
    show ?thesis
      using Promise_settled_run [of t s c T2 "Inl e" K fs] by (simp add: Inl nested_result_def)
  next
    case (Inr v)
    show ?thesis
      using coroutine_fn_run [of t s c T2 as g "pass_value T v args" K fs] by (simp add: Inr nested_result_def)
  qed
  then show ?thesis using solo_trans [OF Outcome_bind [OF assms, of t c ?k K fs]] by blast
qed

lemma then_nested_awaiter:
  assumes p: "closed_at s p T x" and q: "open_at s q r j T2 []"
  shows "\<exists>s'. solo t s (Run Plain (thenP (then_start T T2 p (coroutine_fn T2 as g) args) (forward T2 id r j)) # fs) s' fs \<and>
    closed_at s' q T2 (nested_result T2 g args T x) \<and> keeps q s s'"
proof -
  let ?K = "\<lambda>x. bindP (case x of Inl e \<Rightarrow> Throw e | Inr v \<Rightarrow> forward T2 id r j v) finish"
  obtain s1 n where s1: "solo t s (Run Plain (bindP (then_start T T2 p (coroutine_fn T2 as g) args) ?K) # fs) s1
      (Run Plain (?K (Inr (VPromise n))) # fs)"
    "closed_at s1 n T2 (nested_result T2 g args T x)" "\<forall>p. keeps p s s1"
    using then_start_run [OF p] by blast
  have q1: "open_at s1 q r j T2 []" using keeps_allD(1) [OF s1(3) q] .
  obtain s2 where s2: "solo t s1 (Run Plain (bindP (forward T2 id r j (VPromise n)) finish) # fs) s2
      (Run Plain (finish (Inr VVoid)) # fs)"
    "closed_at s2 q T2 (stored T2 (map_sum id id (nested_result T2 g args T x)))" "keeps q s1 s2"
    using forward_settled [OF s1(2) q1] by blast
  have "solo t s2 (Run Plain (finish (Inr VVoid)) # fs) s2 fs" by (rule solo_one) simp
  with solo_trans [OF s1(1)] s2(1)
  have "solo t s (Run Plain (bindP (thenP (then_start T T2 p (coroutine_fn T2 as g) args) (forward T2 id r j)) finish) # fs) s2 fs"
    unfolding thenP_def bindP_assoc by (metis (no_types, lifting) solo_trans sum.case(2))
  moreover have "map_sum id id (nested_result T2 g args T x) = nested_result T2 g args T x"
    by (simp add: sum.map_id0)
  ultimately show ?thesis
    using s2(2) keeps_trans [OF s1(3) [rule_format] s2(3)] unfolding bindP_finish_right
    by (metis nested_result_def stored_idem)
qed

lemma then_nested_locked:
  assumes p: "closed_at s p T x" and T: "is_void T"
  shows "\<exists>s' n. solo t s (Run c (bindP (Call (OLockOutcome p) (\<lambda>x. case x of
          Inl e \<Rightarrow> callP (OUnlockShared p) (\<lambda>_. Promise_Reject T2 e)
        | Inr v \<Rightarrow> bindP (MakePromise (coroutine_fn T2 as g) args) (\<lambda>y. callP (OUnlockShared p) (\<lambda>_. finish y)))) K) # fs) s'
      (Run c (K (Inr (VPromise n))) # fs) \<and>
    closed_at s' n T2 (nested_result T2 g args T x) \<and> (\<forall>p. keeps p s s')"
    (is "\<exists>s' n. solo t s (Run c (bindP (Call _ ?f) K) # fs) s' _ \<and> _ s' n \<and> _ s'")
proof (cases x)
  case (Inl e)
  have "solo t s (Run c (bindP (Call (OLockOutcome p) ?f) K) # fs) (lock_shared t p s)
      (Run c (bindP (callP (OUnlockShared p) (\<lambda>_. Promise_Reject T2 e)) K) # fs)"
    by (rule solo_bind_Call0 [OF lock_unlock(1) [OF p]]) (simp_all add: Inl)
  also have "solo t (lock_shared t p s) (Run c (bindP (callP (OUnlockShared p) (\<lambda>_. Promise_Reject T2 e)) K) # fs) s
      (Run c (bindP (Promise_Reject T2 e) K) # fs)"
    by (rule solo_bind_callP0 [OF lock_unlock(2) [OF p]]) simp_all
  finally have run: "solo t s (Run c (bindP (Call (OLockOutcome p) ?f) K) # fs) s (Run c (bindP (Promise_Reject T2 e) K) # fs)" .
  obtain s' n where "solo t s (Run c (bindP (Promise_Reject T2 e) K) # fs) s' (Run c (K (Inr (VPromise n))) # fs)"
    "closed_at s' n T2 (nested_result T2 g args T x)" "\<forall>p. keeps p s s'"
    using Promise_settled_run [of t s c T2 "Inl e" K fs] by (auto simp: Inl nested_result_def)
  then show ?thesis using solo_trans [OF run] by blast
next
  case (Inr v)
  let ?U = "\<lambda>y. bindP (callP (OUnlockShared p) (\<lambda>_. finish y)) K"
  have "solo t s (Run c (bindP (Call (OLockOutcome p) ?f) K) # fs) (lock_shared t p s)
      (Run c (bindP (MakePromise (coroutine_fn T2 as g) args) ?U) # fs)"
    unfolding bindP_assoc [symmetric] by (rule solo_bind_Call0 [OF lock_unlock(1) [OF p]]) (simp_all add: Inr)
  moreover obtain s2 n where s2: "solo t (lock_shared t p s) (Run c (bindP (MakePromise (coroutine_fn T2 as g) args) ?U) # fs) s2
      (Run c (?U (Inr (VPromise n))) # fs)" "closed_at s2 n T2 (stored T2 (g args))" "\<forall>q. keeps q (lock_shared t p s) s2"
    using coroutine_fn_run by blast
  note ul = locked_keeps [OF p s2(3) [rule_format]]
  have "solo t s2 (Run c (?U (Inr (VPromise n))) # fs) (unlock_shared t p s2) (Run c (K (Inr (VPromise n))) # fs)"
    by (rule solo_bind_callP0 [OF ul(1)]) simp_all
  moreover have "stored T2 (g args) = nested_result T2 g args T x"
    using T by (simp add: Inr nested_result_def pass_value_def)
  ultimately show ?thesis
    using solo_trans [OF _ solo_trans [OF s2(1)]] ul(2) ul(3) [OF s2(2)] by metis
qed

lemma promise_then_settled:
  assumes p: "closed_at s p T x"
  shows "\<exists>s' n. solo t s (Run c (bindP (ThenPromise T p (coroutine_fn T2 as g) args) K) # fs) s'
      (Run c (K (Inr (VPromise n))) # fs) \<and>
    closed_at s' n T2 (nested_result T2 g args T x) \<and> (\<forall>p. keeps p s s')"
proof -
  let ?f = "coroutine_fn T2 as g"
  let ?m = "if is_void T then Call (OLockOutcome p) (\<lambda>x. case x of
          Inl e \<Rightarrow> callP (OUnlockShared p) (\<lambda>_. Promise_Reject T2 e)
        | Inr v \<Rightarrow> bindP (MakePromise ?f args) (\<lambda>y. callP (OUnlockShared p) (\<lambda>_. finish y)))
      else then_start T T2 p ?f args"
  have "exec_op t (OTryAwaitNew p T2 (\<lambda>r j. thenP (then_start T T2 p ?f args) (forward T2 id r j))) s = Next (s, [], Inr VVoid)"
    using p by (rule TryAwaitNew_settled)
  then have "solo t s (Run c (bindP (ThenPromise T p ?f args) K) # fs) s (Run c (bindP ?m K) # fs)"
    unfolding ThenPromise_def promise_value_coroutine Let_def by (rule solo_bind_callP0) simp_all
  moreover have "\<exists>s' n. solo t s (Run c (bindP ?m K) # fs) s' (Run c (K (Inr (VPromise n))) # fs) \<and>
    closed_at s' n T2 (nested_result T2 g args T x) \<and> (\<forall>p. keeps p s s')"
    using then_start_run [OF p] then_nested_locked [OF p] by simp
  ultimately show ?thesis using solo_trans by blast
qed

lemma promise_then_pending:
  assumes "open_at s p r j T aws"
  shows "\<exists>s' q rq jq i. solo t s (Run c (bindP (ThenPromise T p f args) K) # fs) s'
      (Run c (K (Inr (VPromise q))) # fs) \<and>
    open_at s' p r j T (aws @ [AFunction i (thenP (then_start T (promise_value f) p f args) (forward (promise_value f) id rq jq))]) \<and>
    open_at s' q rq jq (promise_value f) [] \<and> keeps p s s' \<and> q \<noteq> p \<and> q = length (promises s)"
proof -
  let ?T2 = "promise_value f"
  let ?g = "\<lambda>r j. thenP (then_start T ?T2 p f args) (forward ?T2 id r j)"
  obtain s' i q rq jq where s': "exec_op t (OTryAwaitNew p ?T2 ?g) s = Next (s', [], Inr (VPromise q))"
    "open_at s' p r j T (aws @ [AFunction i (?g rq jq)])" "open_at s' q rq jq ?T2 []" "keeps p s s'" "q \<noteq> p"
    "q = length (promises s)"
    using assms by (rule TryAwaitNew_rule)
  have "solo t s (Run c (bindP (ThenPromise T p f args) K) # fs) s' (Run c (K (Inr (VPromise q))) # fs)"
    unfolding ThenPromise_def Let_def by (rule solo_bind_callP0 [OF s'(1)]) simp_all
  then show ?thesis using s'(2-6) by blast
qed

interpretation then_nested: chaining_alone "\<lambda>T p. ThenPromise T p (coroutine_fn T2 as g) args"
  "\<lambda>T p r j. thenP (then_start T T2 p (coroutine_fn T2 as g) args) (forward T2 id r j)"
  "\<lambda>_. T2" "nested_result T2 g args"
  for T2 as g args
proof (unfold_locales, goal_cases)
  case 1
  then show ?case by (rule promise_then_settled)
next
  case (2 s p r j T as' t c K fs)
  from promise_then_pending [OF 2, of t c "coroutine_fn T2 as g" args K fs] show ?case
    unfolding promise_value_coroutine by blast
next
  case 3
  then show ?case by (rule then_nested_awaiter)
qed
subsection \<open>Catch with a promise handler\<close>

lemma handler_run:
  fixes s :: "'o store"
  assumes "catches isa (coroutine_type T2 as) e"
  shows "\<exists>s' n. solo t s (Run c (bindP (handler_promise isa (coroutine_fn T2 as g) args e) K) # fs) s'
      (Run c (K (Inr (VPromise n))) # fs) \<and>
    closed_at s' n T2 (stored T2 (g (VExc e # args))) \<and> (\<forall>p. keeps p s s')"
proof -
  let ?f = "coroutine_fn T2 as g :: 'o fn" and ?vs = "VExc e # args"
  let ?b = "\<lambda>_. thenP (MakePromise ?f ?vs) (\<lambda>v. as_promise v (\<lambda>q. CoAwait q finish))"
  have "handler_promise isa ?f args e = MakePromise ?f ?vs \<or>
    handler_promise isa ?f args e = MakePromise (Fn (coroutine_type T2 []) ?b) []"
    using assms by (auto simp: handler_promise_def split: cty.split)
  then show ?thesis
  proof
    assume eq: "handler_promise isa ?f args e = MakePromise ?f ?vs"
    show ?thesis unfolding eq by (rule coroutine_fn_run)
  next
    assume eq: "handler_promise isa ?f args e = MakePromise (Fn (coroutine_type T2 []) ?b) []"
    have "\<exists>s' n. solo t s (Run c (bindP (MakePromise (Fn (coroutine_type T2 []) ?b) []) K) # fs) s'
      (Run c (K (Inr (VPromise n))) # fs) \<and>
      closed_at s' n T2 (stored T2 (stored T2 (g ?vs))) \<and> (\<forall>p. keeps p s s')"
    proof (rule coroutine_run)
      fix s1 :: "'o store" and n r fs' assume "running_at s1 n r T2"
      let ?K = "\<lambda>x. case x of Inl e \<Rightarrow> Throw e | Inr v \<Rightarrow> as_promise v (\<lambda>q. CoAwait q finish)"
      obtain s2 q where s2: "solo t s1 (Run (Coroutine n) (bindP (MakePromise ?f ?vs) ?K) # fs') s2
          (Run (Coroutine n) (?K (Inr (VPromise q))) # fs')"
        "closed_at s2 q T2 (stored T2 (g ?vs))" "\<forall>p. keeps p s1 s2"
        using coroutine_fn_run by blast
      have "solo t s2 (Run (Coroutine n) (?K (Inr (VPromise q))) # fs') s2
          (Run (Coroutine n) (finish (stored T2 (g ?vs))) # fs')"
        unfolding sum.case as_promise_def val.case by (rule CoAwait_rule [OF s2(2)])
      with solo_trans [OF s2(1)] s2(3)
      show "\<exists>s2. solo t s1 (Run (Coroutine n) (?b []) # fs') s2
          (Run (Coroutine n) (finish (stored T2 (g ?vs))) # fs') \<and> (\<forall>p. keeps p s1 s2)"
        unfolding thenP_def by blast
    qed
    then show ?thesis unfolding eq stored_idem .
  qed
qed

definition catch_nested_outcome ::
    "(string \<Rightarrow> string \<Rightarrow> bool) \<Rightarrow> cty \<Rightarrow> cty \<Rightarrow> (val list \<Rightarrow> outcome) \<Rightarrow> val list \<Rightarrow> cty \<Rightarrow> outcome \<Rightarrow> outcome" where
  "catch_nested_outcome isa ty T2 g args T x =
     stored (catch_type T T2)
       (case x of
          Inr v \<Rightarrow> Inr (catch_value T T2 v)
        | Inl e \<Rightarrow> if catches isa ty e then map_sum id (catch_result T T2) (stored T2 (g (VExc e # args))) else Inl e)"

lemma nested_handler_run:
  fixes s :: "'o store"
  assumes p: "closed_at s p T x" and q: "open_at s q r j (catch_type T T2) []"
  shows "\<exists>s'. solo t s (Run c (bindP (catch_promise_continuation isa T T2 p (coroutine_fn T2 as g) args r j) K) # fs) s'
      (Run c (K (Inr VVoid)) # fs) \<and>
    closed_at s' q (catch_type T T2) (catch_nested_outcome isa (coroutine_type T2 as) T2 g args T x) \<and> keeps q s s'"
proof -
  let ?f = "coroutine_fn T2 as g" and ?CT = "catch_type T T2"
  let ?R = "\<lambda>y. bindP (case y of Inr v \<Rightarrow> Return VVoid | Inl e' \<Rightarrow> callP (OReject j e') (\<lambda>_. Return VVoid)) K"
  let ?m = "\<lambda>e. thenP (handler_promise isa ?f args e) (forward T2 (catch_result T T2) r j)"
  let ?k = "\<lambda>x. case x of
         Inl e \<Rightarrow> bindP (?m e) (\<lambda>y. case y of Inr v \<Rightarrow> Return VVoid | Inl e' \<Rightarrow> callP (OReject j e') (\<lambda>_. Return VVoid))
       | Inr v \<Rightarrow> callP (OResolve r (catch_value T T2 v)) (\<lambda>_. Return VVoid)"
  have "\<exists>s'. solo t s (Run c (bindP (?k x) K) # fs) s' (Run c (K (Inr VVoid)) # fs) \<and>
    closed_at s' q ?CT (catch_nested_outcome isa (coroutine_type T2 as) T2 g args T x) \<and> keeps q s s'"
  proof (cases x)
    case (Inr v)
    show ?thesis
      using settle_fn_run [OF q, of t c "Inr (catch_value T T2 v)" K fs] by (simp add: Inr catch_nested_outcome_def)
  next
    case (Inl e)
    show ?thesis
    proof (cases "catches isa (coroutine_type T2 as) e")
      case False
      then have "?m e = (Throw e :: 'o prog)"
        by (auto simp: handler_promise_def thenP_def catches_def split: cty.splits)
      then show ?thesis
        using settle_fn_run [OF q, of t c "Inl e" K fs] False by (simp add: Inl catch_nested_outcome_def)
    next
      case True
      let ?K = "\<lambda>z. bindP (case z of Inl e \<Rightarrow> Throw e | Inr v \<Rightarrow> forward T2 (catch_result T T2) r j v) ?R"
      obtain s1 n where s1: "solo t s (Run c (bindP (handler_promise isa ?f args e) ?K) # fs) s1
          (Run c (?K (Inr (VPromise n))) # fs)"
        "closed_at s1 n T2 (stored T2 (g (VExc e # args)))" "\<forall>p. keeps p s s1"
        using handler_run [OF True] by blast
      obtain s2 where s2: "solo t s1 (Run c (?K (Inr (VPromise n))) # fs) s2 (Run c (?R (Inr VVoid)) # fs)"
        "closed_at s2 q ?CT (stored ?CT (map_sum id (catch_result T T2) (stored T2 (g (VExc e # args)))))" "keeps q s1 s2"
        using forward_settled [OF s1(2) keeps_allD(1) [OF s1(3) q], of t c "catch_result T T2" ?R fs] by auto
      have "solo t s (Run c (bindP (?k x) K) # fs) s2 (Run c (K (Inr VVoid)) # fs)"
        using solo_trans [OF s1(1) s2(1)] by (simp add: Inl thenP_def bindP_assoc)
      then show ?thesis
        using s2(2) keeps_trans [OF s1(3) [rule_format] s2(3)] True
        by (intro exI [of _ s2]) (simp add: Inl catch_nested_outcome_def)
    qed
  qed
  then show ?thesis
    unfolding catch_promise_continuation_def using solo_trans [OF Outcome_bind [OF p, of t c ?k K fs]] by blast
qed

lemma CatchPromise_eq:
  "CatchPromise isa T p f args =
     create_first (catch_type T (promise_value f)) p
       (catch_promise_continuation isa T (promise_value f) p f args)
       (catch_promise_continuation isa T (promise_value f) p f args)"
  by (simp add: CatchPromise_def create_first_def Let_def)

interpretation catch_nested: chaining_alone "\<lambda>T p. CatchPromise isa T p (coroutine_fn T2 as g) args"
  "\<lambda>T p. catch_promise_continuation isa T T2 p (coroutine_fn T2 as g) args"
  "\<lambda>T. catch_type T T2" "catch_nested_outcome isa (coroutine_type T2 as) T2 g args"
  for isa T2 as g args
proof (unfold_locales, goal_cases)
  case 1
  then show ?case
    unfolding CatchPromise_eq promise_value_coroutine by (rule create_first_settled) (rule nested_handler_run)
next
  case (2 s p r j T as' t c K fs)
  then show ?case unfolding CatchPromise_eq promise_value_coroutine by (rule create_first_pending)
next
  case (3 s p T x q r j t fs)
  obtain s' where s': "solo t s (Run Plain (bindP (catch_promise_continuation isa T T2 p (coroutine_fn T2 as g) args r j) finish) # fs) s'
      (Run Plain (finish (Inr VVoid)) # fs)"
    "closed_at s' q (catch_type T T2) (catch_nested_outcome isa (coroutine_type T2 as) T2 g args T x)" "keeps q s s'"
    using nested_handler_run [OF 3] by blast
  have "solo t s' (Run Plain (finish (Inr VVoid)) # fs) s' fs" by (rule solo_one) simp
  then show ?case using s' solo_trans by (metis bindP_finish_right)
qed

subsection \<open>Finally with a promise function\<close>

lemma promise_function_coroutine [simp]: "IS_PROMISE_FUNCTION (coroutine_type T as)"
  unfolding promise_function_iff by blast

text \<open>Both callbacks of Finally start the coroutine and forward what its promise is settled with.\<close>

definition after_callback :: "(val list \<Rightarrow> outcome) \<Rightarrow> outcome \<Rightarrow> outcome" where
  "after_callback g x = (case g [] of Inl e \<Rightarrow> Inl e | Inr v \<Rightarrow> x)"

lemma finally_outcome_eq: "finally_outcome g T x = stored T (after_callback g x)"
  by (simp add: finally_outcome_def after_callback_def)

lemma forwarded_run:
  assumes q: "open_at s q r j T []" and f: "settles TVoid f r j (\<lambda>_. x)"
  shows "\<exists>s'. solo t s (Run c (bindP (thenP (MakePromise (coroutine_fn TVoid as g) []) (forward_to TVoid f j)) K) # fs) s'
      (Run c (K (Inr VVoid)) # fs) \<and> closed_at s' q T (finally_outcome g T x) \<and> keeps q s s'"
proof -
  let ?K = "\<lambda>x. bindP (case x of Inl e \<Rightarrow> Throw e | Inr v \<Rightarrow> forward_to TVoid f j v) K"
  obtain s1 n where s1: "solo t s (Run c (bindP (MakePromise (coroutine_fn TVoid as g) []) ?K) # fs) s1
      (Run c (?K (Inr (VPromise n))) # fs)" "closed_at s1 n TVoid (stored TVoid (g []))" "\<forall>p. keeps p s s1"
    using coroutine_fn_run by blast
  obtain s2 where s2: "solo t s1 (Run c (?K (Inr (VPromise n))) # fs) s2 (Run c (K (Inr VVoid)) # fs)"
    "closed_at s2 q T (stored T (case stored TVoid (g []) of Inl e \<Rightarrow> Inl e | Inr v \<Rightarrow> x))" "keeps q s1 s2"
    using forward_to_settled [OF s1(2) keeps_allD(1) [OF s1(3) q] f, of t c K fs] by auto
  have "(case stored TVoid (g []) of Inl e \<Rightarrow> Inl e | Inr v \<Rightarrow> x) = after_callback g x"
    by (simp add: after_callback_def stored_def split: sum.split)
  with solo_trans [OF s1(1) s2(1)] s2(2) keeps_trans [OF s1(3) [rule_format] s2(3)]
  show ?thesis unfolding thenP_def bindP_assoc finally_outcome_eq by auto
qed

lemma finally_branches_run:
  fixes s :: "'o store"
  assumes "open_at s q r j T []"
  shows "\<exists>s'. solo t s (Run c (bindP (finally_exception (coroutine_fn TVoid as g) j e) K) # fs) s'
      (Run c (K (Inr VVoid)) # fs) \<and> closed_at s' q T (finally_outcome g T (Inl e)) \<and> keeps q s s'"
    "\<exists>s'. solo t s (Run c (bindP (finally_value T (coroutine_fn TVoid as g) r j v) K) # fs) s'
      (Run c (K (Inr VVoid)) # fs) \<and> closed_at s' q T (finally_outcome g T (Inr v)) \<and> keeps q s s'"
  using forwarded_run [OF assms reject_with_settles] forwarded_run [OF assms resolve_fn_settles]
  by (simp_all add: finally_exception_eq finally_value_def forward_eq)

lemma nested_finally_run:
  assumes p: "closed_at s p T x" and q: "open_at s q r j T []"
  shows "\<exists>s'. solo t s (Run c (bindP (finally_awaiter T p (coroutine_fn TVoid as g) r j) K) # fs) s'
      (Run c (K (Inr VVoid)) # fs) \<and> closed_at s' q T (finally_outcome g T x) \<and> keeps q s s'"
proof -
  let ?k = "\<lambda>x. case x of
         Inl e \<Rightarrow> finally_exception (coroutine_fn TVoid as g) j e
       | Inr v \<Rightarrow> finally_value T (coroutine_fn TVoid as g) r j v"
  have "\<exists>s'. solo t s (Run c (bindP (?k x) K) # fs) s' (Run c (K (Inr VVoid)) # fs) \<and>
    closed_at s' q T (finally_outcome g T x) \<and> keeps q s s'"
    using finally_branches_run [OF q] by (cases x) simp_all
  then show ?thesis
    unfolding finally_awaiter_def using solo_trans [OF Outcome_bind [OF p, of t c ?k K fs]] by blast
qed

lemma nested_finally_settled:
  assumes p: "closed_at s p T x" and q: "open_at s q r j T []"
  shows "\<exists>s'. solo t s (Run c (bindP (finally_settled T p (coroutine_fn TVoid as g) r j) K) # fs) s'
      (Run c (K (Inr VVoid)) # fs) \<and> closed_at s' q T (finally_outcome g T x) \<and> keeps q s s'"
proof (cases "is_void T")
  case False
  then show ?thesis using nested_finally_run [OF assms] by (simp add: finally_settled_def)
next
  case void: True
  let ?f = "\<lambda>x. case x of
      Inl e \<Rightarrow> callP (OUnlockShared p) (\<lambda>_. finally_exception (coroutine_fn TVoid as g) j e)
    | Inr v \<Rightarrow> bindP (finally_value T (coroutine_fn TVoid as g) r j v) (\<lambda>y. callP (OUnlockShared p) (\<lambda>_. finish y))"
  have "\<exists>s'. solo t s (Run c (bindP (Call (OLockOutcome p) ?f) K) # fs) s' (Run c (K (Inr VVoid)) # fs) \<and>
    closed_at s' q T (finally_outcome g T x) \<and> keeps q s s'"
  proof (cases x)
    case (Inl e)
    let ?m = "finally_exception (coroutine_fn TVoid as g) j e"
    have "solo t s (Run c (bindP (Call (OLockOutcome p) ?f) K) # fs) (lock_shared t p s)
        (Run c (bindP (callP (OUnlockShared p) (\<lambda>_. ?m)) K) # fs)"
      by (rule solo_bind_Call0 [OF lock_unlock(1) [OF p]]) (simp_all add: Inl)
    also have "solo t (lock_shared t p s) (Run c (bindP (callP (OUnlockShared p) (\<lambda>_. ?m)) K) # fs) s
        (Run c (bindP ?m K) # fs)"
      by (rule solo_bind_callP0 [OF lock_unlock(2) [OF p]]) simp_all
    finally have run: "solo t s (Run c (bindP (Call (OLockOutcome p) ?f) K) # fs) s (Run c (bindP ?m K) # fs)" .
    show ?thesis
      using solo_trans [OF run] finally_branches_run(1) [OF q, of t c as g e K fs] unfolding Inl by blast
  next
    case (Inr v)
    let ?m = "finally_value T (coroutine_fn TVoid as g) r j v"
    let ?U = "\<lambda>y. bindP (callP (OUnlockShared p) (\<lambda>_. finish y)) K"
    have run: "solo t s (Run c (bindP (Call (OLockOutcome p) ?f) K) # fs) (lock_shared t p s) (Run c (bindP ?m ?U) # fs)"
      unfolding bindP_assoc [symmetric] by (rule solo_bind_Call0 [OF lock_unlock(1) [OF p]]) (simp_all add: Inr)
    obtain s2 where s2: "solo t (lock_shared t p s) (Run c (bindP ?m ?U) # fs) s2 (Run c (?U (Inr VVoid)) # fs)"
      "closed_at s2 q T (finally_outcome g T (Inr v))" "keeps q (lock_shared t p s) s2"
      using finally_branches_run(2) [OF open_locked [OF p q]] by blast
    note ul = locked_keeps [OF p s2(3)]
    have "solo t s2 (Run c (?U (Inr VVoid)) # fs) (unlock_shared t p s2) (Run c (K (Inr VVoid)) # fs)"
      by (rule solo_bind_callP0 [OF ul(1)]) simp_all
    with solo_trans [OF run solo_trans [OF s2(1)]] ul(2) ul(3) [OF s2(2)] show ?thesis unfolding Inr by blast
  qed
  then show ?thesis using void by (simp add: finally_settled_def)
qed

interpretation finally_nested: chaining_alone "\<lambda>T p. Finally T p (coroutine_fn TVoid as g)"
  "\<lambda>T p r j. finally_awaiter T p (coroutine_fn TVoid as g) r j" "\<lambda>T. T" "finally_outcome g"
  for as g
proof (unfold_locales, goal_cases)
  case 1
  then show ?case unfolding Finally_eq by (rule create_first_settled) (rule nested_finally_settled)
next
  case (2 s p r j T as' t c K fs)
  then show ?case unfolding Finally_eq by (rule create_first_pending)
next
  case (3 s p T x q r j t fs)
  obtain s' where s': "solo t s (Run Plain (bindP (finally_awaiter T p (coroutine_fn TVoid as g) r j) finish) # fs) s'
      (Run Plain (finish (Inr VVoid)) # fs)" "closed_at s' q T (finally_outcome g T x)" "keeps q s s'"
    using nested_finally_run [OF 3] by blast
  have "solo t s' (Run Plain (finish (Inr VVoid)) # fs) s' fs" by (rule solo_one) simp
  then show ?case using s' solo_trans by (metis bindP_finish_right)
qed

subsection \<open>Order independence with promise functions\<close>

lemma coroutine_fn_plain:
  assumes "\<forall>a \<in> set as. \<not> IS_RESOLVER a"
  shows "coroutine_fn T as g = Fn (TFunction (TIPromise T False) as) (\<lambda>vs. finish (g vs))"
    "coroutine_type T as = TFunction (TIPromise T False) as"
proof -
  have "filter (\<lambda>a. \<not> IS_RESOLVER a) as = as" using assms by simp
  then show "coroutine_fn T as g = Fn (TFunction (TIPromise T False) as) (\<lambda>vs. finish (g vs))"
    "coroutine_type T as = TFunction (TIPromise T False) as"
    by (simp_all add: coroutine_fn_def)
qed

text \<open>
  C23. Then with a promise function. The callback is a coroutine that returns a \<^verbatim>\<open>Promise<T2>\<close> and
  ends with the outcome \<open>g\<close> of its arguments. Chained before the source settles or after, the
  promise that Then returns is settled with the outcome of the callback's promise (it is flattened,
  not nested), or with the exception of the source, by the time the settling call, or Then, returns.
\<close>

theorem Then_promise_flattened:
  assumes "open_at s p r j T []" "\<forall>a \<in> set as. \<not> IS_RESOLVER a"
  shows "\<exists>s1 q1 s2 q2.
    solo t s (Run c (bindP (Then T p (Fn (TFunction (TIPromise T2 False) as) (\<lambda>vs. finish (g vs))) args)
        (\<lambda>w. bindP (callP (settle_op r j x) (\<lambda>_. finish w)) K)) # fs) s1
      (Run c (K (Inr (VPromise q1))) # fs) \<and>
    solo t s (Run c (bindP (callP (settle_op r j x)
        (\<lambda>_. Then T p (Fn (TFunction (TIPromise T2 False) as) (\<lambda>vs. finish (g vs))) args)) K) # fs) s2
      (Run c (K (Inr (VPromise q2))) # fs) \<and>
    outcome_of s1 q1 = Some (nested_result T2 g args T (stored T x)) \<and>
    outcome_of s2 q2 = Some (nested_result T2 g args T (stored T x))"
proof -
  have "Then T p (coroutine_fn T2 as g) args = ThenPromise T p (coroutine_fn T2 as g) args"
    by (simp add: Then_def)
  with then_nested.chain_then_settle [OF assms(1)] then_nested.settle_then_chain [OF assms(1)]
  show ?thesis unfolding coroutine_fn_plain(1) [OF assms(2), symmetric] using closed_outcome by metis
qed

text \<open>
  C25. Catch with a promise function. A handler that is a coroutine with the outcome \<open>g\<close> of the
  exception and the arguments gives the same outcome before and after settling: a value passes
  through, a caught exception is replaced by the outcome of the handler's promise (also when the
  handler takes a reference and the library copies the exception into a coroutine of its own), and
  any other exception passes through.
\<close>

theorem Catch_promise_flattened:
  fixes s :: "'o store"
  assumes "open_at s p r j T []" "\<forall>a \<in> set as. \<not> IS_RESOLVER a"
  shows "\<exists>s1 q1 s2 q2.
    solo t s (Run c (bindP (Catch isa T p (Fn (TFunction (TIPromise T2 False) as) (\<lambda>vs. finish (g vs))) args)
        (\<lambda>w. bindP (callP (settle_op r j x) (\<lambda>_. finish w)) K)) # fs) s1
      (Run c (K (Inr (VPromise q1))) # fs) \<and>
    solo t s (Run c (bindP (callP (settle_op r j x)
        (\<lambda>_. Catch isa T p (Fn (TFunction (TIPromise T2 False) as) (\<lambda>vs. finish (g vs))) args)) K) # fs) s2
      (Run c (K (Inr (VPromise q2))) # fs) \<and>
    outcome_of s1 q1 = Some (catch_nested_outcome isa (TFunction (TIPromise T2 False) as) T2 g args T (stored T x)) \<and>
    outcome_of s2 q2 = Some (catch_nested_outcome isa (TFunction (TIPromise T2 False) as) T2 g args T (stored T x))"
proof -
  let ?f = "coroutine_fn T2 as g :: 'o fn" and ?y = "catch_nested_outcome isa (coroutine_type T2 as) T2 g args T (stored T x)"
  have eq: "Catch isa T p ?f args = CatchPromise isa T p ?f args" by (simp add: Catch_def)
  obtain s1 q1 where s1: "solo t s (Run c (bindP (CatchPromise isa T p ?f args)
      (\<lambda>w. bindP (callP (settle_op r j x) (\<lambda>_. finish w)) K)) # fs) s1 (Run c (K (Inr (VPromise q1))) # fs)"
    "closed_at s1 q1 (catch_type T T2) ?y"
    using catch_nested.chain_then_settle [OF assms(1)] by blast
  obtain s2 q2 where s2: "solo t s (Run c (bindP (callP (settle_op r j x) (\<lambda>_. CatchPromise isa T p ?f args)) K) # fs) s2
      (Run c (K (Inr (VPromise q2))) # fs)" "closed_at s2 q2 (catch_type T T2) ?y"
    using catch_nested.settle_then_chain [OF assms(1)] by blast
  show ?thesis
    using s1(1) s2(1) closed_outcome [OF s1(2)] closed_outcome [OF s2(2)]
    unfolding eq [symmetric] unfolding coroutine_fn_plain [OF assms(2)] by blast
qed

text \<open>
  Finally with a promise function. A callback that is a coroutine is run to its end on both
  outcomes of the source; the promise has the outcome of the source, unless the callback's promise
  is rejected, in which case it is rejected with that exception: the same as for a plain callback,
  before and after settling.
\<close>

theorem Finally_promise_flattened:
  assumes "open_at s p r j T []"
  shows "\<exists>s1 q1 s2 q2.
    solo t s (Run c (bindP (Finally T p (Fn (TFunction (TIPromise TVoid False) []) (\<lambda>vs. finish (g vs))))
        (\<lambda>w. bindP (callP (settle_op r j x) (\<lambda>_. finish w)) K)) # fs) s1
      (Run c (K (Inr (VPromise q1))) # fs) \<and>
    solo t s (Run c (bindP (callP (settle_op r j x)
        (\<lambda>_. Finally T p (Fn (TFunction (TIPromise TVoid False) []) (\<lambda>vs. finish (g vs))))) K) # fs) s2
      (Run c (K (Inr (VPromise q2))) # fs) \<and>
    outcome_of s1 q1 = Some (finally_outcome g T (stored T x)) \<and>
    outcome_of s2 q2 = Some (finally_outcome g T (stored T x))"
proof -
  have "coroutine_fn TVoid [] g = Fn (TFunction (TIPromise TVoid False) []) (\<lambda>vs. finish (g vs))"
    by (rule coroutine_fn_plain(1)) simp
  with finally_nested.chain_then_settle [OF assms, where as = "[]"]
    finally_nested.settle_then_chain [OF assms, where as = "[]"]
  show ?thesis using closed_outcome by metis
qed

subsection \<open>The laws on a concrete promise\<close>

definition fetch :: "val list \<Rightarrow> outcome" where
  "fetch vs = (case vs of VInt i # _ \<Rightarrow> if i < 0 then Inl (Exc ''std::out_of_range'' ''negative'') else Inr (VString ''row'')
     | _ \<Rightarrow> Inl (Exc ''std::logic_error'' ''''))"

theorem Then_promise_flattened_witness:
  "\<exists>s1 q1. solo 0 (fresh_store TInt) [Run Plain (bindP (Then TInt 0 (Fn (TFunction (TIPromise TString False) [TInt]) (\<lambda>vs. finish (fetch vs))) [])
        (\<lambda>w. bindP (callP (settle_op 0 0 (Inr (VInt 4))) (\<lambda>_. finish w)) finish))] s1
      [Run Plain (Return (VPromise q1))] \<and> outcome_of s1 q1 = Some (Inr (VString ''row''))"
proof -
  have "\<forall>a \<in> set [TInt]. \<not> IS_RESOLVER a" by code_simp
  moreover have "nested_result TString fetch [] TInt (stored TInt (Inr (VInt 4))) = Inr (VString ''row'')" by code_simp
  ultimately show ?thesis
    using Then_promise_flattened [OF fresh_store_open [of TInt], where t = 0 and c = Plain and fs = "[]"
        and as = "[TInt]" and ?T2.0 = TString and g = fetch and args = "[]" and x = "Inr (VInt 4)" and K = finish]
    by auto
qed

theorem Catch_promise_flattened_witness:
  "\<exists>s1 q1. solo 0 (fresh_store TInt) [Run Plain (bindP (Catch (=) TInt 0
        (Fn (TFunction (TIPromise TString False) [TCRef (TNamed ''E'')]) (\<lambda>vs. finish (recover vs))) [])
        (\<lambda>w. bindP (callP (settle_op 0 0 (Inl (Exc ''E'' ''boom''))) (\<lambda>_. finish w)) finish))] s1
      [Run Plain (Return (VPromise q1))] \<and> outcome_of s1 q1 = Some (Inr (VAlt 0 (VString ''recovered'')))"
proof -
  let ?ty = "TFunction (TIPromise TString False) [TCRef (TNamed ''E'')]"
  have "\<forall>a \<in> set [TCRef (TNamed ''E'')]. \<not> IS_RESOLVER a" by code_simp
  moreover have "catch_nested_outcome (=) ?ty TString recover [] TInt (stored TInt (Inl (Exc ''E'' ''boom''))) =
      Inr (VAlt 0 (VString ''recovered''))" by code_simp
  ultimately show ?thesis
    using Catch_promise_flattened [OF fresh_store_open [of TInt], where t = 0 and c = Plain and fs = "[]"
        and isa = "(=)" and as = "[TCRef (TNamed ''E'')]" and ?T2.0 = TString and g = recover and args = "[]"
        and x = "Inl (Exc ''E'' ''boom'')" and K = finish]
    by auto
qed

theorem Finally_promise_flattened_witness:
  "\<exists>s1 q1. solo 0 (fresh_store TVoid) [Run Plain (bindP (Finally TVoid 0
        (Fn (TFunction (TIPromise TVoid False) []) (\<lambda>vs. finish (Inl (Exc ''E'' ''cleanup'')))))
        (\<lambda>w. bindP (callP (settle_op 0 0 (Inr VVoid)) (\<lambda>_. finish w)) finish))] s1
      [Run Plain (Return (VPromise q1))] \<and> outcome_of s1 q1 = Some (Inl (Exc ''E'' ''cleanup''))"
proof -
  have "finally_outcome (\<lambda>_. Inl (Exc ''E'' ''cleanup'')) TVoid (stored TVoid (Inr VVoid)) = Inl (Exc ''E'' ''cleanup'')"
    by code_simp
  then show ?thesis
    using Finally_promise_flattened [OF fresh_store_open [of TVoid], where t = 0 and c = Plain and fs = "[]"
        and g = "\<lambda>_. Inl (Exc ''E'' ''cleanup'')" and x = "Inr VVoid" and K = finish]
    by auto
qed

end
