(* ===== verification/Following.thy ===== *)
theory Following
  imports Nested Gathering
begin

text \<open>
  Callbacks whose promise is still pending when they return. The callback of Then is a coroutine
  that awaits another promise; its continuation leaves a chain of a Then and a Catch on the promise
  of that coroutine (\<open>forward\<close>), through which the promise of Then follows it. The theory describes
  the heap while the chain waits and runs the chain when the awaited promise settles.
\<close>

subsection \<open>A promise that follows a pending one\<close>

text \<open>
  What \<open>forward\<close> leaves behind when the coroutine of \<open>n\<close> is suspended: a Then on \<open>n\<close> whose promise
  \<open>w\<close> has a Catch whose promise is \<open>u\<close>; they settle \<open>q\<close>.
\<close>

definition catch_reject :: "pid \<Rightarrow> jid \<Rightarrow> rid \<Rightarrow> jid \<Rightarrow> 'o prog" where
  "catch_reject w j ru ju = catch_continuation (\<lambda>_ _. False) TVoid TVoid w (reject_fn j) [] ru ju"

definition follows_at :: "'o store \<Rightarrow> pid \<Rightarrow> rid \<Rightarrow> jid \<Rightarrow> cty \<Rightarrow> pid \<Rightarrow> rid \<Rightarrow> cty \<Rightarrow> 'o coroutine \<Rightarrow> 'o fn \<Rightarrow> bool" where
  "follows_at s q r j T2 n rn T h f \<longleftrightarrow>
     (\<exists>i w rw jw i2 u ru ju.
        coro_with s n rn T h [AFunction i (then_awaiter T n f [] rw jw)] \<and>
        open_at s w rw jw TVoid [AFunction i2 (catch_reject w j ru ju)] \<and>
        open_at s u ru ju TVoid [] \<and> open_at s q r j T2 [] \<and> distinct [n, w, u, q])"

lemma coro_not_open: "coro_with s n rn T h as \<Longrightarrow> \<not> open_at s n r j T' bs"
  by (auto simp: coro_at_def open_at_def)

lemma coro_IsDone: "coro_with s p r T h as \<Longrightarrow> IsDone s p = Next False"
  by (auto simp: coro_at_def IsDone_def)

lemma TryAwaitNew_coro:
  assumes "coro_with s p rp T h as"
  shows "\<exists>s' i q rq jq. exec_op t (OTryAwaitNew p T2 g) s = Next (s', [], Inr (VPromise q)) \<and>
    coro_with s' p rp T h (as @ [AFunction i (g rq jq)]) \<and> open_at s' q rq jq T2 [] \<and> keeps p s s' \<and>
    q = length (promises s)"
proof -
  let ?i = "p_use_count (promises s ! p) + 1"
  let ?q = "length (promises s)" and ?r = "length (resolvers s)" and ?j = "length (rejects s)"
  let ?g = "\<lambda>x. x\<lparr>p_use_count := ?i, p_awaiters := p_awaiters x @ [AFunction ?i (g ?r ?j)]\<rparr>"
  let ?s1 = "snd (snd (snd (Promise_Create T2 s)))"
  let ?s = "upd_promise p ?g ?s1"
  note o = assms [unfolded coro_at_def]
  have d: "IsDone ?s1 p = Next False"
    using o by (simp add: IsDone_def Promise_Create_eq nth_append)
  have "exec_op t (OTryAwaitNew p T2 g) s = Next (?s, [], Inr (VPromise ?q))"
    using o coro_IsDone [OF assms] d
    by (simp add: valid_promise_def try_await_new_def with_unique_def ret_def Await_function_def Let_def
        Promise_Create_eq nth_append)
  moreover have "coro_with ?s p rp T h (as @ [AFunction ?i (g ?r ?j)])"
    using o by (auto simp: coro_at_def Promise_Create_eq nth_append upd_nth_append)
  moreover have "open_at ?s ?q ?r ?j T2 []"
    using o by (auto simp: open_at_def Promise_Create_eq nth_append upd_nth_append)
  moreover have "keeps p s ?s"
    using o by (auto simp: Promise_Create_eq upd_nth_append intro: keeps_upd [of _ p ?g])
  ultimately show ?thesis by blast
qed

lemma then_coro_run:
  assumes "coro_with s n rn T h as"
  shows "\<exists>s' w rw jw i. solo t s (Run c (bindP (ThenPlain T n f []) K) # fs) s' (Run c (K (Inr (VPromise w))) # fs) \<and>
    coro_with s' n rn T h (as @ [AFunction i (then_awaiter T n f [] rw jw)]) \<and>
    open_at s' w rw jw (return_or_void_t (fn_type f)) [] \<and> keeps n s s' \<and> w = length (promises s)"
proof -
  let ?T2 = "return_or_void_t (fn_type f)"
  obtain s' i w rw jw where s': "exec_op t (OTryAwaitNew n ?T2 (then_awaiter T n f [])) s = Next (s', [], Inr (VPromise w))"
    "coro_with s' n rn T h (as @ [AFunction i (then_awaiter T n f [] rw jw)])" "open_at s' w rw jw ?T2 []"
    "keeps n s s'" "w = length (promises s)"
    using TryAwaitNew_coro [OF assms] by blast
  have "solo t s (Run c (bindP (ThenPlain T n f []) K) # fs) s' (Run c (K (Inr (VPromise w))) # fs)"
    unfolding ThenPlain_def Let_def by (rule solo_bind_callP0 [OF s'(1)]) simp_all
  then show ?thesis using s'(2-5) by blast
qed

lemma forward_parks:
  assumes n: "coro_at s n rn T h" and q: "open_at s q r j T2 []" and f: "return_or_void_t (fn_type f) = TVoid"
  shows "\<exists>s'. solo t s (Run c (bindP (forward_to T f j (VPromise n)) K) # fs) s' (Run c (K (Inr VVoid)) # fs) \<and>
    follows_at s' q r j T2 n rn T h f \<and> keeps n s s'"
proof -
  have qn: "q \<noteq> n" using q coro_not_open [OF n] by blast
  obtain s1 w rw jw i where s1: "solo t s (Run c (bindP (ThenPlain T n f []) (forward_rest1 j n K)) # fs) s1
      (Run c (forward_rest1 j n K (Inr (VPromise w))) # fs)"
    "coro_with s1 n rn T h [AFunction i (then_awaiter T n f [] rw jw)]" "open_at s1 w rw jw TVoid []" "keeps n s s1"
    "w = length (promises s)"
    using then_coro_run [OF n, of t c f "forward_rest1 j n K" fs] unfolding f by auto
  have n1: "n < length (promises s1)" "p_readers (promises s1 ! n) = []" "IsDone s1 n = Next False"
    using s1(2) coro_IsDone [OF s1(2)] by (simp_all add: coro_at_def)
  obtain s2 where s2: "solo t s1 (Run c (forward_rest1 j n K (Inr (VPromise w))) # fs) s2
      (Run c (bindP (CatchPlain (\<lambda>_ _. False) TVoid w (reject_fn j) []) (forward_rest2 w K)) # fs)"
    "\<forall>q r j T as. open_at s1 q r j T as \<longrightarrow> open_at s2 q r j T as" "\<forall>q. keeps q s1 s2"
    using forward_rest1_run [OF n1(3,1,2)] by blast
  have ct: "catch_type TVoid TVoid = TVoid" "return_or_void_t (fn_type (reject_fn j)) = TVoid"
    by (simp_all add: catch_type_def promise_defs)
  have w2: "open_at s2 w rw jw TVoid []" by (rule s2(2) [rule_format, OF s1(3)])
  obtain s3 u ru ju i2 where s3: "solo t s2 (Run c (bindP (CatchPlain (\<lambda>_ _. False) TVoid w (reject_fn j) []) (forward_rest2 w K)) # fs) s3
      (Run c (forward_rest2 w K (Inr (VPromise u))) # fs)"
    "open_at s3 w rw jw TVoid ([] @ [AFunction i2 (catch_reject w j ru ju)])" "open_at s3 u ru ju TVoid []" "keeps w s2 s3"
    "u = length (promises s2)"
    using create_first_fresh [OF w2] unfolding CatchPlain_eq ct catch_reject_def by blast
  have w3: "w < length (promises s3)" "p_readers (promises s3 ! w) = []" "IsDone s3 w = Next False"
    using s3(2) open_IsDone [OF s3(2)] by (simp_all add: open_at_def)
  obtain s4 where s4: "solo t s3 (Run c (forward_rest2 w K (Inr (VPromise u))) # fs) s4 (Run c (K (Inr VVoid)) # fs)"
    "\<forall>q r j T as. open_at s3 q r j T as \<longrightarrow> open_at s4 q r j T as" "\<forall>q. keeps q s3 s4"
    using forward_rest2_run [OF w3 disjI1 [OF s3(3)], of t c K fs] by blast
  have nw: "n < w" using n s1(5) by (simp add: coro_at_def)
  have qw: "q < w" using q s1(5) by (simp add: open_at_def)
  have wu: "w < u" using w2 s3(5) by (simp add: open_at_def)
  have q1: "open_at s1 q r j T2 []" by (rule keepsD(1) [OF s1(4) qn q])
  have q2: "open_at s2 q r j T2 []" by (rule s2(2) [rule_format, OF q1])
  have q3: "open_at s3 q r j T2 []" using keepsD(1) [OF s3(4) _ q2] qw by simp
  have "open_at s4 q r j T2 []" by (rule s4(2) [rule_format, OF q3])
  moreover have "coro_with s4 n rn T h [AFunction i (then_awaiter T n f [] rw jw)]"
    using keeps_allD(3) [OF s4(3) keepsD(3) [OF s3(4) _ keeps_allD(3) [OF s2(3) s1(2)]]] nw by simp
  moreover have "open_at s4 w rw jw TVoid [AFunction i2 (catch_reject w j ru ju)]" "open_at s4 u ru ju TVoid []"
    using s4(2) [rule_format, OF s3(2)] s4(2) [rule_format, OF s3(3)] by simp_all
  moreover have "distinct [n, w, u, q]" using nw qw wu qn by simp
  ultimately have fol: "follows_at s4 q r j T2 n rn T h f" unfolding follows_at_def by blast
  have "keeps n s s2" using keeps_trans [OF s1(4) s2(3) [rule_format]] .
  then have "keeps n s s3" using keeps_two [of s s w n s2 s3] s1(5) s3(4) nw by simp
  then have "keeps n s s4" using keeps_trans [OF _ s4(3) [rule_format]] by blast
  then show ?thesis
    using solo_trans [OF solo_trans [OF s1(1) s2(1)] solo_trans [OF s3(1) s4(1)]] fol unfolding forward_split by blast
qed

text \<open>Once \<open>n\<close> is settled, its awaiter settles \<open>q\<close>.\<close>

lemma catch_reject_frame:
  assumes w: "closed_at s w TVoid x" and u: "open_at s u ru ju TVoid []"
    and q: "case x of Inr v \<Rightarrow> True | Inl e \<Rightarrow> open_at s q r j T2 []" "q \<noteq> u"
  shows "\<exists>s'. solo t s (Awaiters [AFunction i (catch_reject w j ru ju)] # fs) s' fs \<and>
    (case x of Inr v \<Rightarrow> True | Inl e \<Rightarrow> closed_at s' q T2 (Inl e)) \<and>
    (\<forall>v T x. closed_at s v T x \<longrightarrow> closed_at s' v T x)"
proof -
  obtain s2 s3 where s3: "solo t s (Run Plain (bindP (catch_reject w j ru ju) finish) # Awaiters [] # fs) s3
      (Run Plain (finish (Inr VVoid)) # Awaiters [] # fs)"
    "case x of Inr v \<Rightarrow> True | Inl e \<Rightarrow> closed_at s3 q T2 (Inl e)" "keeps q s s2" "keeps u s2 s3"
    using catch_reject_run [OF w u q] unfolding catch_reject_def by blast
  have "solo t s3 (Run Plain (finish (Inr VVoid)) # Awaiters [] # fs) s3 (Awaiters [] # fs)" by (rule solo_one) simp
  then have "solo t s (Awaiters [AFunction i (catch_reject w j ru ju)] # fs) s3 fs"
    using solo_trans [OF solo_awaiters_cons solo_trans [OF s3(1) [unfolded bindP_finish_right]]] solo_trans solo_awaiters_nil
    by metis
  then show ?thesis using s3(2) keepsD(2) [OF s3(3)] keepsD(2) [OF s3(4)] by blast
qed

lemma settle_follower:
  assumes w: "open_at s w rw jw TVoid [AFunction i (catch_reject w j ru ju)]" and u: "open_at s u ru ju TVoid []"
    and q: "case x of Inr v \<Rightarrow> True | Inl e \<Rightarrow> open_at s q r j T2 []" "distinct [w, u, q]"
  shows "\<exists>s'. solo t s (Run Plain (callP (settle_op rw jw x) (\<lambda>_. Return VVoid)) # fs) s' fs \<and>
    (case x of Inr v \<Rightarrow> True | Inl e \<Rightarrow> closed_at s' q T2 (Inl e)) \<and>
    (\<forall>v T x. closed_at s v T x \<longrightarrow> closed_at s' v T x)"
proof -
  obtain s1 where s1: "solo t s (Run Plain (bindP (callP (settle_op rw jw x) (\<lambda>_. Return VVoid)) finish) # fs) s1
      (Awaiters [AFunction i (catch_reject w j ru ju)] # Run Plain (bindP (Return VVoid) finish) # fs)"
    "closed_at s1 w TVoid (stored TVoid x)" "keeps w s s1"
    using w by (rule settle_bind)
  have u1: "open_at s1 u ru ju TVoid []" using keepsD(1) [OF s1(3) _ u] q(2) by simp
  have q1: "case stored TVoid x of Inr v \<Rightarrow> True | Inl e \<Rightarrow> open_at s1 q r j T2 []"
    using q keepsD(1) [OF s1(3)] by (auto simp: stored_def split: sum.splits)
  have "q \<noteq> u" using q(2) by simp
  then obtain s2 where s2: "solo t s1 (Awaiters [AFunction i (catch_reject w j ru ju)] # Run Plain (Return VVoid) # fs) s2 (Run Plain (Return VVoid) # fs)"
    "case stored TVoid x of Inr v \<Rightarrow> True | Inl e \<Rightarrow> closed_at s2 q T2 (Inl e)"
    "\<forall>v T x. closed_at s1 v T x \<longrightarrow> closed_at s2 v T x"
    using catch_reject_frame [OF s1(2) u1 q1] by blast
  have fin: "solo t s2 (Run Plain (Return VVoid) # fs) s2 fs" by (rule solo_one) simp
  have "case x of Inr v \<Rightarrow> True | Inl e \<Rightarrow> closed_at s2 q T2 (Inl e)"
    using s2(2) by (auto simp: stored_def split: sum.splits)
  then show ?thesis
    using solo_trans [OF s1(1) [unfolded bindP_finish_right] solo_trans [OF s2(1) fin]] s2(3) keepsD(2) [OF s1(3)] by blast
qed

lemma follow_run:
  fixes s :: "'o store"
  assumes n: "closed_at s n T x" and w: "open_at s w rw jw TVoid [AFunction i2 (catch_reject w j ru ju)]"
    and u: "open_at s u ru ju TVoid []" and q: "open_at s q r j T2 []" and d: "distinct [w, u, q]"
    and f: "settles T f r j h"
  shows "\<exists>s'. solo t s (Awaiters [AFunction i (then_awaiter T n f [] rw jw)] # fs) s' fs \<and>
    closed_at s' q T2 (stored T2 (case x of Inl e \<Rightarrow> Inl e | Inr v \<Rightarrow> h v))"
proof -
  let ?fs = "Awaiters [] # fs"
  let ?k = "\<lambda>x. case x of Inl e \<Rightarrow> callP (OReject jw e) (\<lambda>_. Return VVoid)
    | Inr v \<Rightarrow> settle_with rw jw id (fn_body f (pass_value T v []))"
  have start: "solo t s (Awaiters [AFunction i (then_awaiter T n f [] rw jw)] # fs) s (Run Plain (?k x) # ?fs)"
    using solo_trans [OF solo_awaiters_cons Outcome_bind [OF n, of t Plain ?k finish ?fs, unfolded bindP_finish_right]]
    unfolding then_awaiter_def .
  have "\<exists>s'. solo t s (Run Plain (?k x) # ?fs) s' ?fs \<and> closed_at s' q T2 (stored T2 (case x of Inl e \<Rightarrow> Inl e | Inr v \<Rightarrow> h v))"
  proof (cases x)
    case (Inl e)
    then show ?thesis using settle_follower [OF w u, where x = "Inl e" and q = q and r = r and ?T2.0 = T2 and t = t and fs = ?fs] q d by auto
  next
    case (Inr v)
    have v: "is_void T \<longrightarrow> v = VVoid" using n by (auto simp: Inr held_at_def)
    let ?K = "\<lambda>x. bindP (case x of Inr v \<Rightarrow> callP (OResolve rw (id v)) (\<lambda>_. Return VVoid)
       | Inl e \<Rightarrow> callP (OReject jw e) (\<lambda>_. Return VVoid)) finish"
    obtain s1 where s1: "solo t s (Run Plain (bindP (callP (settle_op r j (h v)) (\<lambda>_. Return VVoid)) ?K) # ?fs) s1
        (Run Plain (?K (Inr VVoid)) # ?fs)" "closed_at s1 q T2 (stored T2 (h v))" "keeps q s s1"
      using settle_fn_run [OF q] by blast
    have w1: "open_at s1 w rw jw TVoid [AFunction i2 (catch_reject w j ru ju)]" "open_at s1 u ru ju TVoid []"
      using keepsD(1) [OF s1(3) _ w] keepsD(1) [OF s1(3) _ u] d by auto
    obtain s2 where s2: "solo t s1 (Run Plain (callP (settle_op rw jw (Inr VVoid)) (\<lambda>_. Return VVoid)) # ?fs) s2 ?fs"
      "\<forall>v T x. closed_at s1 v T x \<longrightarrow> closed_at s2 v T x"
      using settle_follower [OF w1, where x = "Inr VVoid" and q = q and t = t and fs = ?fs] d by auto
    have eq: "?K (Inr VVoid) = (callP (settle_op rw jw (Inr VVoid)) (\<lambda>_. Return VVoid) :: 'o prog)" by simp
    have "?k x = (bindP (callP (settle_op r j (h v)) (\<lambda>_. Return VVoid)) ?K :: 'o prog)"
      by (simp add: Inr settle_with_def settles_body [OF f v])
    then show ?thesis
      using solo_trans [OF s1(1) [unfolded eq] s2(1)] s2(2) s1(2) by (simp only: Inr sum.case) blast
  qed
  then show ?thesis using solo_trans [OF start solo_trans [OF _ solo_awaiters_nil]] by blast
qed

text \<open>Settling the promise that the coroutine of \<open>n\<close> waits for settles \<open>q\<close>.\<close>

lemma follow_end:
  fixes s :: "'o store"
  assumes fol: "follows_at s q r j T2 n rn T (Suspended m k) f" and m: "open_at s m rm jm Tm [ACoroutine n]"
    and f: "settles T f r j h" and k: "k (stored Tm y) = finish z"
  shows "\<exists>s'. solo t s (Run c (bindP (callP (settle_op rm jm y) (\<lambda>_. Return VVoid)) K) # fs) s' (Run c (K (Inr VVoid)) # fs) \<and>
    closed_at s' q T2 (stored T2 (case stored T z of Inl e \<Rightarrow> Inl e | Inr v \<Rightarrow> h v))"
proof -
  obtain i w rw jw i2 u ru ju where fl: "coro_with s n rn T (Suspended m k) [AFunction i (then_awaiter T n f [] rw jw)]"
      "open_at s w rw jw TVoid [AFunction i2 (catch_reject w j ru ju)]" "open_at s u ru ju TVoid []" "open_at s q r j T2 []"
    and d: "distinct [n, w, u, q]"
    using fol unfolding follows_at_def by blast
  let ?as = "[AFunction i (then_awaiter T n f [] rw jw)]"
  have "p_awaiters (promises s ! m) = [ACoroutine n]" using m by (simp add: open_at_def)
  then have ne: "n \<noteq> m" "w \<noteq> m" "u \<noteq> m" "q \<noteq> m"
    using fl by (auto simp: open_at_def coro_at_def)
  let ?fs = "Run c (K (Inr VVoid)) # fs"
  obtain s1 where s1: "solo t s (Run c (bindP (callP (settle_op rm jm y) (\<lambda>_. Return VVoid)) K) # fs) s1
      (Awaiters [ACoroutine n] # Run c (bindP (Return VVoid) K) # fs)"
    "closed_at s1 m Tm (stored Tm y)" "keeps m s s1"
    using m by (rule settle_bind)
  have f1: "coro_with s1 n rn T (Suspended m k) ?as" "open_at s1 w rw jw TVoid [AFunction i2 (catch_reject w j ru ju)]"
    "open_at s1 u ru ju TVoid []" "open_at s1 q r j T2 []"
    using keepsD(3) [OF s1(3) ne(1) fl(1)] keepsD(1) [OF s1(3) ne(2) fl(2)] keepsD(1) [OF s1(3) ne(3) fl(3)]
      keepsD(1) [OF s1(3) ne(4) fl(4)] by simp_all
  have aw: "solo t s1 (Awaiters [ACoroutine n] # ?fs) s1 (Resume n # Awaiters [] # ?fs)" by (rule solo_one) simp
  have "t \<notin> set []" by simp
  with f1(1) s1(2) obtain s2 where s2: "solo t s1 (Resume n # Awaiters [] # ?fs) s2 (Run (Coroutine n) (k (stored Tm y)) # Awaiters [] # ?fs)"
    "coro_with s2 n rn T Running ?as" "keeps n s1 s2"
    by (rule Resume_rule)
  obtain s3 where s3: "solo t s2 (Run (Coroutine n) (finish z) # Awaiters [] # ?fs) s3 (Awaiters ?as # Awaiters [] # ?fs)"
    "closed_at s3 n T (stored T z)" "keeps n s2 s3"
    using coroutine_end_awaiters [OF s2(2)] by blast
  have kn: "keeps n s1 s3" using keeps_trans [OF s2(3) s3(3)] .
  have f3: "open_at s3 w rw jw TVoid [AFunction i2 (catch_reject w j ru ju)]" "open_at s3 u ru ju TVoid []" "open_at s3 q r j T2 []"
    using keepsD(1) [OF kn _ f1(2)] keepsD(1) [OF kn _ f1(3)] keepsD(1) [OF kn _ f1(4)] d by auto
  have d': "distinct [w, u, q]" using d by simp
  obtain s4 where s4: "solo t s3 (Awaiters ?as # Awaiters [] # ?fs) s4 (Awaiters [] # ?fs)"
    "closed_at s4 q T2 (stored T2 (case stored T z of Inl e \<Rightarrow> Inl e | Inr v \<Rightarrow> h v))"
    using follow_run [OF s3(2) f3 d' f] by blast
  have "solo t s (Run c (bindP (callP (settle_op rm jm y) (\<lambda>_. Return VVoid)) K) # fs) s1 (Awaiters [ACoroutine n] # ?fs)"
    using s1(1) by simp
  from solo_trans [OF solo_trans [OF this aw] solo_trans [OF s2(1) [unfolded k] solo_trans [OF s3(1) solo_trans [OF s4(1) solo_awaiters_nil]]]]
  show ?thesis using s4(2) by blast
qed

subsection \<open>A promise function that waits for another promise\<close>

lemma coroutine_parks:
  assumes b: "b vs = CoAwait m k" and m: "open_at s m rm jm Tm ms"
  shows "\<exists>s' n rn. solo t s (Run c (bindP (MakePromise (Fn (coroutine_type T as) b) vs) K) # fs) s'
      (Run c (K (Inr (VPromise n))) # fs) \<and>
    coro_at s' n rn T (Suspended m k) \<and> open_at s' m rm jm Tm (ms @ [ACoroutine n]) \<and>
    (\<forall>u r j T as. u \<noteq> m \<longrightarrow> open_at s u r j T as \<longrightarrow> open_at s' u r j T as) \<and>
    (\<forall>u T x rs. held_at s u T x rs \<longrightarrow> held_at s' u T x rs)"
proof -
  let ?f = "\<lambda>h. with_handles h (\<lambda>p r j. Return (VPromise p))"
  obtain s1 n rn j where s1: "solo t s (Run c (bindP (callP (OStart T False (\<lambda>r j. b vs)) ?f) K) # fs) s1
       (Run (Coroutine n) (b vs) # Run c (bindP (?f (VTuple [VPromise n, VResolve rn, VReject j])) K) # fs)"
    "running_at s1 n rn T" "\<forall>q. keeps q s s1" "n = length (promises s)"
    by (rule Start_rule)
  have "?f (VTuple [VPromise n, VResolve rn, VReject j]) = Return (VPromise n)" by simp
  then have run: "solo t s (Run c (bindP (MakePromise (Fn (coroutine_type T as) b) vs) K) # fs) s1
       (Run (Coroutine n) (CoAwait m k) # Run c (K (Inr (VPromise n))) # fs)"
    using s1(1) unfolding MakePromise_coroutine_fn b by simp
  have m1: "open_at s1 m rm jm Tm ms" using keeps_allD(1) [OF s1(3) m] .
  obtain s2 where s2: "solo t s1 (Run (Coroutine n) (CoAwait m k) # Run c (K (Inr (VPromise n))) # fs) s2 (Run c (K (Inr (VPromise n))) # fs)"
    "coro_at s2 n rn T (Suspended m k)" "open_at s2 m rm jm Tm (ms @ [ACoroutine n])" "objects s2 = objects s1"
    "\<forall>u r j T as. u \<noteq> m \<longrightarrow> open_at s1 u r j T as \<longrightarrow> open_at s2 u r j T as"
    "\<forall>u T x rs. held_at s1 u T x rs \<longrightarrow> held_at s2 u T x rs"
    using s1(2) m1 by (rule Suspend_rule)
  have "\<forall>u r j T as. u \<noteq> m \<longrightarrow> open_at s u r j T as \<longrightarrow> open_at s2 u r j T as"
    using s2(5) keeps_allD(1) [OF s1(3)] by metis
  moreover have "\<forall>u T x rs. held_at s u T x rs \<longrightarrow> held_at s2 u T x rs"
    using s2(6) keeps_allD(2) [OF s1(3)] by metis
  ultimately show ?thesis using solo_trans [OF run s2(1)] s2(2,3) by (intro exI [of _ s2] exI [of _ n] exI [of _ rn] conjI)
qed

text \<open>The callback: it awaits the promise \<open>m\<close> and computes its outcome from it.\<close>

definition waiting_body :: "pid \<Rightarrow> (val list \<Rightarrow> outcome \<Rightarrow> outcome) \<Rightarrow> val list \<Rightarrow> 'o prog" where
  "waiting_body m g vs = CoAwait m (\<lambda>x. finish (g vs x))"

lemma then_awaiter_parks:
  assumes p: "closed_at s p T (Inr v)" and q: "open_at s q r j T2 []" and m: "open_at s m rm jm Tm []" and qm: "q \<noteq> m"
  shows "\<exists>s' n rn. solo t s (Run Plain (thenP (then_start T T2 p (Fn (coroutine_type T2 as) (waiting_body m g)) args)
      (forward T2 id r j)) # fs) s' fs \<and>
    follows_at s' q r j T2 n rn T2 (Suspended m (\<lambda>x. finish (g (pass_value T v args) x))) (resolve_fn T2 id r) \<and>
    open_at s' m rm jm Tm [ACoroutine n]"
proof -
  let ?f = "Fn (coroutine_type T2 as) (waiting_body m g)"
  define vs where "vs = pass_value T v args"
  let ?K = "\<lambda>x. bindP (case x of Inl e \<Rightarrow> Throw e | Inr v \<Rightarrow> forward T2 id r j v) finish"
  let ?s = "then_start T T2 p ?f args"
  have k: "waiting_body m g vs = CoAwait m (\<lambda>x. finish (g vs x))" by (simp add: waiting_body_def)
  have start: "solo t s (Run Plain (bindP ?s ?K) # fs) s (Run Plain (bindP (MakePromise ?f vs) ?K) # fs)"
    using Outcome_bind [OF p, of t Plain "\<lambda>x. case x of Inl e \<Rightarrow> Promise_Reject T2 e | Inr v \<Rightarrow> MakePromise ?f (pass_value T v args)" ?K fs]
    by (simp only: sum.case vs_def)
  obtain s1 n rn where s1: "solo t s (Run Plain (bindP (MakePromise ?f vs) ?K) # fs) s1 (Run Plain (?K (Inr (VPromise n))) # fs)"
    "coro_at s1 n rn T2 (Suspended m (\<lambda>x. finish (g vs x)))" "open_at s1 m rm jm Tm ([] @ [ACoroutine n])"
    "\<forall>u r j T as. u \<noteq> m \<longrightarrow> open_at s u r j T as \<longrightarrow> open_at s1 u r j T as"
    using coroutine_parks [where b = "waiting_body m g" and vs = vs, OF k m, of t Plain T2 as ?K fs] by blast
  have q1: "open_at s1 q r j T2 []" using s1(4) [rule_format, OF qm q] .
  have T: "return_or_void_t (fn_type (resolve_fn T2 id r)) = TVoid" by (simp add: promise_defs)
  obtain s2 where s2: "solo t s1 (Run Plain (bindP (forward_to T2 (resolve_fn T2 id r) j (VPromise n)) finish) # fs) s2
      (Run Plain (finish (Inr VVoid)) # fs)"
    "follows_at s2 q r j T2 n rn T2 (Suspended m (\<lambda>x. finish (g vs x))) (resolve_fn T2 id r)" "keeps n s1 s2"
    using forward_parks [OF s1(2) q1 T] by blast
  have m1: "open_at s1 m rm jm Tm [ACoroutine n]" using s1(3) by simp
  have "m \<noteq> n" using coro_not_open [OF s1(2)] m1 by blast
  then have m2: "open_at s2 m rm jm Tm [ACoroutine n]" using keepsD(1) [OF s2(3) _ m1] by simp
  have fin: "solo t s2 (Run Plain (finish (Inr VVoid)) # fs) s2 fs" by (rule solo_one) simp
  have "solo t s1 (Run Plain (?K (Inr (VPromise n))) # fs) s2 (Run Plain (finish (Inr VVoid)) # fs)"
    using s2(1) by (simp add: forward_eq)
  from solo_trans [OF solo_trans [OF start s1(1)] solo_trans [OF this fin]]
  have "solo t s (Run Plain (thenP ?s (forward T2 id r j)) # fs) s2 fs"
    unfolding thenP_def bindP_assoc [symmetric] bindP_finish_right .
  then show ?thesis using s2(2) m2 unfolding vs_def by blast
qed

lemma follows_pending:
  fixes s :: "'o store"
  assumes p: "open_at s p r j T []" and m: "open_at s m rm jm Tm []" and pm: "p \<noteq> m"
  shows "\<exists>s1 q rq jq n rn. solo t s (Run c (bindP (ThenPromise T p (Fn (coroutine_type T2 as) (waiting_body m g)) args)
        (\<lambda>w. bindP (callP (settle_op r j (Inr v)) (\<lambda>_. finish w)) K)) # fs) s1
      (Run c (K (Inr (VPromise q))) # fs) \<and>
    follows_at s1 q rq jq T2 n rn T2 (Suspended m (\<lambda>x. finish (g (pass_value T v args) x))) (resolve_fn T2 id rq) \<and>
    open_at s1 m rm jm Tm [ACoroutine n]"
proof -
  let ?f = "Fn (coroutine_type T2 as) (waiting_body m g) :: 'o fn"
  let ?K = "\<lambda>w. bindP (callP (settle_op r j (Inr v)) (\<lambda>_. finish w)) K"
  let ?g = "\<lambda>r j. thenP (then_start T T2 p ?f args) (forward T2 id r j)"
  have T2: "promise_value ?f = T2" by (simp add: promise_value_def promise_defs)
  obtain s1 q rq jq i where s1: "solo t s (Run c (bindP (ThenPromise T p ?f args) ?K) # fs) s1 (Run c (?K (Inr (VPromise q))) # fs)"
    "open_at s1 p r j T [AFunction i (?g rq jq)]" "open_at s1 q rq jq T2 []" "keeps p s s1" "q \<noteq> p"
    "q = length (promises s)"
    using promise_then_pending [OF p, of t c ?f args ?K fs] unfolding T2 by fastforce
  have m1: "open_at s1 m rm jm Tm []" using keepsD(1) [OF s1(4) _ m] pm by simp
  let ?fs = "Run c (K (Inr (VPromise q))) # fs"
  obtain s2 where s2: "solo t s1 (Run c (?K (Inr (VPromise q))) # fs) s2
      (Awaiters [AFunction i (?g rq jq)] # Run c (bindP (finish (Inr (VPromise q))) K) # fs)"
    "closed_at s2 p T (stored T (Inr v))" "keeps p s1 s2"
    using s1(2) by (rule settle_bind)
  have q2: "open_at s2 q rq jq T2 []" "open_at s2 m rm jm Tm []"
    using keepsD(1) [OF s2(3) s1(5) s1(3)] keepsD(1) [OF s2(3) _ m1] pm by auto
  obtain v' where v': "stored T (Inr v) = Inr v'" "pass_value T v' args = pass_value T v args"
    by (auto simp: stored_def pass_value_def)
  have qm: "q \<noteq> m" using s1(6) m by (auto simp: open_at_def)
  obtain s3 n rn where s3: "solo t s2 (Run Plain (?g rq jq) # Awaiters [] # ?fs) s3 (Awaiters [] # ?fs)"
    "follows_at s3 q rq jq T2 n rn T2 (Suspended m (\<lambda>x. finish (g (pass_value T v' args) x))) (resolve_fn T2 id rq)"
    "open_at s3 m rm jm Tm [ACoroutine n]"
    using then_awaiter_parks [OF s2(2) [unfolded v'(1)] q2 qm] by blast
  have "solo t s1 (Run c (?K (Inr (VPromise q))) # fs) s2 (Awaiters [AFunction i (?g rq jq)] # ?fs)" using s2(1) by simp
  from solo_trans [OF solo_trans [OF s1(1) this] solo_trans [OF solo_awaiters_cons solo_trans [OF s3(1) solo_awaiters_nil]]]
  show ?thesis using s3(2,3) unfolding v'(2) by blast
qed

text \<open>
  C24. A promise function that waits. The callback of Then is a coroutine that awaits another pending
  promise \<open>m\<close>. When the source is fulfilled the promise of Then stays pending: it follows \<open>m\<close>. Any
  thread that settles \<open>m\<close> later resumes the callback's coroutine, and when that call returns the
  promise of Then has the outcome of the callback.
\<close>

theorem Then_follows_pending_promise:
  fixes s :: "'o store"
  assumes "open_at s p r j T []" "open_at s m rm jm Tm []" "p \<noteq> m" "\<forall>a \<in> set as. \<not> IS_RESOLVER a"
  shows "\<exists>s1 q. solo t s (Run c (bindP (Then T p (Fn (TFunction (TIPromise T2 False) as) (waiting_body m g)) args)
        (\<lambda>w. bindP (callP (settle_op r j (Inr v)) (\<lambda>_. finish w)) K)) # fs) s1
      (Run c (K (Inr (VPromise q))) # fs) \<and> outcome_of s1 q = None \<and>
    (\<forall>t' y. \<exists>s2. solo t' s1 [Run Plain (callP (settle_op rm jm y) (\<lambda>_. Return VVoid))] s2 [Run Plain (Return VVoid)] \<and>
       outcome_of s2 q = Some (stored T2 (g (pass_value T v args) (stored Tm y))))"
proof -
  have ty: "coroutine_type T2 as = TFunction (TIPromise T2 False) as" using coroutine_fn_plain(2) [OF assms(4)] .
  let ?f = "Fn (TFunction (TIPromise T2 False) as) (waiting_body m g) :: 'o fn"
  have eq: "Then T p ?f args = ThenPromise T p ?f args" using promise_function_coroutine [of T2 as] unfolding ty by (simp add: Then_def)
  obtain s1 q rq jq n rn where s1: "solo t s (Run c (bindP (ThenPromise T p ?f args)
        (\<lambda>w. bindP (callP (settle_op r j (Inr v)) (\<lambda>_. finish w)) K)) # fs) s1 (Run c (K (Inr (VPromise q))) # fs)"
    and fol: "follows_at s1 q rq jq T2 n rn T2 (Suspended m (\<lambda>x. finish (g (pass_value T v args) x))) (resolve_fn T2 id rq)"
    and m: "open_at s1 m rm jm Tm [ACoroutine n]"
    using follows_pending [OF assms(1-3), of t c T2 as g args v K fs] unfolding ty by blast
  have "outcome_of s1 q = None" using fol open_outcome unfolding follows_at_def by blast
  moreover have "\<exists>s2. solo t' s1 [Run Plain (callP (settle_op rm jm y) (\<lambda>_. Return VVoid))] s2 [Run Plain (Return VVoid)] \<and>
       outcome_of s2 q = Some (stored T2 (g (pass_value T v args) (stored Tm y)))" for t' y
  proof -
    let ?z = "g (pass_value T v args) (stored Tm y)"
    obtain s2 where s2: "solo t' s1 [Run Plain (bindP (callP (settle_op rm jm y) (\<lambda>_. Return VVoid)) finish)] s2 [Run Plain (finish (Inr VVoid))]"
      "closed_at s2 q T2 (stored T2 (case stored T2 ?z of Inl e \<Rightarrow> Inl e | Inr v \<Rightarrow> Inr (id v)))"
      using follow_end [OF fol m resolve_fn_settles, of y ?z t' Plain finish "[]"] by blast
    have "(case stored T2 ?z of Inl e \<Rightarrow> Inl e | Inr v \<Rightarrow> Inr (id v)) = stored T2 ?z" by (simp split: sum.split)
    then show ?thesis using s2(1) closed_outcome [OF s2(2)] by (auto simp: bindP_finish_right)
  qed
  ultimately show ?thesis using s1 unfolding eq by blast
qed

definition add_to :: "val list \<Rightarrow> outcome \<Rightarrow> outcome" where
  "add_to vs x = (case (vs, x) of (VInt i # _, Inr (VInt j)) \<Rightarrow> Inr (VInt (i + j)) | (_, Inl e) \<Rightarrow> Inl e
     | _ \<Rightarrow> Inl (Exc ''std::logic_error'' ''''))"

theorem Then_follows_pending_promise_witness:
  "\<exists>s1 q s2. solo 0 two_ints [Run Plain (bindP (Then TInt 0 (Fn (TFunction (TIPromise TInt False) [TInt]) (waiting_body 1 add_to)) [])
        (\<lambda>w. bindP (callP (settle_op 0 0 (Inr (VInt 4))) (\<lambda>_. finish w)) finish))] s1 [Run Plain (Return (VPromise q))] \<and>
     outcome_of s1 q = None \<and>
     solo 1 s1 [Run Plain (callP (settle_op 1 1 (Inr (VInt 38))) (\<lambda>_. Return VVoid))] s2 [Run Plain (Return VVoid)] \<and>
     outcome_of s2 q = Some (Inr (VInt 42))"
proof -
  have o: "open_at two_ints 0 0 0 TInt []" "open_at two_ints 1 1 1 TInt []"
    by (simp_all add: two_ints_def fresh_store_def Promise_Create_eq empty_store_def open_at_def)
  have r: "\<forall>a \<in> set [TInt]. \<not> IS_RESOLVER a" by code_simp
  have v: "stored TInt (add_to (pass_value TInt (VInt 4) []) (stored TInt (Inr (VInt 38)))) = Inr (VInt 42)" by code_simp
  obtain s1 q where s1: "solo 0 two_ints [Run Plain (bindP (Then TInt 0 (Fn (TFunction (TIPromise TInt False) [TInt]) (waiting_body 1 add_to)) [])
        (\<lambda>w. bindP (callP (settle_op 0 0 (Inr (VInt 4))) (\<lambda>_. finish w)) finish))] s1 [Run Plain (finish (Inr (VPromise q)))]"
    "outcome_of s1 q = None"
    "\<forall>t' y. \<exists>s2. solo t' s1 [Run Plain (callP (settle_op 1 1 y) (\<lambda>_. Return VVoid))] s2 [Run Plain (Return VVoid)] \<and>
       outcome_of s2 q = Some (stored TInt (add_to (pass_value TInt (VInt 4) []) (stored TInt y)))"
    using Then_follows_pending_promise [OF o zero_neq_one r, of 0 Plain TInt add_to "[]" "VInt 4" finish "[]"] by blast
  from s1(3) [rule_format, of 1 "Inr (VInt 38)"] s1(1,2) show ?thesis unfolding v finish.simps by blast
qed

end
