(* ===== verification/Signals.thy ===== *)
theory Signals
  imports Locks
begin

text \<open>
  What \<^verbatim>\<open>CVPromise\<close> (src/CVPromise.cpp) and \<^verbatim>\<open>StatePromise\<close> (src/StatePromise.cpp) promise
  their waiters. Notify, Reject and the destructor of a \<^verbatim>\<open>CVPromise\<close> settle the promise that
  Wait returned, with their own outcomes; the locale \<open>signalling\<close> says what Notify and Reject share.
\<close>

subsection \<open>Waking one coroutine\<close>

lemma wake_rule:
  assumes "coro_at s q rq T (Suspended p k)" "closed_at s p T' x" "k x = finish y"
  obtains s' where "solo t s (Awaiters (ACoroutine q # as) # fs) s' (Awaiters as # fs)"
    "closed_at s' q T (stored T y)" "keeps q s s'"
proof -
  have "solo t s (Awaiters (ACoroutine q # as) # fs) s (Resume q # Awaiters as # fs)" by (rule solo_one) simp
  also obtain s1 where s1: "solo t s (Resume q # Awaiters as # fs) s1 (Run (Coroutine q) (k x) # Awaiters as # fs)"
    "running_at s1 q rq T" "keeps q s s1"
    using assms(1,2) by (rule Resume_rule) simp
  note this(1) [unfolded assms(3)]
  also obtain s2 where s2: "solo t s1 (Run (Coroutine q) (finish y) # Awaiters as # fs) s2 (Awaiters as # fs)"
    "closed_at s2 q T (stored T y)" "keeps q s1 s2"
    using coroutine_end [OF s1(2)] by blast
  note this(1)
  finally show thesis using s2(2) keeps_trans [OF s1(3) s2(3)] by (rule that)
qed

lemma thenP_callP: "thenP (callP a Return) f = callP a f"
  unfolding thenP_def callP_def by (simp, intro ext) (simp split: sum.split)

subsection \<open>Condition variables\<close>

definition cv_at :: "objs store \<Rightarrow> nat \<Rightarrow> pid \<Rightarrow> rid \<Rightarrow> jid \<Rightarrow> objs awaiter list \<Rightarrow> bool" where
  "cv_at s c p r j as \<longleftrightarrow>
     c < length (cvs (objects s)) \<and> cvs (objects s) ! c = new_channel p r j \<and> open_at s p r j TVoid as"

definition old_done :: "pid \<Rightarrow> objs prog" where
  "old_done p = assert_done p ''old_promise.Done()'' (Return VVoid)"

lemma old_done_run:
  assumes "closed_at s p TVoid x"
  shows "solo t s (Run c (bindP (old_done p) K) # fs) s (Run c (K (Inr VVoid)) # fs)"
proof -
  have p: "p < length (promises s)" "p_readers (promises s ! p) = []" "IsDone s p = Next True"
    using assms closed_IsDone [OF assms] by (simp_all add: held_at_def)
  let ?f = "\<lambda>b. assertP (b = VBool True) ''old_promise.Done()'' (Return VVoid)"
  have "old_done p = callP (OIsDone p) ?f"
    by (simp add: old_done_def assert_done_def WPromise_Done_def thenP_callP)
  then have "solo t s (Run c (bindP (old_done p) K) # fs) s (Run c (bindP (?f (VBool True)) K) # fs)"
    using IsDone_bind [OF p, of t c ?f K fs] by simp
  also have "solo t s (Run c (bindP (?f (VBool True)) K) # fs) s (Run c (bindP (Return VVoid) K) # fs)"
    by (rule assert_bind) simp
  finally show ?thesis by simp
qed

locale signalling =
  fixes notify :: "nat \<Rightarrow> objs prog" and x :: outcome
  assumes notify_runs: "cv_at s c p r j as \<Longrightarrow>
    \<exists>s' p' r' j'. solo t s (Run a (bindP (notify c) K) # fs) s' (Awaiters as # Run a (bindP (old_done p) K) # fs) \<and>
      closed_at s' p TVoid x \<and> cv_at s' c p' r' j' [] \<and> p' \<noteq> p \<and> moves p s s' \<and>
      objects s' = (objects s)\<lparr>cvs := cvs (objects s')\<rparr>"
begin

lemma notify_alone:
  assumes "cv_at s c p r j []"
  shows "\<exists>s' p' r' j'. solo t s (Run a (bindP (notify c) K) # fs) s' (Run a (K (Inr VVoid)) # fs) \<and>
    closed_at s' p TVoid x \<and> cv_at s' c p' r' j' [] \<and> p' \<noteq> p"
proof -
  obtain s' p' r' j' where s': "solo t s (Run a (bindP (notify c) K) # fs) s' (Awaiters [] # Run a (bindP (old_done p) K) # fs)"
    "closed_at s' p TVoid x" "cv_at s' c p' r' j' []" "p' \<noteq> p"
    using notify_runs [OF assms] by blast
  from solo_trans [OF solo_trans [OF s'(1) solo_awaiters_nil] old_done_run [OF s'(2)]] s'(2-) show ?thesis by blast
qed

lemma notify_wakes:
  assumes "cv_at s c p r j [ACoroutine q]" "coro_at s q rq T (Suspended p k)" "k x = finish y"
  shows "\<exists>s' p' r' j'. solo t s (Run a (bindP (notify c) K) # fs) s' (Run a (K (Inr VVoid)) # fs) \<and>
    closed_at s' q T (stored T y) \<and> cv_at s' c p' r' j' [] \<and> p' \<noteq> p"
proof -
  obtain s1 p' r' j' where s1: "solo t s (Run a (bindP (notify c) K) # fs) s1 (Awaiters [ACoroutine q] # Run a (bindP (old_done p) K) # fs)"
    "closed_at s1 p TVoid x" "cv_at s1 c p' r' j' []" "p' \<noteq> p" "moves p s s1"
    using notify_runs [OF assms(1)] by blast
  have qp: "q \<noteq> p" using assms(1,2) by (auto simp: cv_at_def open_at_def coro_at_def)
  obtain s2 where s2: "solo t s1 (Awaiters [ACoroutine q] # Run a (bindP (old_done p) K) # fs) s2 (Awaiters [] # Run a (bindP (old_done p) K) # fs)"
    "closed_at s2 q T (stored T y)" "keeps q s1 s2"
    using movesD(3) [OF s1(5) qp assms(2)] s1(2) assms(3) by (rule wake_rule)
  have "p' \<noteq> q"
    using s1(3) movesD(3) [OF s1(5) qp assms(2)] by (auto simp: cv_at_def open_at_def coro_at_def)
  then have "cv_at s2 c p' r' j' []"
    using s1(3) keepsD(1) [OF s2(3)] keepsD(4) [OF s2(3)] by (auto simp: cv_at_def)
  moreover note solo_trans [OF solo_trans [OF solo_trans [OF s1(1) s2(1)] solo_awaiters_nil]
      old_done_run [OF keepsD(2) [OF s2(3) s1(2)]]]
  ultimately show ?thesis using s2(2) s1(4) by blast
qed

end

text \<open>
  The common part of Notify and Reject: \<open>m\<close> is what is left once the old handles are known.
\<close>

lemma signal_run:
  assumes cv: "cv_at s c p r j as"
    and f: "g (VTuple [VSome (VResolve r), VSome (VReject j), VPromise p]) = callP (settle_op r j y) (\<lambda>_. old_done p)"
  shows "\<exists>s' p' r' j'. solo t s (Run a (bindP (callP (OCreate TVoid) (\<lambda>h. with_handles h (\<lambda>p r j.
          callP (OAtomic (CVPromise_exchange c (new_channel p r j))) g))) K) # fs) s'
        (Awaiters as # Run a (bindP (old_done p) K) # fs) \<and>
      closed_at s' p TVoid (stored TVoid y) \<and> cv_at s' c p' r' j' [] \<and> p' \<noteq> p \<and> moves p s s' \<and>
      objects s' = (objects s)\<lparr>cvs := cvs (objects s')\<rparr>"
proof -
  let ?h = "\<lambda>p r j. callP (OAtomic (CVPromise_exchange c (new_channel p r j))) g"
  note C = cv [unfolded cv_at_def]
  obtain s1 p' r' j' where s1: "solo t s (Run a (bindP (callP (OCreate TVoid) (\<lambda>h. with_handles h ?h)) K) # fs) s1
      (Run a (bindP (?h p' r' j') K) # fs)"
    "open_at s1 p' r' j' TVoid []" "\<forall>p. keeps p s s1" "p' = length (promises s)"
    by (rule Create_bind)
  have o: "objects s1 = objects s" and p1: "open_at s1 p r j TVoid as" using keeps_allD [OF s1(3)] C by auto
  have pp: "p' \<noteq> p" using C s1(4) by (auto simp: open_at_def)
  let ?b = "fst (CVPromise_exchange c (new_channel p' r' j') (objects s1))"
  let ?s2 = "s1\<lparr>objects := ?b\<rparr>"
  let ?m = "callP (settle_op r j y) (\<lambda>_. old_done p)"
  have "snd (CVPromise_exchange c (new_channel p' r' j') (objects s1)) = VTuple [VSome (VResolve r), VSome (VReject j), VPromise p]"
    using C o by (simp add: CVPromise_exchange_def Let_def new_channel_def opt_val_def)
  then have st: "solo t s1 (Run a (bindP (?h p' r' j') K) # fs) ?s2 (Run a (bindP ?m K) # fs)"
    using Atomic_bind [of t s1 a "CVPromise_exchange c (new_channel p' r' j')" g K fs] f by simp
  have "open_at ?s2 p r j TVoid as" using p1 by simp
  then obtain s3 where s3: "solo t ?s2 (Run a (bindP ?m K) # fs) s3 (Awaiters as # Run a (bindP (old_done p) K) # fs)"
    "closed_at s3 p TVoid (stored TVoid y)" "keeps p ?s2 s3"
    by (rule settle_bind)
  have "cv_at s3 c p' r' j' []"
    using C o keepsD(4) [OF s3(3)] keepsD(1) [OF s3(3) pp, of r' j' TVoid "[]"] s1(2)
    by (simp add: cv_at_def CVPromise_exchange_def Let_def)
  moreover have "moves p s s3"
    using keeps_trans [OF s1(3) [rule_format, of p], of "s3\<lparr>objects := objects s\<rparr>"] movesI [OF s3(3)] o
    by (simp add: moves_def)
  moreover have "objects s3 = (objects s)\<lparr>cvs := cvs (objects s3)\<rparr>"
    using o keepsD(4) [OF s3(3)] by (simp add: CVPromise_exchange_def Let_def)
  ultimately show ?thesis using solo_trans [OF solo_trans [OF s1(1) st] s3(1)] s3(2) pp by blast
qed

interpretation cv_notify: signalling CVPromise_Notify "Inr VVoid"
proof
  fix s c p r j as t a K fs
  assume "cv_at s c p r j as"
  from signal_run [OF this, of _ "Inr VVoid" t a K fs]
  show "\<exists>s' p' r' j'. solo t s (Run a (bindP (CVPromise_Notify c) K) # fs) s' (Awaiters as # Run a (bindP (old_done p) K) # fs) \<and>
      closed_at s' p TVoid (Inr VVoid) \<and> cv_at s' c p' r' j' [] \<and> p' \<noteq> p \<and> moves p s s' \<and>
      objects s' = (objects s)\<lparr>cvs := cvs (objects s')\<rparr>"
    by (simp add: CVPromise_Notify_def call_resolve_def old_done_def stored_def)
qed

interpretation cv_reject: signalling "\<lambda>c. CVPromise_Reject c e" "Inl e" for e
proof
  fix s c p r j as t a K fs
  assume "cv_at s c p r j as"
  from signal_run [OF this, of _ "Inl e" t a K fs]
  show "\<exists>s' p' r' j'. solo t s (Run a (bindP (CVPromise_Reject c e) K) # fs) s' (Awaiters as # Run a (bindP (old_done p) K) # fs) \<and>
      closed_at s' p TVoid (Inl e) \<and> cv_at s' c p' r' j' [] \<and> p' \<noteq> p \<and> moves p s s' \<and>
      objects s' = (objects s)\<lparr>cvs := cvs (objects s')\<rparr>"
    by (simp add: CVPromise_Reject_def call_reject_def old_done_def stored_def)
qed

text \<open>
  Notify. The coroutine that waits on the condition variable runs on with a plain return of its
  co\_await before Notify returns, its promise gets the coroutine's result, the assertion that the
  old promise is done holds, and the next Wait gives a fresh pending promise.
\<close>

theorem Notify_wakes_waiter:
  assumes "cv_at s c p r j [ACoroutine q]" "coro_at s q rq T (Suspended p k)" "k (Inr VVoid) = finish y"
  shows "\<exists>s' p'. solo t s (Run a (bindP (CVPromise_Notify c) K) # fs) s' (Run a (K (Inr VVoid)) # fs) \<and>
    outcome_of s' q = Some (stored T y) \<and>
    ch_promise (cvs (objects s') ! c) = p' \<and> outcome_of s' p' = None \<and> p' \<noteq> p"
proof -
  obtain s' p' r' j' where s': "solo t s (Run a (bindP (CVPromise_Notify c) K) # fs) s' (Run a (K (Inr VVoid)) # fs)"
    "closed_at s' q T (stored T y)" "cv_at s' c p' r' j' []" "p' \<noteq> p"
    using cv_notify.notify_wakes [OF assms] by blast
  have "ch_promise (cvs (objects s') ! c) = p'" "outcome_of s' p' = None"
    using s'(3) open_outcome by (auto simp: cv_at_def new_channel_def)
  with s'(1,4) closed_outcome [OF s'(2)] show ?thesis by blast
qed

lemma destroy_run:
  assumes "cv_at s c p r j as"
  shows "\<exists>s'. solo t s (Run a (bindP (CVPromise_destroy c) K) # fs) s' (Awaiters as # Run a (K (Inr VVoid)) # fs) \<and>
    closed_at s' p TVoid (Inl (End ''CVPromise'')) \<and> keeps p s s'"
proof -
  note C = assms [unfolded cv_at_def]
  let ?m = "callP (settle_op r j (Inl (End ''CVPromise''))) (\<lambda>_. Return VVoid)"
  obtain s' where s': "solo t s (Run a (bindP ?m K) # fs) s' (Awaiters as # Run a (bindP (Return VVoid) K) # fs)"
    "closed_at s' p TVoid (stored TVoid (Inl (End ''CVPromise'')))" "keeps p s s'"
    using settle_bind C by blast
  have "solo t s (Run a (bindP (CVPromise_destroy c) K) # fs) (s\<lparr>objects := objects s\<rparr>) (Run a (bindP ?m K) # fs)"
    using Atomic_bind [of t s a "\<lambda>b. (b, opt_val VReject (ch_reject (cvs b ! c)))"
        "\<lambda>v. call_reject v ''reject_'' (End ''CVPromise'') (Return VVoid)" K fs] C
    by (simp add: CVPromise_destroy_def new_channel_def opt_val_def call_reject_def)
  with s' show ?thesis using solo_trans by (fastforce simp: stored_def)
qed

text \<open>
  C30. Reject and the destructor. A coroutine that waits on the condition variable without handling
  exceptions ends with the exception given to Reject, or with End when the object is destroyed.
\<close>

theorem Reject_and_destroy_reach_waiter:
  assumes "cv_at s c p r j [ACoroutine q]" "coro_at s q rq T (Suspended p k)" "\<forall>e. k (Inl e) = Throw e"
  shows "(\<exists>s'. solo t s (Run a (bindP (CVPromise_Reject c e) K) # fs) s' (Run a (K (Inr VVoid)) # fs) \<and>
      outcome_of s' q = Some (Inl e)) \<and>
    (\<exists>s'. solo t s (Run a (bindP (CVPromise_destroy c) K) # fs) s' (Run a (K (Inr VVoid)) # fs) \<and>
      outcome_of s' q = Some (Inl (End ''CVPromise'')))"
proof
  have "k (Inl e) = finish (Inl e)" using assms(3) by simp
  from cv_reject.notify_wakes [OF assms(1,2) this]
  show "\<exists>s'. solo t s (Run a (bindP (CVPromise_Reject c e) K) # fs) s' (Run a (K (Inr VVoid)) # fs) \<and>
      outcome_of s' q = Some (Inl e)"
    using closed_outcome by (fastforce simp: stored_def)
next
  let ?E = "End ''CVPromise''"
  obtain s1 where s1: "solo t s (Run a (bindP (CVPromise_destroy c) K) # fs) s1 (Awaiters [ACoroutine q] # Run a (K (Inr VVoid)) # fs)"
    "closed_at s1 p TVoid (Inl ?E)" "keeps p s s1"
    using destroy_run [OF assms(1)] by blast
  have "q \<noteq> p" using assms(1,2) by (auto simp: cv_at_def open_at_def coro_at_def)
  then have q: "coro_at s1 q rq T (Suspended p k)" using keepsD(3) [OF s1(3)] assms(2) by blast
  have "k (Inl ?E) = finish (Inl ?E)" using assms(3) by simp
  with q s1(2) obtain s2 where s2: "solo t s1 (Awaiters [ACoroutine q] # Run a (K (Inr VVoid)) # fs) s2 (Awaiters [] # Run a (K (Inr VVoid)) # fs)"
    "closed_at s2 q T (stored T (Inl ?E))" "keeps q s1 s2"
    by (rule wake_rule)
  from solo_trans [OF solo_trans [OF s1(1) s2(1)] solo_awaiters_nil] closed_outcome [OF s2(2)]
  show "\<exists>s'. solo t s (Run a (bindP (CVPromise_destroy c) K) # fs) s' (Run a (K (Inr VVoid)) # fs) \<and>
      outcome_of s' q = Some (Inl ?E)"
    by (auto simp: stored_def)
qed

subsection \<open>A waiting coroutine\<close>

text \<open>A condition variable and a coroutine suspended in \<^verbatim>\<open>co_await cv.Wait(); co_return 7;\<close>.\<close>

definition waiter_rest :: "outcome \<Rightarrow> objs prog" where
  "waiter_rest x = (case x of Inl e \<Rightarrow> Throw e | Inr _ \<Rightarrow> Return (VInt 7))"

definition waiting_store :: "objs store" where
  "waiting_store = \<lparr>
     promises = [(new_promise TVoid True NoHandle)\<lparr>p_resolver := Some 0, p_awaiters := [ACoroutine 1]\<rparr>,
                 (new_promise TInt False (Suspended 0 waiter_rest))\<lparr>p_resolver := Some 1\<rparr>],
     resolvers = [linked_resolver TVoid 0, linked_resolver TInt 1],
     rejects = [\<lparr>j_resolver = 0, j_rejected = False\<rparr>],
     objects = no_objs\<lparr>cvs := [new_channel 0 0 0]\<rparr>\<rparr>"

lemma waiting_store_waits:
  "cv_at waiting_store 0 0 0 0 [ACoroutine 1]" "coro_at waiting_store 1 1 TInt (Suspended 0 waiter_rest)"
  by (simp_all add: cv_at_def open_at_def coro_at_def waiting_store_def new_promise_def linked_resolver_def no_objs_def)

theorem Notify_wakes_waiter_witness:
  "\<exists>s'. solo 0 waiting_store [Run Plain (bindP (CVPromise_Notify 0) finish)] s' [Run Plain (Return VVoid)] \<and>
     outcome_of s' 1 = Some (Inr (VInt 7))"
proof -
  have "waiter_rest (Inr VVoid) = finish (Inr (VInt 7))" by (simp add: waiter_rest_def)
  moreover have "stored TInt (Inr (VInt 7)) = Inr (VInt 7)" by code_simp
  ultimately show ?thesis
    using Notify_wakes_waiter [OF waiting_store_waits, of "Inr (VInt 7)" 0 Plain finish "[]"] by auto
qed

theorem Reject_and_destroy_reach_waiter_witness:
  "\<exists>s'. solo 0 waiting_store [Run Plain (bindP (CVPromise_destroy 0) finish)] s' [Run Plain (Return VVoid)] \<and>
     outcome_of s' 1 = Some (Inl (Exc ''CVPromise::End'' ''Promise ended''))"
proof -
  have "\<forall>e. waiter_rest (Inl e) = Throw e" by (simp add: waiter_rest_def)
  from Reject_and_destroy_reach_waiter [OF waiting_store_waits this, of 0 Plain _ finish "[]"]
  show ?thesis by (auto simp: End_def)
qed

subsection \<open>State promises\<close>

definition state_at :: "objs store \<Rightarrow> nat \<Rightarrow> channel \<Rightarrow> channel \<Rightarrow> bool" where
  "state_at s i a d \<longleftrightarrow> i < length (states (objects s)) \<and> states (objects s) ! i = \<lparr>sp_ready = a, sp_done = d\<rparr>"

text \<open>The state after the constructor: neither ready nor done, and nobody waits.\<close>

definition fresh_state :: "objs store \<Rightarrow> nat \<Rightarrow> bool" where
  "fresh_state s i \<longleftrightarrow> (\<exists>p r j p' r' j'. state_at s i (new_channel p r j) (new_channel p' r' j') \<and>
     open_at s p r j TVoid [] \<and> open_at s p' r' j' TVoid [] \<and> p \<noteq> p')"

lemma state_at_keeps: "objects s' = objects s \<Longrightarrow> state_at s' i a d = state_at s i a d"
  by (simp add: state_at_def)

lemma with_state_bind:
  assumes "state_at s i (new_channel p r j) (new_channel p' r' j')"
    "f (VSome (VResolve r)) p (VSome (VResolve r')) p' = k"
  shows "solo t s (Run c (bindP (with_state i f) K) # fs) s (Run c (bindP k K) # fs)"
  unfolding with_state_def
  by (rule solo_bind_callP0, simp add: ret_def Let_def, simp,
      use assms in \<open>simp add: state_at_def new_channel_def opt_val_def\<close>)

lemma IsResolved_bind:
  assumes "p < length (promises s)" "p_readers (promises s ! p) = []" "IsResolved s p = Next b"
  shows "solo t s (Run c (bindP (callP (OIsResolved p) f) K) # fs) s (Run c (bindP (f (VBool b)) K) # fs)"
  using solo_bind_callP [of t "OIsResolved p" s s "[]" "VBool b" c f K fs] assms
  by (simp add: valid_promise_def with_shared_def ret_def)

lemma query_bind:
  "closed_at s p T x \<Longrightarrow> f (VBool True) = m \<Longrightarrow>
     solo t s (Run c (bindP (thenP (WPromise_Done p) f) K) # fs) s (Run c (bindP m K) # fs)"
  "open_at s p r j T as \<Longrightarrow> f (VBool False) = m \<Longrightarrow>
     solo t s (Run c (bindP (thenP (WPromise_Done p) f) K) # fs) s (Run c (bindP m K) # fs)"
  "closed_at s p T (Inr v) \<Longrightarrow> f (VBool True) = m \<Longrightarrow>
     solo t s (Run c (bindP (thenP (WPromise_Resolved p) f) K) # fs) s (Run c (bindP m K) # fs)"
  "open_at s p r j T as \<Longrightarrow> f (VBool False) = m \<Longrightarrow>
     solo t s (Run c (bindP (thenP (WPromise_Resolved p) f) K) # fs) s (Run c (bindP m K) # fs)"
proof -
  show "closed_at s p T x \<Longrightarrow> f (VBool True) = m \<Longrightarrow>
     solo t s (Run c (bindP (thenP (WPromise_Done p) f) K) # fs) s (Run c (bindP m K) # fs)"
    using IsDone_bind [of p s True t c f K fs] closed_IsDone [of s p T x "[]"]
    by (auto simp: WPromise_Done_def thenP_callP held_at_def)
  show "open_at s p r j T as \<Longrightarrow> f (VBool False) = m \<Longrightarrow>
     solo t s (Run c (bindP (thenP (WPromise_Done p) f) K) # fs) s (Run c (bindP m K) # fs)"
    using IsDone_bind [of p s False t c f K fs] open_IsDone [of s p r j T as]
    by (auto simp: WPromise_Done_def thenP_callP open_at_def)
  show "closed_at s p T (Inr v) \<Longrightarrow> f (VBool True) = m \<Longrightarrow>
     solo t s (Run c (bindP (thenP (WPromise_Resolved p) f) K) # fs) s (Run c (bindP m K) # fs)"
    using IsResolved_bind [of p s True t c f K fs]
    by (auto simp: WPromise_Resolved_def thenP_callP held_at_def IsResolved_def)
  show "open_at s p r j T as \<Longrightarrow> f (VBool False) = m \<Longrightarrow>
     solo t s (Run c (bindP (thenP (WPromise_Resolved p) f) K) # fs) s (Run c (bindP m K) # fs)"
    using IsResolved_bind [of p s False t c f K fs]
    by (auto simp: WPromise_Resolved_def thenP_callP open_at_def IsResolved_def)
qed

lemma call_resolve_bind:
  assumes "open_at s p r j TVoid []"
  obtains s' where "solo t s (Run c (bindP (call_resolve (VSome (VResolve r)) n m) K) # fs) s' (Run c (bindP m K) # fs)"
    "closed_at s' p TVoid (Inr VVoid)" "keeps p s s'"
proof -
  obtain s' where s': "solo t s (Run c (bindP (callP (settle_op r j (Inr VVoid)) (\<lambda>_. m)) K) # fs) s' (Awaiters [] # Run c (bindP m K) # fs)"
    "closed_at s' p TVoid (stored TVoid (Inr VVoid))" "keeps p s s'"
    using assms by (rule settle_bind)
  from that [OF _ _ s'(3)] solo_trans [OF s'(1) solo_awaiters_nil] s'(2) show thesis
    by (simp add: call_resolve_def stored_def is_void_def)
qed

lemma Ready_run:
  assumes "state_at s i (new_channel p r j) (new_channel p' r' j')" "open_at s p r j TVoid []" "open_at s p' r' j' TVoid as"
  obtains s' where "solo t s (Run c (bindP (StatePromise_Ready i) K) # fs) s' (Run c (K (Inr VVoid)) # fs)"
    "closed_at s' p TVoid (Inr VVoid)" "keeps p s s'"
proof -
  let ?m = "call_resolve (VSome (VResolve r)) ''ready_resolve_'' (Return VVoid)"
  let ?f = "\<lambda>b. assertP (b \<noteq> VBool True) ''!done_promise_.Done()'' ?m"
  let ?g = "\<lambda>a. assertP (a \<noteq> VBool True) ''!ready_promise_.Done()'' (thenP (WPromise_Done p') ?f)"
  have "solo t s (Run c (bindP (StatePromise_Ready i) K) # fs) s
      (Run c (bindP (assertP (VSome (VResolve r) \<noteq> VNullopt) ''ready_resolve_'' (thenP (WPromise_Done p) ?g)) K) # fs)"
    unfolding StatePromise_Ready_def by (rule with_state_bind [OF assms(1)]) simp
  also have "solo t s \<dots> s (Run c (bindP (thenP (WPromise_Done p) ?g) K) # fs)" by (rule assert_bind) simp
  also have "solo t s \<dots> s (Run c (bindP (?g (VBool False)) K) # fs)" by (rule query_bind(2) [OF assms(2)]) simp
  also have "solo t s \<dots> s (Run c (bindP (thenP (WPromise_Done p') ?f) K) # fs)" by (rule assert_bind) simp
  also have "solo t s \<dots> s (Run c (bindP (?f (VBool False)) K) # fs)" by (rule query_bind(2) [OF assms(3)]) simp
  also have "solo t s \<dots> s (Run c (bindP ?m K) # fs)" by (rule assert_bind) simp
  finally have run: "solo t s (Run c (bindP (StatePromise_Ready i) K) # fs) s (Run c (bindP ?m K) # fs)" .
  obtain s' where "solo t s (Run c (bindP ?m K) # fs) s' (Run c (bindP (Return VVoid) K) # fs)"
    "closed_at s' p TVoid (Inr VVoid)" "keeps p s s'"
    using assms(2) by (rule call_resolve_bind)
  with solo_trans [OF run] that show thesis by auto
qed

text \<open>Done on a state that is not ready, and on one that is.\<close>

lemma Done_run:
  assumes "state_at s i (new_channel p r j) (new_channel p' r' j')" "open_at s p' r' j' TVoid []"
    "p \<noteq> p'" "if b then closed_at s p TVoid (Inr VVoid) else open_at s p r j TVoid []"
  obtains s' where "solo t s (Run c (bindP (StatePromise_Done i) K) # fs) s' (Run c (K (Inr VVoid)) # fs)"
    "closed_at s' p TVoid (Inr VVoid)" "closed_at s' p' TVoid (Inr VVoid)" "objects s' = objects s"
proof -
  let ?k = "\<lambda>a. if a = VBool True then Return VVoid
      else call_resolve (VSome (VResolve r)) ''ready_resolve_'' (Return VVoid)"
  let ?f = "\<lambda>a. call_resolve (VSome (VResolve r')) ''done_resolve_'' (?k a)"
  have "solo t s (Run c (bindP (StatePromise_Done i) K) # fs) s
      (Run c (bindP (assertP (VSome (VResolve r') \<noteq> VNullopt) ''done_resolve_'' (thenP (WPromise_Done p) ?f)) K) # fs)"
    unfolding StatePromise_Done_def by (rule with_state_bind [OF assms(1)]) simp
  also have "solo t s \<dots> s (Run c (bindP (thenP (WPromise_Done p) ?f) K) # fs)" by (rule assert_bind) simp
  also have "solo t s \<dots> s (Run c (bindP (?f (VBool b)) K) # fs)"
  proof (cases b)
    case True
    then show ?thesis using assms(4) by (intro query_bind(1)) simp_all
  next
    case False
    then show ?thesis using assms(4) by (intro query_bind(2)) simp_all
  qed
  also obtain s1 where s1: "solo t s (Run c (bindP (?f (VBool b)) K) # fs) s1 (Run c (bindP (?k (VBool b)) K) # fs)"
    "closed_at s1 p' TVoid (Inr VVoid)" "keeps p' s s1"
    using assms(2) by (rule call_resolve_bind)
  note this(1)
  finally have run: "solo t s (Run c (bindP (StatePromise_Done i) K) # fs) s1 (Run c (bindP (?k (VBool b)) K) # fs)" .
  show thesis
  proof (cases b)
    case True
    then show thesis
      using that [of s1] run s1(2) keepsD(2) [OF s1(3)] keepsD(4) [OF s1(3)] assms(4) by simp
  next
    case False
    have "open_at s1 p r j TVoid []" using keepsD(1) [OF s1(3) assms(3)] assms(4) False by simp
    then obtain s2 where s2: "solo t s1 (Run c (bindP (call_resolve (VSome (VResolve r)) ''ready_resolve_'' (Return VVoid)) K) # fs) s2
        (Run c (bindP (Return VVoid) K) # fs)" "closed_at s2 p TVoid (Inr VVoid)" "keeps p s1 s2"
      by (rule call_resolve_bind)
    have "solo t s (Run c (bindP (StatePromise_Done i) K) # fs) s2 (Run c (K (Inr VVoid)) # fs)"
      using solo_trans [OF run] s2(1) False by simp
    then show thesis
      using that [of s2] s2(2) keepsD(2) [OF s2(3) s1(2)] keepsD(4) [OF s1(3)] keepsD(4) [OF s2(3)] by simp
  qed
qed

lemma IsDone_run:
  assumes "state_at s i (new_channel p r j) (new_channel p' r' j')" "closed_at s p TVoid (Inr v)" "closed_at s p' TVoid (Inr v')"
  shows "solo t s (Run c (bindP (StatePromise_IsDone i) K) # fs) s (Run c (K (Inr (VBool True))) # fs)"
proof -
  let ?f = "\<lambda>a. if a = VBool True then WPromise_Resolved p else Return (VBool False)"
  have "solo t s (Run c (bindP (StatePromise_IsDone i) K) # fs) s (Run c (bindP (thenP (WPromise_Resolved p') ?f) K) # fs)"
    unfolding StatePromise_IsDone_def by (rule with_state_bind [OF assms(1)]) simp
  also have "solo t s \<dots> s (Run c (bindP (WPromise_Resolved p) K) # fs)" by (rule query_bind(3) [OF assms(3)]) simp
  also have "solo t s \<dots> s (Run c (K (Inr (VBool True))) # fs)"
    using IsResolved_bind [of p s True t c Return K fs] assms(2)
    by (auto simp: WPromise_Resolved_def held_at_def IsResolved_def)
  finally show ?thesis .
qed

lemma renew_bind:
  obtains s' p r j where "solo t s (Run c (bindP (renew upd k) K) # fs) s' (Run c (bindP k K) # fs)"
    "open_at s' p r j TVoid []" "objects s' = upd (new_channel p r j) (objects s)" "carries s s'" "p = length (promises s)"
proof -
  let ?f = "\<lambda>p r j. callP (OAtomic (\<lambda>b. (upd (new_channel p r j) b, VVoid))) (\<lambda>_. k)"
  obtain s1 p r j where s1: "solo t s (Run c (bindP (renew upd k) K) # fs) s1 (Run c (bindP (?f p r j) K) # fs)"
    "open_at s1 p r j TVoid []" "\<forall>p. keeps p s s1" "p = length (promises s)"
    unfolding renew_def by (rule Create_bind)
  let ?s = "s1\<lparr>objects := upd (new_channel p r j) (objects s)\<rparr>"
  have "solo t s1 (Run c (bindP (?f p r j) K) # fs) ?s (Run c (bindP k K) # fs)"
    using Atomic_bind [of t s1 c "\<lambda>b. (upd (new_channel p r j) b, VVoid)" "\<lambda>_. k" K fs] keeps_allD(4) [OF s1(3)] by simp
  from that [OF solo_trans [OF s1(1) this] _ _ carriesI [OF s1(3)] s1(4)] s1(2) show thesis by simp
qed

lemma Reset_run:
  assumes "state_at s i (new_channel p r j) (new_channel p' r' j')" "closed_at s p TVoid (Inr v)" "closed_at s p' TVoid (Inr v')"
  obtains s' where "solo t s (Run c (bindP (StatePromise_Reset i) K) # fs) s' (Run c (K (Inr VVoid)) # fs)" "fresh_state s' i"
proof -
  let ?m = "renew (set_done i) (Return VVoid)"
  let ?g = "\<lambda>b. assertP (b = VBool True) ''ready_promise_.Resolved()'' (renew (set_ready i) ?m)"
  let ?h = "\<lambda>b. if b = VBool True then renew (set_ready i) (Return VVoid) else Return VVoid"
  let ?f = "\<lambda>a. if a = VBool True then thenP (WPromise_Resolved p) ?g else thenP (WPromise_Resolved p) ?h"
  have "solo t s (Run c (bindP (StatePromise_Reset i) K) # fs) s (Run c (bindP (thenP (WPromise_Resolved p') ?f) K) # fs)"
    unfolding StatePromise_Reset_def by (rule with_state_bind [OF assms(1)]) simp
  also have "solo t s \<dots> s (Run c (bindP (thenP (WPromise_Resolved p) ?g) K) # fs)"
    by (rule query_bind(3) [OF assms(3)]) simp
  also have "solo t s \<dots> s (Run c (bindP (?g (VBool True)) K) # fs)" by (rule query_bind(3) [OF assms(2)]) simp
  also have "solo t s \<dots> s (Run c (bindP (renew (set_ready i) ?m) K) # fs)" by (rule assert_bind) simp
  also obtain s1 q rq jq where s1: "solo t s (Run c (bindP (renew (set_ready i) ?m) K) # fs) s1 (Run c (bindP ?m K) # fs)"
    "open_at s1 q rq jq TVoid []" "objects s1 = set_ready i (new_channel q rq jq) (objects s)" "carries s s1" "q = length (promises s)"
    by (rule renew_bind)
  note this(1)
  also obtain s2 q' rq' jq' where s2: "solo t s1 (Run c (bindP ?m K) # fs) s2 (Run c (bindP (Return VVoid) K) # fs)"
    "open_at s2 q' rq' jq' TVoid []" "objects s2 = set_done i (new_channel q' rq' jq') (objects s1)" "carries s1 s2" "q' = length (promises s1)"
    by (rule renew_bind)
  note this(1)
  finally have "solo t s (Run c (bindP (StatePromise_Reset i) K) # fs) s2 (Run c (K (Inr VVoid)) # fs)" by simp
  moreover have "state_at s2 i (new_channel q rq jq) (new_channel q' rq' jq')"
    using assms(1) s1(3) s2(3) by (simp add: state_at_def set_ready_def set_done_def)
  moreover have "q \<noteq> q'" using s1(2) s2(5) by (auto simp: open_at_def)
  ultimately show thesis using that carriesD(1) [OF s2(4) s1(2)] s2(2) unfolding fresh_state_def by blast
qed

text \<open>The rest of a sequence, for a run that stops between its parts.\<close>

definition then_rest :: "(val \<Rightarrow> 'o prog) \<Rightarrow> (outcome \<Rightarrow> 'o prog) \<Rightarrow> outcome \<Rightarrow> 'o prog" where
  "then_rest f K x = bindP (case x of Inl e \<Rightarrow> Throw e | Inr v \<Rightarrow> f v) K"

lemma then_rest_simps [simp]:
  "bindP (thenP m f) K = bindP m (then_rest f K)" "then_rest f K (Inr v) = bindP (f v) K"
  by (simp_all add: then_rest_def [abs_def] thenP_def bindP_assoc)

lemma Ready_or_not_run:
  assumes "state_at s i (new_channel p r j) (new_channel p' r' j')" "open_at s p r j TVoid []" "open_at s p' r' j' TVoid as" "p \<noteq> p'"
  obtains s' where "solo t s (Run c (bindP (if b then StatePromise_Ready i else Return VVoid) K) # fs) s' (Run c (K (Inr VVoid)) # fs)"
    "objects s' = objects s" "open_at s' p' r' j' TVoid as"
    "if b then closed_at s' p TVoid (Inr VVoid) else open_at s' p r j TVoid []"
proof (cases b)
  case True
  obtain s1 where s1: "solo t s (Run c (bindP (StatePromise_Ready i) K) # fs) s1 (Run c (K (Inr VVoid)) # fs)"
    "closed_at s1 p TVoid (Inr VVoid)" "keeps p s s1"
    using assms(1-3) by (rule Ready_run)
  then show thesis
    using True that [of s1] keepsD(1) [OF s1(3) _ assms(3)] keepsD(4) [OF s1(3)] assms(4) by simp
next
  case False
  then show thesis using assms(2,3) that [of s] by (simp add: solo_refl)
qed

text \<open>
  C31. The life cycle of a StatePromise. From the initial state, with or without a Ready first, Done
  fulfils both promises (no assertion fails), IsDone then is true, and Reset leads back to the
  initial state.
\<close>

theorem StatePromise_lifecycle:
  assumes "fresh_state s i"
  shows "\<exists>s'. solo t s (Run c (bindP (thenP (if b then StatePromise_Ready i else Return VVoid) (\<lambda>_. thenP (StatePromise_Done i)
      (\<lambda>_. thenP (StatePromise_IsDone i) (\<lambda>v. thenP (StatePromise_Reset i) (\<lambda>_. Return v))))) K) # fs) s'
    (Run c (K (Inr (VBool True))) # fs) \<and> fresh_state s' i"
proof -
  obtain p r j p' r' j' where st: "state_at s i (new_channel p r j) (new_channel p' r' j')"
    "open_at s p r j TVoid []" "open_at s p' r' j' TVoid []" "p \<noteq> p'"
    using assms by (auto simp: fresh_state_def)
  let ?K3 = "then_rest (\<lambda>_. Return (VBool True)) K"
  let ?K2 = "then_rest (\<lambda>v. thenP (StatePromise_Reset i) (\<lambda>_. Return v)) K"
  let ?K1 = "then_rest (\<lambda>_. thenP (StatePromise_IsDone i) (\<lambda>v. thenP (StatePromise_Reset i) (\<lambda>_. Return v))) K"
  let ?K0 = "then_rest (\<lambda>_. thenP (StatePromise_Done i) (\<lambda>_. thenP (StatePromise_IsDone i)
      (\<lambda>v. thenP (StatePromise_Reset i) (\<lambda>_. Return v)))) K"
  let ?m = "if b then StatePromise_Ready i else Return VVoid"
  obtain s1 where s1: "solo t s (Run c (bindP ?m ?K0) # fs) s1 (Run c (?K0 (Inr VVoid)) # fs)"
    "objects s1 = objects s" "open_at s1 p' r' j' TVoid []"
    "if b then closed_at s1 p TVoid (Inr VVoid) else open_at s1 p r j TVoid []"
    using st by (rule Ready_or_not_run)
  have st1: "state_at s1 i (new_channel p r j) (new_channel p' r' j')" using st(1) s1(2) by (simp add: state_at_def)
  obtain s2 where s2: "solo t s1 (Run c (bindP (StatePromise_Done i) ?K1) # fs) s2 (Run c (?K1 (Inr VVoid)) # fs)"
    "closed_at s2 p TVoid (Inr VVoid)" "closed_at s2 p' TVoid (Inr VVoid)" "objects s2 = objects s1"
    using st1 s1(3) st(4) s1(4) by (rule Done_run)
  have st2: "state_at s2 i (new_channel p r j) (new_channel p' r' j')" using st1 s2(4) by (simp add: state_at_def)
  have s3: "solo t s2 (Run c (bindP (StatePromise_IsDone i) ?K2) # fs) s2 (Run c (?K2 (Inr (VBool True))) # fs)"
    using st2 s2(2,3) by (rule IsDone_run)
  obtain s4 where s4: "solo t s2 (Run c (bindP (StatePromise_Reset i) ?K3) # fs) s4 (Run c (?K3 (Inr VVoid)) # fs)"
    "fresh_state s4 i"
    using st2 s2(2,3) by (rule Reset_run)
  note run = s1(1) [unfolded then_rest_simps]
  also note s2(1) [unfolded then_rest_simps]
  also note s3 [unfolded then_rest_simps]
  also note s4(1) [unfolded then_rest_simps bindP.simps]
  finally show ?thesis using s4(2) unfolding then_rest_simps by blast
qed

lemma WaitReady_run:
  assumes "state_at s i (new_channel p r j) (new_channel p' r' j')"
  shows "solo t s (Run c (bindP (StatePromise_WaitReady i) K) # fs) s (Run c (K (Inr (VPromise p))) # fs)"
    "solo t s (Run c (bindP (StatePromise_WaitDone i) K) # fs) s (Run c (K (Inr (VPromise p'))) # fs)"
  using with_state_bind [OF assms, of "\<lambda>_ ready _ _. Return (VPromise ready)" "Return (VPromise p)" t c K fs]
    with_state_bind [OF assms, of "\<lambda>_ _ _ dn. Return (VPromise dn)" "Return (VPromise p')" t c K fs]
  by (simp_all add: StatePromise_WaitReady_def StatePromise_WaitDone_def)

lemma throw_End_pure: "normalise throw_End = pure_fn (TFunction TVoid []) (\<lambda>_. Inl (End ''StatePromise''))"
  by (simp add: throw_End_def pure_fn_def)

lemma WaitDoneWithReject_run:
  assumes "state_at s i (new_channel p r j) (new_channel p' r' j')" "closed_at s p' TVoid (Inr VVoid)"
  obtains s' q where "solo t s (Run c (bindP (StatePromise_WaitDoneWithReject i) K) # fs) s' (Run c (K (Inr (VPromise q))) # fs)"
    "closed_at s' q TVoid (Inl (End ''StatePromise''))" "\<forall>u. keeps u s s'"
proof -
  let ?ty = "TFunction TVoid []" and ?g = "\<lambda>_ :: val list. Inl (End ''StatePromise'') :: outcome"
  have ty: "\<not> IS_PROMISE_FUNCTION ?ty" by (simp add: promise_function_iff)
  have "solo t s (Run c (bindP (StatePromise_WaitDoneWithReject i) K) # fs) s
      (Run c (bindP (ThenPlain TVoid p' (pure_fn ?ty ?g) []) K) # fs)"
    unfolding StatePromise_WaitDoneWithReject_def
    by (rule with_state_bind [OF assms(1)])
      (simp add: WPromise_Then_def forward_self_def throw_End_pure Then_def ty)
  also obtain s1 q where s1: "solo t s (Run c (bindP (ThenPlain TVoid p' (pure_fn ?ty ?g) []) K) # fs) s1
      (Run c (K (Inr (VPromise q))) # fs)"
    "closed_at s1 q (return_or_void_t ?ty) (then_result ?ty ?g [] TVoid (Inr VVoid))" "\<forall>u. keeps u s s1"
    using then_chain.settled [OF assms(2)] by blast
  note this(1)
  finally have run: "solo t s (Run c (bindP (StatePromise_WaitDoneWithReject i) K) # fs) s1 (Run c (K (Inr (VPromise q))) # fs)" .
  have "return_or_void_t ?ty = TVoid" "then_result ?ty ?g [] TVoid (Inr VVoid) = Inl (End ''StatePromise'')"
    by code_simp+
  with s1(2) have "closed_at s1 q TVoid (Inl (End ''StatePromise''))" by (simp only:)
  with run show thesis using s1(3) by (rule that)
qed

lemma race_two_run:
  assumes "closed_at s p TVoid x" "closed_at s q TVoid y"
  shows "\<exists>s' u. solo t s (Run c (bindP (Race [(TVoid, p), (TVoid, q)]) K) # fs) s' (Run c (K (Inr (VPromise u))) # fs) \<and>
    outcome_of s' u = Some (stored TVoid (race_value TVoid TVoid x))"
proof -
  have "RaceReturn [TVoid, TVoid] = Some TVoid" by code_simp
  then show ?thesis using race_run [of TVoid "[(TVoid, q)]" TVoid s p x "[y]" t c K fs] assms by simp
qed

text \<open>
  After Done, Wait returns a fulfilled promise and WaitWithReject one that is rejected with End,
  although the ready promise is fulfilled too.
\<close>

theorem StatePromise_waits_after_Done:
  assumes "state_at s i (new_channel p r j) (new_channel p' r' j')"
    "closed_at s p TVoid (Inr VVoid)" "closed_at s p' TVoid (Inr VVoid)"
  shows "(\<exists>s' u. solo t s (Run c (bindP (StatePromise_Wait i) K) # fs) s' (Run c (K (Inr (VPromise u))) # fs) \<and>
      outcome_of s' u = Some (Inr VVoid)) \<and>
    (\<exists>s' u. solo t s (Run c (bindP (StatePromise_WaitWithReject i) K) # fs) s' (Run c (K (Inr (VPromise u))) # fs) \<and>
      outcome_of s' u = Some (Inl (End ''StatePromise'')))"
proof
  have v: "stored TVoid (race_value TVoid TVoid (Inr VVoid)) = Inr VVoid" by code_simp
  note w = WaitReady_run [OF assms(1), of t c _ fs]
  have "solo t s (Run c (bindP (StatePromise_Wait i) K) # fs) s (Run c (bindP (Race [(TVoid, p'), (TVoid, p)]) K) # fs)"
    unfolding StatePromise_Wait_def then_rest_simps
    by (rule solo_trans [OF w(2)], unfold then_rest_simps as_promise_def val.case, rule solo_trans [OF w(1)])
      (simp add: solo_refl)
  with race_two_run [OF assms(3,2), of t c K fs] v
  show "\<exists>s' u. solo t s (Run c (bindP (StatePromise_Wait i) K) # fs) s' (Run c (K (Inr (VPromise u))) # fs) \<and>
      outcome_of s' u = Some (Inr VVoid)"
    using solo_trans by fastforce
next
  let ?E = "End ''StatePromise''"
  let ?k = "\<lambda>v. as_promise v (\<lambda>dn. thenP (StatePromise_WaitReady i) (\<lambda>w. as_promise w (\<lambda>ready. Race [(TVoid, dn), (TVoid, ready)])))"
  have v: "stored TVoid (race_value TVoid TVoid (Inl ?E)) = Inl ?E" by code_simp
  obtain s1 q where s1: "solo t s (Run c (bindP (StatePromise_WaitDoneWithReject i) (then_rest ?k K)) # fs) s1
      (Run c (then_rest ?k K (Inr (VPromise q))) # fs)"
    "closed_at s1 q TVoid (Inl ?E)" "\<forall>u. keeps u s s1"
    using assms(1,3) by (rule WaitDoneWithReject_run)
  have st: "state_at s1 i (new_channel p r j) (new_channel p' r' j')" "closed_at s1 p TVoid (Inr VVoid)"
    using assms(1,2) keeps_allD [OF s1(3)] by (auto simp: state_at_def)
  have "solo t s1 (Run c (then_rest ?k K (Inr (VPromise q))) # fs) s1 (Run c (bindP (Race [(TVoid, q), (TVoid, p)]) K) # fs)"
    unfolding then_rest_simps as_promise_def val.case
    by (rule solo_trans [OF WaitReady_run(1) [OF st(1)]]) (simp add: solo_refl)
  from solo_trans [OF s1(1) this]
  have "solo t s (Run c (bindP (StatePromise_WaitWithReject i) K) # fs) s1 (Run c (bindP (Race [(TVoid, q), (TVoid, p)]) K) # fs)"
    unfolding StatePromise_WaitWithReject_def then_rest_simps .
  with race_two_run [OF s1(2) st(2), of t c K fs] v
  show "\<exists>s' u. solo t s (Run c (bindP (StatePromise_WaitWithReject i) K) # fs) s' (Run c (K (Inr (VPromise u))) # fs) \<and>
      outcome_of s' u = Some (Inl ?E)"
    using solo_trans by fastforce
qed

subsection \<open>Concrete state promises\<close>

text \<open>A program that makes a state promise, waits on it and then ends it with \<open>f\<close>.\<close>

definition state_run :: "(nat \<Rightarrow> objs prog) \<Rightarrow> objs machine" where
  "state_run f = init no_objs
     [thenP StatePromise_new (\<lambda>_. thenP (StatePromise_WaitWithReject 0) (\<lambda>w. thenP (f 0) (\<lambda>_. Return w)))]"

text \<open>
  The destructor is not Done. A waiter of WaitWithReject that registered first is rejected with
  End when Done is called, but sees a plain success when the object is destroyed instead, because
  the destructor resolves the ready promise first. In both runs the program ends with its thread idle.
\<close>

theorem StatePromise_destructor_is_not_Done:
  "(let m = after (state_run StatePromise_Done) (replicate 55 0) in
     threads m = [[]] \<and> outcome_of (mem m) 5 = Some (Inl (End ''StatePromise''))) \<and>
   (let m = after (state_run StatePromise_destroy) (replicate 55 0) in
     threads m = [[]] \<and> outcome_of (mem m) 5 = Some (Inr VVoid))"
proof -
  have "map length (threads (after (state_run StatePromise_Done) (replicate 55 0))) = [0]"
    "map length (threads (after (state_run StatePromise_destroy) (replicate 55 0))) = [0]"
    "outcome_of (mem (after (state_run StatePromise_Done) (replicate 55 0))) 5 = Some (Inl (End ''StatePromise''))"
    "outcome_of (mem (after (state_run StatePromise_destroy) (replicate 55 0))) 5 = Some (Inr VVoid)"
    by code_simp+
  then show ?thesis by (auto simp: Let_def)
qed

definition state_objs :: objs where
  "state_objs = no_objs\<lparr>states := [\<lparr>sp_ready = new_channel 0 0 0, sp_done = new_channel 1 1 1\<rparr>]\<rparr>"

definition pending_states :: "objs store" where
  "pending_states = snd (snd (snd (Promise_Create TVoid (snd (snd (snd (Promise_Create TVoid (empty_store state_objs))))))))"

definition ended_states :: "objs store" where
  "ended_states = (empty_store state_objs)\<lparr>
     promises := map (\<lambda>i. (new_promise TVoid True NoHandle)\<lparr>p_resolver := Some i\<rparr>) [0, 1],
     resolvers := map (\<lambda>i. store_outcome (Inr VVoid) (linked_resolver TVoid i)) [0, 1]\<rparr>"

lemma pending_states_fresh: "fresh_state pending_states 0"
proof -
  have "state_at pending_states 0 (new_channel 0 0 0) (new_channel 1 1 1)" "open_at pending_states 0 0 0 TVoid []"
    "open_at pending_states 1 1 1 TVoid []"
    by (simp_all add: state_at_def open_at_def pending_states_def Promise_Create_eq empty_store_def state_objs_def no_objs_def)
  then show ?thesis unfolding fresh_state_def using zero_neq_one by blast
qed

theorem StatePromise_lifecycle_witness:
  "\<exists>s'. solo 0 pending_states [Run Plain (bindP (thenP (if True then StatePromise_Ready 0 else Return VVoid) (\<lambda>_. thenP (StatePromise_Done 0)
      (\<lambda>_. thenP (StatePromise_IsDone 0) (\<lambda>v. thenP (StatePromise_Reset 0) (\<lambda>_. Return v))))) finish)] s'
    [Run Plain (finish (Inr (VBool True)))] \<and> fresh_state s' 0"
  by (rule StatePromise_lifecycle [OF pending_states_fresh])

theorem StatePromise_waits_after_Done_witness:
  "\<exists>s' u. solo 0 ended_states [Run Plain (bindP (StatePromise_WaitWithReject 0) finish)] s' [Run Plain (Return (VPromise u))] \<and>
     outcome_of s' u = Some (Inl (Exc ''StatePromise::End'' ''Promise ended''))"
proof -
  have "state_at ended_states 0 (new_channel 0 0 0) (new_channel 1 1 1)" "closed_at ended_states 0 TVoid (Inr VVoid)"
    "closed_at ended_states 1 TVoid (Inr VVoid)"
    by (simp_all add: state_at_def held_at_def ended_states_def empty_store_def state_objs_def no_objs_def
        new_promise_def linked_resolver_def is_void_def)
  from StatePromise_waits_after_Done [OF this, of 0 Plain finish "[]"] show ?thesis by (auto simp: End_def)
qed

end
