(* ===== verification/Handles.thy ===== *)
theory Handles
  imports Following Signals
begin

text \<open>
  What the user of the library calls directly. The handles Resolve and Reject
  (details/Resolve.inl, details/Reject.inl, src/Resolve.cpp, src/Promise.cpp): what several calls on
  them return and which one decides. The factories and deduction guides. Promise functions as
  arguments of All and Race (details/helpers.inl) and of \<^verbatim>\<open>co_await\<close> (details/Handle.inl), which
  starts them first. The overloads for temporaries and the type-erased interface
  (core/VPromise.h, details/WPromise.inl).
\<close>

subsection \<open>The handles Resolve and Reject\<close>

definition Resolve_call :: "rid \<Rightarrow> val \<Rightarrow> 'o prog" where
  "Resolve_call r v = callP (OResolve r v) Return"

definition Resolve_void_call :: "rid \<Rightarrow> 'o prog" where
  "Resolve_void_call r = callP (OResolve r VVoid) Return"

text \<open>\<^verbatim>\<open>reject(exception)\<close> and \<^verbatim>\<open>reject.Apply<E>(args...)\<close> make the exception pointer.\<close>

definition Reject_exception :: "jid \<Rightarrow> exc \<Rightarrow> 'o prog" where
  "Reject_exception j e = callP (OReject j e) Return"

definition Reject_Apply :: "jid \<Rightarrow> string \<Rightarrow> string \<Rightarrow> 'o prog" where
  "Reject_Apply j exception arg = callP (OReject j (Exc exception arg)) Return"

text \<open>Rejecting through the resolver itself does not use the flag of the handle.\<close>

definition Resolver_Reject_args :: "rid \<Rightarrow> string \<Rightarrow> string \<Rightarrow> 'o store \<Rightarrow> 'o op_result" where
  "Resolver_Reject_args r exception arg = resolve_op r (Inl (Exc exception arg))"

text \<open>The conversions to \<^verbatim>\<open>bool\<close>, which read without a lock.\<close>

definition Resolve_void_bool :: "'o store \<Rightarrow> rid \<Rightarrow> bool" where
  "Resolve_void_bool s r \<longleftrightarrow> Resolver_Done (resolvers s ! r)"

definition Reject_bool :: "'o store \<Rightarrow> jid \<Rightarrow> bool" where
  "Reject_bool s j \<longleftrightarrow> j_rejected (rejects s ! j)"

subsection \<open>Several calls on the handles of one promise\<close>

text \<open>Settle the promise with each outcome in turn, and collect what the calls return.\<close>

fun settle_calls :: "rid \<Rightarrow> jid \<Rightarrow> outcome list \<Rightarrow> val list \<Rightarrow> 'o prog" where
  "settle_calls r j [] bs = Return (VVector bs)"
| "settle_calls r j (x # xs) bs =
     thenP (case x of Inr v \<Rightarrow> Resolve_call r v | Inl e \<Rightarrow> Reject_exception j e) (\<lambda>b. settle_calls r j xs (bs @ [b]))"

text \<open>A promise whose resolver's flag is set: the handles have no effect any more.\<close>

definition spent_at :: "'o store \<Rightarrow> pid \<Rightarrow> rid \<Rightarrow> jid \<Rightarrow> cty \<Rightarrow> outcome \<Rightarrow> bool" where
  "spent_at s p r j T x \<longleftrightarrow> closed_at s p T x \<and> p_resolver (promises s ! p) = Some r \<and>
     r < length (resolvers s) \<and> j < length (rejects s) \<and>
     j_resolver (rejects s ! j) = r \<and> r_resolved (resolvers s ! r)"

lemma spent_outcome: "spent_at s p r j T x \<Longrightarrow> outcome_of s p = Some x"
  using closed_outcome unfolding spent_at_def by blast

lemma settle_call_eq:
  "(case x of Inr v \<Rightarrow> Resolve_call r v | Inl e \<Rightarrow> Reject_exception j e) = callP (settle_op r j x) Return"
  by (cases x) (simp_all add: Resolve_call_def Reject_exception_def)

lemma settle_call_bind:
  "bindP (settle_calls r j (x # xs) bs) K = bindP (callP (settle_op r j x) (\<lambda>b. settle_calls r j xs (bs @ [b]))) K"
  unfolding settle_calls.simps settle_call_eq thenP_callP ..

lemma settle_spent:
  assumes "spent_at s p r j T x"
  shows "\<exists>s'. solo t s (Run c (bindP (callP (settle_op r j y) f) K) # fs) s' (Run c (bindP (f (VBool False)) K) # fs) \<and>
    spent_at s' p r j T x \<and> (\<forall>e. y = Inl e \<longrightarrow> Reject_bool s' j)"
proof -
  note sp = assms [unfolded spent_at_def]
  let ?s1 = "upd_resolver r (\<lambda>x. x\<lparr>r_resolved := True\<rparr>) s"
  let ?s2 = "upd_reject j (\<lambda>x. x\<lparr>j_rejected := True\<rparr>) s"
  let ?s3 = "upd_resolver r (\<lambda>x. x\<lparr>r_resolved := True\<rparr>) ?s2"
  let ?s = "case y of Inr v \<Rightarrow> ?s1 | Inl e \<Rightarrow> if j_rejected (rejects s ! j) then ?s2 else ?s3"
  have "exec_op t (settle_op r j y) s = Next (?s, [], Inr (VBool False))"
    using sp by (cases y) (auto simp: resolve_op_def reject_op_def exchange_resolved_def exchange_rejected_def ret_def)
  moreover have "\<not> spawns (settle_op r j y)" by (cases y) simp_all
  moreover have "spent_at ?s p r j T x"
    using sp by (cases x; cases y) (auto simp: spent_at_def held_at_def nth_upd_nth)
  moreover have "\<forall>e. y = Inl e \<longrightarrow> Reject_bool ?s j"
    using sp by (auto simp: Reject_bool_def)
  moreover have "solo t s (Run c (bindP (callP (settle_op r j y) f) K) # fs) ?s ([] @ Run c (bindP (f (VBool False)) K) # fs)"
    using calculation(1,2) by (rule solo_bind_callP)
  ultimately show ?thesis unfolding append.simps by blast
qed

lemma settle_first:
  assumes "open_at s p r j T []"
  shows "\<exists>s'. solo t s (Run c (bindP (callP (settle_op r j x) f) K) # fs) s' (Run c (bindP (f (VBool True)) K) # fs) \<and>
    spent_at s' p r j T (stored T x) \<and> (\<forall>e. x = Inl e \<longrightarrow> \<not> Resolve_void_bool s' r)"
proof -
  note o = assms [unfolded open_at_def]
  let ?r = "\<lambda>s. upd_resolver r (\<lambda>x. x\<lparr>r_resolved := True\<rparr>) s"
  let ?s1 = "case x of Inr v \<Rightarrow> ?r s | Inl e \<Rightarrow> ?r (upd_reject j (\<lambda>x. x\<lparr>j_rejected := True\<rparr>) s)"
  let ?s2 = "upd_promise p (\<lambda>x. x\<lparr>p_awaiters := [], p_self_owned := False\<rparr>) (upd_resolver r (store_outcome x) ?s1)"
  let ?fs = "Run c (bindP (f (VBool True)) K) # fs"
  have "exec_op t (settle_op r j x) s = Next (?s1, [Settle r x], Inr (VBool True))"
    using o by (cases x) (simp_all add: resolve_op_def reject_op_def exchange_resolved_def exchange_rejected_def)
  moreover have "\<not> spawns (settle_op r j x)" by (cases x) simp_all
  ultimately have "solo t s (Run c (bindP (callP (settle_op r j x) f) K) # fs) ?s1 (Settle r x # ?fs)"
    using solo_bind_callP [of t "settle_op r j x" s ?s1 "[Settle r x]" "VBool True" c f K fs] by simp
  also have "solo t ?s1 (Settle r x # ?fs) ?s2 (Awaiters [] # ?fs)"
    using o by (intro solo_one) (cases x; auto simp: settle_def with_unique_def Resolver_Done_def OnResolved_def
        Handle_Done_def Let_def)
  also note solo_awaiters_nil
  finally have run: "solo t s (Run c (bindP (callP (settle_op r j x) f) K) # fs) ?s2 ?fs" .
  have "spent_at ?s2 p r j T (stored T x)"
    using o by (cases x) (auto simp: spent_at_def held_at_def stored_def)
  moreover have "\<not> Resolve_void_bool ?s2 r" if "x = Inl e" for e
    using o that by (auto simp: Resolve_void_bool_def Resolver_Done_def)
  ultimately show ?thesis using run by blast
qed

lemma settle_calls_spent:
  assumes "spent_at s p r j T x"
  shows "\<exists>s'. solo t s (Run c (bindP (settle_calls r j xs bs) K) # fs) s'
      (Run c (K (Inr (VVector (bs @ replicate (length xs) (VBool False))))) # fs) \<and> spent_at s' p r j T x"
  using assms
proof (induction xs arbitrary: s bs)
  case Nil
  then show ?case using solo_refl by fastforce
next
  case (Cons y xs)
  obtain s1 where s1: "solo t s (Run c (bindP (settle_calls r j (y # xs) bs) K) # fs) s1
      (Run c (bindP (settle_calls r j xs (bs @ [VBool False])) K) # fs)" "spent_at s1 p r j T x"
    using settle_spent [OF Cons.prems] unfolding settle_call_bind by blast
  obtain s2 where "solo t s1 (Run c (bindP (settle_calls r j xs (bs @ [VBool False])) K) # fs) s2
      (Run c (K (Inr (VVector ((bs @ [VBool False]) @ replicate (length xs) (VBool False))))) # fs)" "spent_at s2 p r j T x"
    using Cons.IH [OF s1(2)] by blast
  then show ?case using solo_trans [OF s1(1)] by (auto simp: replicate_app_Cons_same)
qed

text \<open>
  C9. The first call wins. Whatever sequence of calls a thread makes on the two handles of a pending
  promise, the first returns true and decides the outcome, and all later ones return false and
  leave the outcome as it is.
\<close>

theorem first_call_wins:
  assumes "open_at s p r j T []"
  shows "\<exists>s'. solo t s (Run c (bindP (settle_calls r j (x # xs) []) K) # fs) s'
      (Run c (K (Inr (VVector (VBool True # replicate (length xs) (VBool False))))) # fs) \<and>
    outcome_of s' p = Some (stored T x)"
proof -
  obtain s1 where s1: "solo t s (Run c (bindP (settle_calls r j (x # xs) []) K) # fs) s1
      (Run c (bindP (settle_calls r j xs ([] @ [VBool True])) K) # fs)" "spent_at s1 p r j T (stored T x)"
    using settle_first [OF assms] unfolding settle_call_bind by blast
  obtain s2 where s2: "solo t s1 (Run c (bindP (settle_calls r j xs ([] @ [VBool True])) K) # fs) s2
      (Run c (K (Inr (VVector (([] @ [VBool True]) @ replicate (length xs) (VBool False))))) # fs)" "spent_at s2 p r j T (stored T x)"
    using settle_calls_spent [OF s1(2)] by blast
  show ?thesis using solo_trans [OF s1(1) s2(1)] spent_outcome [OF s2(2)] unfolding append.simps by blast
qed

text \<open>
  What the conversions to \<^verbatim>\<open>bool\<close> report. After a rejection the one of Resolve is false, although
  the resolver is in a final state; after Resolve has won, a call of Reject that returns false makes
  the one of Reject true, although the promise is fulfilled.
\<close>

lemma handle_bools:
  assumes "open_at s p r j T []"
  shows "\<exists>s'. solo t s (Run c (bindP (Reject_exception j e) K) # fs) s' (Run c (K (Inr (VBool True))) # fs) \<and>
      outcome_of s' p = Some (Inl e) \<and> \<not> Resolve_void_bool s' r"
    "\<exists>s'. solo t s (Run c (bindP (thenP (Resolve_call r v) (\<lambda>_. Reject_exception j e)) K) # fs) s' (Run c (K (Inr (VBool False))) # fs) \<and>
      outcome_of s' p = Some (stored T (Inr v)) \<and> Reject_bool s' j"
proof -
  obtain s1 where s1: "solo t s (Run c (bindP (callP (settle_op r j (Inl e)) Return) K) # fs) s1 (Run c (bindP (Return (VBool True)) K) # fs)"
    "spent_at s1 p r j T (stored T (Inl e))" "\<not> Resolve_void_bool s1 r"
    using settle_first [OF assms, where x = "Inl e"] by blast
  then show "\<exists>s'. solo t s (Run c (bindP (Reject_exception j e) K) # fs) s' (Run c (K (Inr (VBool True))) # fs) \<and>
      outcome_of s' p = Some (Inl e) \<and> \<not> Resolve_void_bool s' r"
    using spent_outcome [OF s1(2)] by (intro exI [of _ s1]) (simp add: Reject_exception_def stored_def)
  have eq: "thenP (Resolve_call r v) (\<lambda>_. Reject_exception j e) =
      (callP (settle_op r j (Inr v)) (\<lambda>_. callP (settle_op r j (Inl e)) Return) :: 'a prog)"
    by (simp add: Resolve_call_def Reject_exception_def thenP_callP)
  obtain s2 where s2: "solo t s (Run c (bindP (callP (settle_op r j (Inr v)) (\<lambda>_. callP (settle_op r j (Inl e)) Return)) K) # fs) s2
      (Run c (bindP (callP (settle_op r j (Inl e)) Return) K) # fs)" "spent_at s2 p r j T (stored T (Inr v))"
    using settle_first [OF assms, where x = "Inr v"] by blast
  obtain s3 where s3: "solo t s2 (Run c (bindP (callP (settle_op r j (Inl e)) Return) K) # fs) s3 (Run c (bindP (Return (VBool False)) K) # fs)"
    "spent_at s3 p r j T (stored T (Inr v))" "Reject_bool s3 j"
    using settle_spent [OF s2(2), where y = "Inl e"] by blast
  show "\<exists>s'. solo t s (Run c (bindP (thenP (Resolve_call r v) (\<lambda>_. Reject_exception j e)) K) # fs) s' (Run c (K (Inr (VBool False))) # fs) \<and>
      outcome_of s' p = Some (stored T (Inr v)) \<and> Reject_bool s' j"
    unfolding eq using solo_trans [OF s2(1) s3(1)] s3(3) spent_outcome [OF s3(2)]
    by (intro exI [of _ s3]) simp
qed

subsection \<open>Factories\<close>

definition MakeResolver :: "cty \<Rightarrow> 'o store \<Rightarrow> rid \<times> rid \<times> jid \<times> 'o store" where
  "MakeResolver T s = (let (r, j, s') = Resolver_Create T s in (r, r, j, s'))"

definition promise_Create :: "cty \<Rightarrow> 'o prog" where
  "promise_Create T = WPromise_Create T"

text \<open>
  The deduction guides of WPromise: the type that \<^verbatim>\<open>WPromise promise{function}\<close> has when no argument
  is given for the template.
\<close>

definition WPromise_guide :: "cty \<Rightarrow> cty option" where
  "WPromise_guide f =
     (if \<not> function_constructible f then None
      else if IS_PROMISE_FUNCTION f then Some (return_or_void_t (return_or_void_t f))
      else WReturn f)"

lemma WPromise_guide_promise: "WPromise_guide (TCallable (TIPromise T w) as) = Some T"
  "WPromise_guide (TFunction (TIPromise T w) as) = Some T"
  by (simp_all add: WPromise_guide_def function_constructible.simps promise_defs)

lemma WPromise_guide_direct:
  assumes "MakePromise_Return (TFunction R as) = Some T" "\<not> IS_PROMISE_FUNCTION (TFunction R as)" "T' \<in> set_option (WPromise_guide (TFunction R as))"
  shows "T' = T"
  using assms by (cases as) (auto simp: WPromise_guide_def function_constructible.simps MakePromise_Return_def all_args_t_def WReturn_def return_t_def split: if_splits option.splits)

subsection \<open>Promises and callables as arguments of All and Race\<close>

datatype 'o argument = PromiseArg cty pid | CallableArg "'o fn"

definition made_type :: "'o fn \<Rightarrow> cty" where
  "made_type f =
     (let f' = normalise f in
      if MakePromise_overload (fn_type f') = MakeCoroutine then promise_value f'
      else (case MakePromise_Return (fn_type f') of Some T \<Rightarrow> T | None \<Rightarrow> TVoid))"

fun to_promises :: "'o argument list \<Rightarrow> ((cty \<times> pid) list \<Rightarrow> 'o prog) \<Rightarrow> 'o prog" where
  "to_promises [] k = k []"
| "to_promises (PromiseArg T p # as) k = to_promises as (\<lambda>ps. k ((T, p) # ps))"
| "to_promises (CallableArg f # as) k =
     thenP (MakePromise f []) (\<lambda>v. as_promise v (\<lambda>p. to_promises as (\<lambda>ps. k ((made_type f, p) # ps))))"

definition All_args :: "'o argument list \<Rightarrow> 'o prog" where
  "All_args as = to_promises as All"


text \<open>
  C++ leaves open in which order the arguments are turned into promises; the model goes from left to
  right.
\<close>

text \<open>An argument whose outcome is known: a settled promise, or a coroutine that computes it.\<close>

definition ready :: "'o store \<Rightarrow> 'o argument \<Rightarrow> cty \<times> outcome \<Rightarrow> bool" where
  "ready s a y \<longleftrightarrow> (case a of
     PromiseArg T p \<Rightarrow> T = fst y \<and> closed_at s p T (snd y)
   | CallableArg f \<Rightarrow> \<exists>as g. f = coroutine_fn (fst y) as g \<and> snd y = stored (fst y) (g []))"

lemma ready_keeps: "\<forall>p. keeps p s s' \<Longrightarrow> ready s a y \<Longrightarrow> ready s' a y"
  using keeps_allD(2) [of s s'] by (cases a) (fastforce simp: ready_def)+

lemma made_type_coroutine [simp]: "made_type (coroutine_fn T as g) = T"
proof -
  have "MakePromise_overload (coroutine_type T as) = MakeCoroutine"
    by (simp add: MakePromise_overload_def promise_defs function_constructible.simps)
  then show ?thesis by (simp add: made_type_def coroutine_fn_def promise_value_def promise_defs)
qed

lemma to_promises_run:
  assumes "list_all2 (ready s) as ys"
  shows "\<exists>s' ps. solo t s (Run c (bindP (to_promises as k) K) # fs) s' (Run c (bindP (k ps) K) # fs) \<and>
    map fst ps = map fst ys \<and> list_all2 (\<lambda>(T, p) x. closed_at s' p T x) ps (map snd ys) \<and> (\<forall>p. keeps p s s')"
  using assms
proof (induction as arbitrary: s ys k)
  case Nil
  then show ?case using solo_refl by fastforce
next
  case (Cons a as)
  obtain y ys' where ys: "ys = y # ys'" "ready s a y" "list_all2 (ready s) as ys'"
    using Cons.prems by (auto simp: list_all2_Cons1)
  show ?case
  proof (cases a)
    case (PromiseArg T p)
    have a: "T = fst y" "closed_at s p T (snd y)" using ys(2) by (auto simp: ready_def PromiseArg)
    obtain s' ps where s': "solo t s (Run c (bindP (to_promises as (\<lambda>ps. k ((T, p) # ps))) K) # fs) s' (Run c (bindP (k ((T, p) # ps)) K) # fs)"
      "map fst ps = map fst ys'" "list_all2 (\<lambda>(T, p) x. closed_at s' p T x) ps (map snd ys')" "\<forall>p. keeps p s s'"
      using Cons.IH [OF ys(3)] by blast
    then show ?thesis
      using keeps_allD(2) [OF s'(4) a(2)] a(1) by (intro exI [of _ s'] exI [of _ "(T, p) # ps"]) (simp add: PromiseArg ys(1))
  next
    case (CallableArg f)
    obtain bs g where f: "f = coroutine_fn (fst y) bs g" "snd y = stored (fst y) (g [])"
      using ys(2) by (auto simp: ready_def CallableArg)
    let ?K = "\<lambda>x. bindP (case x of Inl e \<Rightarrow> Throw e | Inr v \<Rightarrow>
        as_promise v (\<lambda>p. to_promises as (\<lambda>ps. k ((made_type f, p) # ps)))) K"
    obtain s1 n where s1: "solo t s (Run c (bindP (MakePromise f []) ?K) # fs) s1 (Run c (?K (Inr (VPromise n))) # fs)"
      "closed_at s1 n (fst y) (snd y)" "\<forall>p. keeps p s s1"
      using coroutine_fn_run [of t s c "fst y" bs g "[]" ?K fs] unfolding f by blast
    have "list_all2 (ready s1) as ys'"
      using ys(3) by (rule list_all2_mono) (rule ready_keeps [OF s1(3)])
    then obtain s2 ps where s2: "solo t s1 (Run c (bindP (to_promises as (\<lambda>ps. k ((made_type f, n) # ps))) K) # fs) s2
        (Run c (bindP (k ((made_type f, n) # ps)) K) # fs)"
      "map fst ps = map fst ys'" "list_all2 (\<lambda>(T, p) x. closed_at s2 p T x) ps (map snd ys')" "\<forall>p. keeps p s1 s2"
      using Cons.IH by blast
    have eq: "?K (Inr (VPromise n)) = bindP (to_promises as (\<lambda>ps. k ((made_type f, n) # ps))) K"
      by (simp add: as_promise_def)
    have "solo t s (Run c (bindP (to_promises (a # as) k) K) # fs) s2 (Run c (bindP (k ((made_type f, n) # ps)) K) # fs)"
      using solo_trans [OF s1(1) [unfolded eq] s2(1)] by (simp add: CallableArg thenP_def bindP_assoc)
    then show ?thesis
      using s2(2,3) keeps_allD(2) [OF s2(4) s1(2)] keeps_all_trans [OF s1(3) s2(4)]
      by (intro exI [of _ s2] exI [of _ "(made_type f, n) # ps"]) (simp add: ys(1) f(1))
  qed
qed

text \<open>
  All of promises and promise functions. Functions among the arguments are started; the promise
  that All returns has the tuple of the non-void values in the order of the arguments, or the
  exception of the first argument that is rejected, whether it was given as a promise or a function.
\<close>

theorem All_args_settled:
  assumes "list_all2 (ready s) as ys"
  shows "\<exists>s' q. solo t s (Run c (bindP (All_args as) K) # fs) s' (Run c (K (Inr (VPromise q))) # fs) \<and>
    outcome_of s' q = Some (gather_pack ys [])"
proof -
  obtain s1 ps where s1: "solo t s (Run c (bindP (All_args as) K) # fs) s1 (Run c (bindP (All ps) K) # fs)"
    "map fst ps = map fst ys" "list_all2 (\<lambda>(T, p) x. closed_at s1 p T x) ps (map snd ys)"
    using to_promises_run [OF assms, of t c All K fs] unfolding All_args_def by blast
  have "zip (map fst ps) (map snd ys) = ys" unfolding s1(2) by (simp add: zip_map_fst_snd)
  then show ?thesis using All_run [OF s1(3), of t c K fs] solo_trans [OF s1(1)] by auto
qed

subsection \<open>Awaiting a promise function\<close>

text \<open>\<^verbatim>\<open>await_transform\<close> makes the promise of a promise function; anything else is awaited as it is.\<close>

definition await_function :: "'o fn \<Rightarrow> (outcome \<Rightarrow> 'o prog) \<Rightarrow> 'o prog" where
  "await_function f k = thenP (WPromise_from f) (\<lambda>v. as_promise v (\<lambda>q. CoAwait q k))"

definition await_awaitable :: "pid \<Rightarrow> (outcome \<Rightarrow> 'o prog) \<Rightarrow> 'o prog" where
  "await_awaitable q k = CoAwait q k"

lemma await_function_run:
  "\<exists>s'. solo t s (Run (Coroutine q) (await_function (coroutine_fn T as g) k) # fs) s'
      (Run (Coroutine q) (k (stored T (g []))) # fs) \<and> (\<forall>p. keeps p s s')"
proof -
  let ?K = "\<lambda>x. case x of Inl e \<Rightarrow> Throw e | Inr v \<Rightarrow> as_promise v (\<lambda>q. CoAwait q k)"
  obtain s' n where s': "solo t s (Run (Coroutine q) (bindP (MakePromise (coroutine_fn T as g) []) ?K) # fs) s'
      (Run (Coroutine q) (?K (Inr (VPromise n))) # fs)" "closed_at s' n T (stored T (g []))" "\<forall>p. keeps p s s'"
    using coroutine_fn_run by blast
  have "?K (Inr (VPromise n)) = CoAwait n k" by (simp add: as_promise_def)
  then show ?thesis
    using solo_trans [OF s'(1)] CoAwait_rule [OF s'(2), of t q k fs] s'(3)
    unfolding await_function_def WPromise_from_def thenP_def by metis
qed


subsection \<open>The overloads for temporaries\<close>

text \<open>
  On a temporary the continuation is registered first and the promise is detached afterwards, so that
  it lives on without a handle.
\<close>

definition Catch_rvalue :: "(string \<Rightarrow> string \<Rightarrow> bool) \<Rightarrow> cty \<Rightarrow> pid \<Rightarrow> 'o fn \<Rightarrow> val list \<Rightarrow> 'o prog" where
  "Catch_rvalue isa T p f args = detaching p (Catch isa T p f args)"

definition Finally_rvalue :: "cty \<Rightarrow> pid \<Rightarrow> 'o fn \<Rightarrow> 'o prog" where
  "Finally_rvalue T p f = detaching p (Finally T p f)"

definition Race_rvalue :: "cty \<Rightarrow> pid \<Rightarrow> cty \<Rightarrow> pid \<Rightarrow> rid \<Rightarrow> jid \<Rightarrow> 'o prog" where
  "Race_rvalue T p T2 race r j = detaching p (Promise_Race T p T2 race r j)"

lemma WPromise_rvalue:
  "WPromise_Catch isa True T p f args = Catch_rvalue isa T p (normalise f) args"
  "WPromise_Finally True T p f = Finally_rvalue T p (normalise f)"
  "WPromise_Race True T p T2 race r j = Race_rvalue T p T2 race r j"
  by (simp_all add: WPromise_Catch_def WPromise_Finally_def WPromise_Race_def forward_self_def
      Catch_rvalue_def Finally_rvalue_def Race_rvalue_def)

subsection \<open>The type-erased interface\<close>

text \<open>
  A VPromise is what its two virtual functions do. \<^verbatim>\<open>ToPointer\<close> moves the promise into an object of
  that type; the awaitable that \<^verbatim>\<open>VAwait\<close> allocates holds the promise and gives no value.
\<close>

record 'o vpromise =
  v_await :: "(outcome \<Rightarrow> 'o prog) \<Rightarrow> 'o prog"
  v_detach :: "'o prog"

definition Promise_VAwait :: "pid \<Rightarrow> (outcome \<Rightarrow> 'o prog) \<Rightarrow> 'o prog" where
  "Promise_VAwait p k = VAwait p k"

definition ToPointer :: "pid \<Rightarrow> 'o vpromise" where
  "ToPointer p = \<lparr>v_await = VAwait p, v_detach = VDetach p\<rparr>"

text \<open>The details inherit from VPromise too, but may only be detached through their shared pointer.\<close>

definition Handle_VDetach :: "pid \<Rightarrow> 'o store \<Rightarrow> ('o store \<times> 'o frame list) result" where
  "Handle_VDetach p s = Fault (AssertFailed (A_client ''false''))"

definition IPromise_Detach :: "pid \<Rightarrow> 'o prog" where
  "IPromise_Detach p = callP (ODetach p) Return"

text \<open>Awaiting a settled promise of any type through the interface gives its exception or nothing.\<close>

lemma v_await_settled:
  assumes "closed_at s p T x"
  shows "solo t s (Run (Coroutine q) (v_await (ToPointer p) k) # fs) s
      (Run (Coroutine q) (k (case x of Inl e \<Rightarrow> Inl e | Inr v \<Rightarrow> Inr VVoid)) # fs)"
proof -
  have "map_sum id (\<lambda>_. VVoid) x = (case x of Inl e \<Rightarrow> Inl e | Inr v \<Rightarrow> Inr VVoid)" by (cases x) simp_all
  then show ?thesis
    using CoAwait_rule [OF assms, of t q "\<lambda>x. k (map_sum id (\<lambda>_. VVoid) x)" fs] by (simp add: ToPointer_def VAwait_def)
qed

subsection \<open>On concrete promises\<close>

theorem first_call_wins_witness:
  "\<exists>s'. solo 0 (fresh_store TInt) [Run Plain (bindP (settle_calls 0 0 [Inr (VInt 4), Inl (Exc ''E'' ''late''), Inr (VInt 5)] []) finish)] s'
     [Run Plain (Return (VVector [VBool True, VBool False, VBool False]))] \<and> outcome_of s' 0 = Some (Inr (VInt 4))"
proof -
  have "stored TInt (Inr (VInt 4)) = Inr (VInt 4)" by code_simp
  then show ?thesis
    using first_call_wins [OF fresh_store_open [of TInt], of 0 Plain "Inr (VInt 4)" "[Inl (Exc ''E'' ''late''), Inr (VInt 5)]" finish "[]"]
    by simp
qed


end
