(* ===== verification/Fluent.thy ===== *)
theory Fluent
  imports Nested
begin

text \<open>
  Chains of calls on temporaries, \<^verbatim>\<open>promise.Then(f).Catch(g).Finally(h)\<close>, of any length. Every call
  registers its callback and detaches the promise it was called on (details/WPromise.inl), so that
  the promises own themselves until they are settled. Each kind of call is an instance of the
  contract \<open>chaining\<close> of theory Laws, which is all that the proofs about chains use.
\<close>

subsection \<open>Chains of calls\<close>

type_synonym callback = "val list \<Rightarrow> outcome"

datatype link =
    ThenLink cty "cty list" callback "val list"
  | CatchLink "string \<Rightarrow> string \<Rightarrow> bool" cty "cty list" callback "val list"
  | FinallyLink callback

fun link_call :: "link \<Rightarrow> cty \<Rightarrow> pid \<Rightarrow> 'o prog" where
  "link_call (ThenLink R as g args) T p = WPromise_Then True T p (pure_fn (TCallable R as) g) args"
| "link_call (CatchLink isa R as g args) T p = WPromise_Catch isa True T p (pure_fn (TCallable R as) g) args"
| "link_call (FinallyLink g) T p = WPromise_Finally True T p (pure_fn (TCallable TVoid []) g)"

fun link_type :: "link \<Rightarrow> cty \<Rightarrow> cty" where
  "link_type (ThenLink R as g args) T = R"
| "link_type (CatchLink isa R as g args) T = catch_type T R"
| "link_type (FinallyLink g) T = T"

fun fluent :: "link list \<Rightarrow> cty \<Rightarrow> pid \<Rightarrow> 'o prog" where
  "fluent [] T p = Return (VPromise p)"
| "fluent (l # ls) T p = thenP (link_call l T p) (\<lambda>v. as_promise v (fluent ls (link_type l T)))"

text \<open>What the callbacks make of an outcome, one after the other.\<close>

fun link_result :: "link \<Rightarrow> cty \<Rightarrow> outcome \<Rightarrow> outcome" where
  "link_result (ThenLink R as g args) T x = then_result (TFunction R as) g args T x"
| "link_result (CatchLink isa R as g args) T x = catch_outcome isa (TFunction R as) g args T x"
| "link_result (FinallyLink g) T x = finally_outcome g T x"

fun fluent_type :: "link list \<Rightarrow> cty \<Rightarrow> cty" where
  "fluent_type [] T = T"
| "fluent_type (l # ls) T = fluent_type ls (link_type l T)"

fun fluent_result :: "link list \<Rightarrow> cty \<Rightarrow> outcome \<Rightarrow> outcome" where
  "fluent_result [] T x = x"
| "fluent_result (l # ls) T x = fluent_result ls (link_type l T) (link_result l T x)"

text \<open>The callbacks are plain: they do not return promises.\<close>

fun plain_link :: "link \<Rightarrow> bool" where
  "plain_link (ThenLink R as g args) \<longleftrightarrow> \<not> IsPromise R"
| "plain_link (CatchLink isa R as g args) \<longleftrightarrow> \<not> IsPromise R"
| "plain_link (FinallyLink g) \<longleftrightarrow> True"

subsection \<open>Every link obeys the contract of chaining\<close>

fun link_chain :: "link \<Rightarrow> cty \<Rightarrow> pid \<Rightarrow> 'o prog" where
  "link_chain (ThenLink R as g args) T p = ThenPlain T p (pure_fn (TFunction R as) g) args"
| "link_chain (CatchLink isa R as g args) T p = CatchPlain isa T p (pure_fn (TFunction R as) g) args"
| "link_chain (FinallyLink g) T p = Finally T p (pure_fn plain_callback g)"

fun link_awaiter :: "link \<Rightarrow> cty \<Rightarrow> pid \<Rightarrow> rid \<Rightarrow> jid \<Rightarrow> 'o prog" where
  "link_awaiter (ThenLink R as g args) T p = then_awaiter T p (pure_fn (TFunction R as) g) args"
| "link_awaiter (CatchLink isa R as g args) T p = catch_continuation isa T R p (pure_fn (TFunction R as) g) args"
| "link_awaiter (FinallyLink g) T p = finally_awaiter T p (pure_fn plain_callback g)"

lemma normalise_pure [simp]: "normalise (pure_fn (TCallable R as) g) = pure_fn (TFunction R as) g"
  by (simp add: pure_fn_def)

lemma return_or_void_function [simp]: "return_or_void_t (TFunction R as) = R"
  by (simp add: return_or_void_t_def)

lemma link_call_detaches: "plain_link l \<Longrightarrow> link_call l T p = detaching p (link_chain l T p)"
  by (cases l) (auto simp: WPromise_Then_def WPromise_Catch_def WPromise_Finally_def forward_self_def Then_def Catch_def
      promise_function_iff)

lemma link_eqs:
  "link_chain (ThenLink R as g args) = (\<lambda>T p. ThenPlain T p (pure_fn (TFunction R as) g) args)"
  "link_awaiter (ThenLink R as g args) = (\<lambda>T p. then_awaiter T p (pure_fn (TFunction R as) g) args)"
  "link_type (ThenLink R as g args) = (\<lambda>T. R)"
  "link_result (ThenLink R as g args) = then_result (TFunction R as) g args"
  "link_chain (CatchLink isa R as g args) = (\<lambda>T p. CatchPlain isa T p (pure_fn (TFunction R as) g) args)"
  "link_awaiter (CatchLink isa R as g args) = (\<lambda>T p. catch_continuation isa T R p (pure_fn (TFunction R as) g) args)"
  "link_type (CatchLink isa R as g args) = (\<lambda>T. catch_type T R)"
  "link_result (CatchLink isa R as g args) = catch_outcome isa (TFunction R as) g args"
  "link_chain (FinallyLink g) = (\<lambda>T p. Finally T p (pure_fn plain_callback g))"
  "link_awaiter (FinallyLink g) = (\<lambda>T p. finally_awaiter T p (pure_fn plain_callback g))"
  "link_type (FinallyLink g) = (\<lambda>T. T)"
  "link_result (FinallyLink g) = finally_outcome g"
  by (intro ext, simp)+

lemma link_chaining: "chaining (link_chain l) (link_awaiter l) (link_type l) (link_result l)"
proof (cases l)
  case (ThenLink R as g args)
  show ?thesis unfolding ThenLink link_eqs
    by (rule then_chain.chaining_axioms [of "TFunction R as", unfolded return_or_void_function])
next
  case (CatchLink isa R as g args)
  show ?thesis unfolding CatchLink link_eqs
    by (rule catch_chain.chaining_axioms [of isa "TFunction R as", unfolded return_or_void_function])
next
  case (FinallyLink g)
  show ?thesis unfolding FinallyLink link_eqs by (rule finally_chain.chaining_axioms)
qed

lemmas link_settled = chaining.settled [OF link_chaining]
lemmas link_pending = chaining.pending [OF link_chaining]
lemmas link_continuation = chaining.continuation [OF link_chaining]

subsection \<open>A chain of promises that wait for each other\<close>

text \<open>
  \<open>linked s p r j T ls qs\<close>: the promise \<open>p\<close> is pending, its only awaiter is the continuation of the first
  link, which settles the first promise of \<open>qs\<close>, and so on; the last promise has no awaiter.
\<close>

fun linked :: "'o store \<Rightarrow> pid \<Rightarrow> rid \<Rightarrow> jid \<Rightarrow> cty \<Rightarrow> link list \<Rightarrow> pid list \<Rightarrow> bool" where
  "linked s p r j T [] qs \<longleftrightarrow> open_at s p r j T [] \<and> qs = []"
| "linked s p r j T (l # ls) [] \<longleftrightarrow> False"
| "linked s p r j T (l # ls) (q # qs) \<longleftrightarrow> p \<notin> set (q # qs) \<and>
     (\<exists>rq jq i. open_at s p r j T [AFunction i (link_awaiter l T p rq jq)] \<and> linked s q rq jq (link_type l T) ls qs)"

lemma linked_keeps:
  "linked s p r j T ls qs \<Longrightarrow> keeps x s s' \<Longrightarrow> x \<notin> set (p # qs) \<Longrightarrow> linked s' p r j T ls qs"
proof (induction s p r j T ls qs rule: linked.induct)
  case (1 s p r j T qs)
  then show ?case using keepsD(1) [of x s s' p r j T "[]"] by auto
next
  case (3 s p r j T l ls q qs)
  obtain rq jq i where o: "open_at s p r j T [AFunction i (link_awaiter l T p rq jq)]" "linked s q rq jq (link_type l T) ls qs"
    using 3(2) by auto
  have "open_at s' p r j T [AFunction i (link_awaiter l T p rq jq)]" using keepsD(1) [OF 3(3) _ o(1)] 3(4) by auto
  moreover have "linked s' q rq jq (link_type l T) ls qs" using 3(1) o(2) 3(3,4) by auto
  ultimately show ?case using 3(2) by auto
qed simp

text \<open>Once the source is settled, its continuation runs the whole chain before it returns.\<close>

lemma linked_run:
  assumes "closed_at s p T x" "linked s q r j (link_type l T) ls qs"
  shows "\<exists>s'. solo t s (Run Plain (link_awaiter l T p r j) # fs) s' fs \<and>
    closed_at s' (last (q # qs)) (fluent_type (l # ls) T) (fluent_result (l # ls) T x)"
  using assms
proof (induction ls arbitrary: s l p T x q r j qs fs)
  case Nil
  then have o: "open_at s q r j (link_type l T) []" "qs = []" by auto
  obtain s1 where s1: "solo t s (Run Plain (link_awaiter l T p r j) # fs) s1 (Awaiters [] # Run Plain (Return VVoid) # fs)"
    "closed_at s1 q (link_type l T) (link_result l T x)"
    using link_continuation [OF Nil(1) o(1)] by blast
  have "solo t s1 (Run Plain (Return VVoid) # fs) s1 fs" by (rule solo_one) simp
  then show ?case using solo_trans [OF s1(1) solo_trans [OF solo_awaiters_nil]] s1(2) o(2) by auto
next
  case (Cons l2 ls)
  obtain q2 qs2 r2 j2 i where o: "open_at s q r j (link_type l T) [AFunction i (link_awaiter l2 (link_type l T) q r2 j2)]"
    "linked s q2 r2 j2 (link_type l2 (link_type l T)) ls qs2" "qs = q2 # qs2" "q \<notin> set (q2 # qs2)"
    using Cons.prems(2) by (cases qs) auto
  let ?fs = "Awaiters [] # Run Plain (Return VVoid) # fs"
  obtain s1 where s1: "solo t s (Run Plain (link_awaiter l T p r j) # fs) s1
      (Awaiters [AFunction i (link_awaiter l2 (link_type l T) q r2 j2)] # Run Plain (Return VVoid) # fs)"
    "closed_at s1 q (link_type l T) (link_result l T x)" "keeps q s s1"
    using link_continuation [OF Cons.prems(1) o(1)] by blast
  have "linked s1 q2 r2 j2 (link_type l2 (link_type l T)) ls qs2" using o(2) s1(3) o(4) by (rule linked_keeps)
  from Cons.IH [OF s1(2) this, of ?fs]
  obtain s2 where s2: "solo t s1 (Run Plain (link_awaiter l2 (link_type l T) q r2 j2) # ?fs) s2 ?fs"
    "closed_at s2 (last (q2 # qs2)) (fluent_type (l # l2 # ls) T) (fluent_result (l # l2 # ls) T x)"
    unfolding fluent_type.simps fluent_result.simps by blast
  have "solo t s2 (Run Plain (Return VVoid) # fs) s2 fs" by (rule solo_one) simp
  from solo_trans [OF solo_trans [OF solo_trans [OF s1(1) solo_awaiters_cons] s2(1)] solo_trans [OF solo_awaiters_nil this]]
  show ?case using s2(2) o(3) by auto
qed

subsection \<open>Calls on temporaries\<close>

lemma link_call_pending:
  assumes "open_at s p r j T []" "plain_link l"
  shows "\<exists>s' q rq jq i. solo t s (Run c (bindP (link_call l T p) K) # fs) s' (Run c (K (Inr (VPromise q))) # fs) \<and>
    open_at s' p r j T [AFunction i (link_awaiter l T p rq jq)] \<and> open_at s' q rq jq (link_type l T) [] \<and> q \<noteq> p \<and>
    (\<forall>p0 r0 j0 T0 as. p0 \<noteq> p \<longrightarrow> open_at s p0 r0 j0 T0 as \<longrightarrow> open_at s' p0 r0 j0 T0 as)"
proof -
  let ?K = "\<lambda>x. bindP (callP (ODetach p) (\<lambda>_. finish x)) K"
  obtain s1 q rq jq i where s1: "solo t s (Run c (bindP (link_chain l T p) ?K) # fs) s1 (Run c (?K (Inr (VPromise q))) # fs)"
    "open_at s1 p r j T [AFunction i (link_awaiter l T p rq jq)]" "open_at s1 q rq jq (link_type l T) []" "keeps p s s1" "q \<noteq> p"
    using link_pending [OF assms(1), of t c l ?K fs] unfolding append.simps by blast
  have "p < length (promises s1)" "p_readers (promises s1 ! p) = []" "IsDone s1 p = Next False"
    using s1(2) open_IsDone [OF s1(2)] by (simp_all add: open_at_def)
  then obtain s2 where s2: "solo t s1 (Run c (?K (Inr (VPromise q))) # fs) s2 (Run c (K (Inr (VPromise q))) # fs)"
    "\<forall>q r j T as. open_at s1 q r j T as \<longrightarrow> open_at s2 q r j T as"
    by (rule detach_bind)
  have "solo t s (Run c (bindP (link_call l T p) K) # fs) s2 (Run c (K (Inr (VPromise q))) # fs)"
    using solo_trans [OF s1(1) s2(1)] by (simp add: link_call_detaches [OF assms(2)] detaching_def bindP_assoc)
  moreover have "\<forall>p0 r0 j0 T0 as. p0 \<noteq> p \<longrightarrow> open_at s p0 r0 j0 T0 as \<longrightarrow> open_at s2 p0 r0 j0 T0 as"
    using s2(2) keepsD(1) [OF s1(4)] by blast
  ultimately show ?thesis using s2(2) s1(2,3,5) by blast
qed

lemma link_call_settled:
  assumes "closed_at s p T x" "plain_link l"
  shows "\<exists>s' q. solo t s (Run c (bindP (link_call l T p) K) # fs) s' (Run c (K (Inr (VPromise q))) # fs) \<and>
    closed_at s' q (link_type l T) (link_result l T x)"
proof -
  let ?K = "\<lambda>x. bindP (callP (ODetach p) (\<lambda>_. finish x)) K"
  obtain s1 q where s1: "solo t s (Run c (bindP (link_chain l T p) ?K) # fs) s1 (Run c (?K (Inr (VPromise q))) # fs)"
    "closed_at s1 q (link_type l T) (link_result l T x)" "\<forall>p. keeps p s s1"
    using link_settled [OF assms(1), of t c l ?K fs] by blast
  have "closed_at s1 p T x" using keepsD(2) [OF s1(3) [rule_format] assms(1)] .
  then obtain s2 where s2: "solo t s1 (Run c (?K (Inr (VPromise q))) # fs) s2 (Run c (K (Inr (VPromise q))) # fs)"
    "\<forall>q. keeps q s1 s2"
    by (rule detach_closed)
  have "solo t s (Run c (bindP (link_call l T p) K) # fs) s2 (Run c (K (Inr (VPromise q))) # fs)"
    using solo_trans [OF s1(1) s2(1)] by (simp add: link_call_detaches [OF assms(2)] detaching_def bindP_assoc)
  then show ?thesis using keepsD(2) [OF s2(2) [rule_format] s1(2)] by blast
qed

definition fluent_rest :: "link list \<Rightarrow> cty \<Rightarrow> (outcome \<Rightarrow> 'o prog) \<Rightarrow> outcome \<Rightarrow> 'o prog" where
  "fluent_rest ls T K x = bindP (case x of Inl e \<Rightarrow> Throw e | Inr v \<Rightarrow> as_promise v (fluent ls T)) K"

lemma fluent_Cons: "bindP (fluent (l # ls) T p) K = bindP (link_call l T p) (fluent_rest ls (link_type l T) K)"
  unfolding fluent.simps thenP_def bindP_assoc fluent_rest_def [abs_def] ..

lemma fluent_rest_promise [simp]: "fluent_rest ls T K (Inr (VPromise q)) = bindP (fluent ls T q) K"
  by (simp add: fluent_rest_def as_promise_def)

lemma fluent_settled:
  assumes "closed_at s p T x" "list_all plain_link ls"
  shows "\<exists>s' q. solo t s (Run c (bindP (fluent ls T p) K) # fs) s' (Run c (K (Inr (VPromise q))) # fs) \<and>
    closed_at s' q (fluent_type ls T) (fluent_result ls T x)"
  using assms
proof (induction ls arbitrary: s p T x)
  case Nil
  then show ?case using solo_refl by fastforce
next
  case (Cons l ls)
  have l: "plain_link l" "list_all plain_link ls" using Cons.prems(2) by simp_all
  obtain s1 q where s1: "solo t s (Run c (bindP (fluent (l # ls) T p) K) # fs) s1 (Run c (bindP (fluent ls (link_type l T) q) K) # fs)"
    "closed_at s1 q (link_type l T) (link_result l T x)"
    using link_call_settled [OF Cons.prems(1) l(1), of t c "fluent_rest ls (link_type l T) K" fs] unfolding fluent_Cons fluent_rest_promise by blast
  obtain s2 q2 where "solo t s1 (Run c (bindP (fluent ls (link_type l T) q) K) # fs) s2 (Run c (K (Inr (VPromise q2))) # fs)"
    "closed_at s2 q2 (fluent_type (l # ls) T) (fluent_result (l # ls) T x)"
    using Cons.IH [OF s1(2) l(2)] unfolding fluent_type.simps fluent_result.simps by blast
  then show ?case using solo_trans [OF s1(1)] by blast
qed

lemma open_unique: "open_at s p r j T as \<Longrightarrow> open_at s p r' j' T' as' \<Longrightarrow> as' = as"
  by (simp add: open_at_def)

lemma fluent_pending:
  assumes "open_at s p r j T []" "list_all plain_link ls"
  shows "\<exists>s' qs. solo t s (Run c (bindP (fluent ls T p) K) # fs) s' (Run c (K (Inr (VPromise (last (p # qs))))) # fs) \<and>
    linked s' p r j T ls qs \<and>
    (\<forall>p0 r0 j0 T0 a as. p0 \<noteq> p \<longrightarrow> open_at s p0 r0 j0 T0 (a # as) \<longrightarrow> p0 \<notin> set qs \<and> open_at s' p0 r0 j0 T0 (a # as))"
  using assms
proof (induction ls arbitrary: s p r j T)
  case Nil
  then show ?case by (intro exI [of _ s] exI [of _ "[]"]) (simp add: solo_refl)
next
  case (Cons l ls)
  have l: "plain_link l" "list_all plain_link ls" using Cons.prems(2) by simp_all
  obtain s1 q rq jq i where s1: "solo t s (Run c (bindP (fluent (l # ls) T p) K) # fs) s1 (Run c (bindP (fluent ls (link_type l T) q) K) # fs)"
    "open_at s1 p r j T [AFunction i (link_awaiter l T p rq jq)]" "open_at s1 q rq jq (link_type l T) []" "q \<noteq> p"
    "\<forall>p0 r0 j0 T0 as. p0 \<noteq> p \<longrightarrow> open_at s p0 r0 j0 T0 as \<longrightarrow> open_at s1 p0 r0 j0 T0 as"
    using link_call_pending [OF Cons.prems(1) l(1), of t c "fluent_rest ls (link_type l T) K" fs] unfolding fluent_Cons fluent_rest_promise by blast
  obtain s2 qs where s2: "solo t s1 (Run c (bindP (fluent ls (link_type l T) q) K) # fs) s2 (Run c (K (Inr (VPromise (last (q # qs))))) # fs)"
    "linked s2 q rq jq (link_type l T) ls qs"
    "\<And>p0 r0 j0 T0 a as. p0 \<noteq> q \<Longrightarrow> open_at s1 p0 r0 j0 T0 (a # as) \<Longrightarrow> p0 \<notin> set qs \<and> open_at s2 p0 r0 j0 T0 (a # as)"
    using Cons.IH [OF s1(3) l(2)] by blast
  have link: "linked s2 p r j T (l # ls) (q # qs)" using s2(2) s2(3) [OF s1(4) [symmetric] s1(2)] s1(4) by auto
  have other: "p0 \<notin> set (q # qs) \<and> open_at s2 p0 r0 j0 T0 (a # as)" if "p0 \<noteq> p" "open_at s p0 r0 j0 T0 (a # as)" for p0 r0 j0 T0 a as
  proof -
    have o: "open_at s1 p0 r0 j0 T0 (a # as)" using s1(5) that by blast
    have "p0 \<noteq> q" using open_unique [OF s1(3)] o by auto
    with s2(3) [OF this o] show ?thesis by simp
  qed
  show ?case using solo_trans [OF s1(1) s2(1)] link other
    by (intro exI [of _ s2] exI [of _ "q # qs"]) simp
qed

lemma linked_settle:
  assumes "linked s p r j T ls qs"
  shows "\<exists>s'. solo t s (Run c (bindP (callP (settle_op r j x) Return) K) # fs) s' (Run c (K (Inr (VBool True))) # fs) \<and>
    closed_at s' (last (p # qs)) (fluent_type ls T) (fluent_result ls T (stored T x))"
proof (cases ls)
  case Nil
  then have o: "open_at s p r j T []" "qs = []" using assms by auto
  obtain s1 where "solo t s (Run c (bindP (callP (settle_op r j x) Return) K) # fs) s1 (Awaiters [] # Run c (bindP (Return (VBool True)) K) # fs)"
    "closed_at s1 p T (stored T x)" using o(1) by (rule settle_bind)
  then have "solo t s (Run c (bindP (callP (settle_op r j x) Return) K) # fs) s1 (Run c (bindP (Return (VBool True)) K) # fs)"
    "closed_at s1 p T (stored T x)" using solo_trans solo_awaiters_nil by blast+
  then show ?thesis using Nil o(2) by auto
next
  case (Cons l ls')
  obtain q qs' rq jq i where o: "open_at s p r j T [AFunction i (link_awaiter l T p rq jq)]" "linked s q rq jq (link_type l T) ls' qs'"
    "qs = q # qs'" "p \<notin> set (q # qs')"
    using assms Cons by (cases qs) auto
  let ?fs = "Run c (bindP (Return (VBool True)) K) # fs"
  obtain s1 where s1: "solo t s (Run c (bindP (callP (settle_op r j x) Return) K) # fs) s1 (Awaiters [AFunction i (link_awaiter l T p rq jq)] # ?fs)"
    "closed_at s1 p T (stored T x)" "keeps p s s1" using o(1) by (rule settle_bind)
  have "linked s1 q rq jq (link_type l T) ls' qs'" using o(2) s1(3) o(4) by (rule linked_keeps)
  from linked_run [OF s1(2) this, of t "Awaiters [] # ?fs"]
  obtain s2 where s2: "solo t s1 (Run Plain (link_awaiter l T p rq jq) # Awaiters [] # ?fs) s2 (Awaiters [] # ?fs)"
    "closed_at s2 (last (q # qs')) (fluent_type ls T) (fluent_result ls T (stored T x))"
    unfolding Cons by blast
  from solo_trans [OF solo_trans [OF solo_trans [OF s1(1) solo_awaiters_cons] s2(1)] solo_awaiters_nil]
  show ?thesis using s2(2) o(3) by auto
qed

lemma linked_pending: "linked s p r j T ls qs \<Longrightarrow> outcome_of s (last (p # qs)) = None"
proof (induction s p r j T ls qs rule: linked.induct)
  case (1 s p r j T qs)
  then show ?case using open_outcome by auto
next
  case (3 s p r j T l ls q qs)
  then show ?case by auto
qed simp

text \<open>
  C4. Chains of calls. However many calls of Then, Catch and Finally are chained on temporaries, the
  chain on a pending promise returns a pending promise at once; the one call that settles the source,
  on any thread, runs all callbacks before it returns, and the last promise has the outcome that the
  callbacks make of the source's, one after the other. A chain on a settled promise gives the same.
\<close>

theorem fluent_chain:
  fixes s :: "'o store"
  assumes "open_at s p r j T []" "list_all plain_link ls"
  shows "(\<exists>s1 q. solo t s (Run c (bindP (fluent ls T p) K) # fs) s1 (Run c (K (Inr (VPromise q))) # fs) \<and>
      outcome_of s1 q = None \<and>
      (\<forall>t' c' (K' :: outcome \<Rightarrow> 'o prog) fs' x. \<exists>s2.
        solo t' s1 (Run c' (bindP (callP (settle_op r j x) Return) K') # fs') s2 (Run c' (K' (Inr (VBool True))) # fs') \<and>
        outcome_of s2 q = Some (fluent_result ls T (stored T x)))) \<and>
    (\<exists>s2 q. solo t s (Run c (bindP (callP (settle_op r j x) (\<lambda>_. fluent ls T p)) K) # fs) s2
        (Run c (K (Inr (VPromise q))) # fs) \<and>
      outcome_of s2 q = Some (fluent_result ls T (stored T x)))"
proof (rule conjI)
  obtain s1 qs where s1: "solo t s (Run c (bindP (fluent ls T p) K) # fs) s1 (Run c (K (Inr (VPromise (last (p # qs))))) # fs)"
    "linked s1 p r j T ls qs" using fluent_pending [OF assms] by blast
  then show "\<exists>s1 q. solo t s (Run c (bindP (fluent ls T p) K) # fs) s1 (Run c (K (Inr (VPromise q))) # fs) \<and>
      outcome_of s1 q = None \<and>
      (\<forall>t' c' (K' :: outcome \<Rightarrow> 'o prog) fs' x. \<exists>s2.
        solo t' s1 (Run c' (bindP (callP (settle_op r j x) Return) K') # fs') s2 (Run c' (K' (Inr (VBool True))) # fs') \<and>
        outcome_of s2 q = Some (fluent_result ls T (stored T x)))"
    using linked_pending [OF s1(2)] linked_settle [OF s1(2)] closed_outcome by meson
next
  obtain s1 where s1: "solo t s (Run c (bindP (callP (settle_op r j x) (\<lambda>_. fluent ls T p)) K) # fs) s1
      (Awaiters [] # Run c (bindP (fluent ls T p) K) # fs)" "closed_at s1 p T (stored T x)"
    using assms(1) by (rule settle_bind)
  obtain s2 q where "solo t s1 (Run c (bindP (fluent ls T p) K) # fs) s2 (Run c (K (Inr (VPromise q))) # fs)"
    "closed_at s2 q (fluent_type ls T) (fluent_result ls T (stored T x))"
    using fluent_settled [OF s1(2) assms(2)] by blast
  then show "\<exists>s2 q. solo t s (Run c (bindP (callP (settle_op r j x) (\<lambda>_. fluent ls T p)) K) # fs) s2
        (Run c (K (Inr (VPromise q))) # fs) \<and>
      outcome_of s2 q = Some (fluent_result ls T (stored T x))"
    using solo_trans [OF solo_trans [OF s1(1) solo_awaiters_nil]] closed_outcome by blast
qed


subsection \<open>A chain of three calls\<close>

definition fail_odd :: "val list \<Rightarrow> outcome" where
  "fail_odd vs = (case vs of VInt i # _ \<Rightarrow> if odd i then Inl (Exc ''E'' ''odd'') else Inr (VInt (i div 2)) | _ \<Rightarrow> Inr VVoid)"

definition halving :: "link list" where
  "halving = [ThenLink TInt [TInt] fail_odd [],
     CatchLink (=) TInt [TNamed ''E''] (\<lambda>_. Inr (VInt 0)) [],
     FinallyLink (\<lambda>_. Inr VVoid)]"

theorem fluent_chain_witness:
  "\<exists>s1 q s2 s3. solo 0 (fresh_store TInt) [Run Plain (bindP (fluent halving TInt 0) finish)] s1 [Run Plain (Return (VPromise q))] \<and>
     solo 1 s1 [Run Plain (bindP (callP (settle_op 0 0 (Inr (VInt 8))) Return) finish)] s2 [Run Plain (Return (VBool True))] \<and>
     outcome_of s2 q = Some (Inr (VInt 4)) \<and>
     solo 2 s1 [Run Plain (bindP (callP (settle_op 0 0 (Inr (VInt 7))) Return) finish)] s3 [Run Plain (Return (VBool True))] \<and>
     outcome_of s3 q = Some (Inr (VInt 0))"
proof -
  have plain: "list_all plain_link halving" by code_simp
  have v: "fluent_result halving TInt (stored TInt (Inr (VInt 8))) = Inr (VInt 4)"
    "fluent_result halving TInt (stored TInt (Inr (VInt 7))) = Inr (VInt 0)" by code_simp+
  obtain s1 q where s1: "solo 0 (fresh_store TInt) [Run Plain (bindP (fluent halving TInt 0) finish)] s1 [Run Plain (finish (Inr (VPromise q)))]"
    "\<forall>t' c' (K' :: outcome \<Rightarrow> unit prog) fs' x. \<exists>s2.
        solo t' s1 (Run c' (bindP (callP (settle_op 0 0 x) Return) K') # fs') s2 (Run c' (K' (Inr (VBool True))) # fs') \<and>
        outcome_of s2 q = Some (fluent_result halving TInt (stored TInt x))"
    using fluent_chain [OF fresh_store_open [of TInt] plain, of 0 Plain finish "[]"] by blast
  from s1(2) [rule_format, of 1 Plain "Inr (VInt 8)" finish "[]"] s1(2) [rule_format, of 2 Plain "Inr (VInt 7)" finish "[]"] s1(1)
  show ?thesis unfolding v finish.simps by blast
qed

end
