(* ===== verification/Condition.thy ===== *)
theory Condition
  imports Nested Signals
begin

text \<open>
  Waiting on a \<^verbatim>\<open>CVPromise\<close> with a lock: \<^verbatim>\<open>CVPromise::Wait(LockGuard&)\<close> (src/CVPromise.cpp) together
  with \<^verbatim>\<open>LockGuard\<close>, \<^verbatim>\<open>Mutex\<close> (src/Mutex.cpp) and Then with a promise function. Wait unlocks the guard
  and chains a coroutine that locks it again; the theory follows the guard, the mutex and the promise
  that Wait returned until Notify or Reject is called.
\<close>

subsection \<open>Unlocking a guard\<close>





subsection \<open>Locking again\<close>


subsection \<open>Waiting with a lock\<close>










subsection \<open>A concrete condition variable and lock\<close>



end
