(* ===== verification/SignalOrder.thy ===== *)
theory SignalOrder
  imports Signals
begin

text \<open>
  Wait, Notify and Reject of any number of threads on one \<^verbatim>\<open>CVPromise\<close>, with their atomic sections
  interleaved in any order. A call of Notify or Reject (src/CVPromise.cpp, include/promise/CVPromise.h)
  is followed through its sections: it creates a promise, exchanges it and its handles for the members
  under the mutex, settles the old promise through the old handle and asserts that it is done. A call
  of Wait copies the member. The sections are the operations of the machine on the store; the steps of
  everything else are covered by \<open>signal_other\<close>: they may do what they like with other objects and
  promises and may await these promises, but not settle them, as their handles are private. The
  flag and the store of a handle's call are one step. The destructor is not among the calls: it must
  not run while others use the object. What the steps have to do with signals and waiters is said by
  \<open>board_step\<close>.
\<close>

subsection \<open>The specification\<close>



subsection \<open>The calls\<close>




definition armed :: "objs store \<Rightarrow> pid \<Rightarrow> rid \<Rightarrow> jid \<Rightarrow> bool" where
  "armed s p r j \<longleftrightarrow> (\<exists>as. open_at s p r j TVoid as)"

definition settled_to :: "objs store \<Rightarrow> pid \<Rightarrow> outcome \<Rightarrow> bool" where
  "settled_to s p x \<longleftrightarrow> (\<exists>rs. held_at s p TVoid x rs)"








subsection \<open>The invariant\<close>



lemma armed_not_settled: "armed s p r j \<Longrightarrow> \<not> settled_to s p x"
  using open_not_closed unfolding armed_def settled_to_def by blast

lemma armed_objects [simp]: "armed (s\<lparr>objects := b\<rparr>) p r j = armed s p r j"
  "settled_to (s\<lparr>objects := b\<rparr>) p x = settled_to s p x"
  by (simp_all add: armed_def settled_to_def)





subsection \<open>The steps keep the invariant and follow the board\<close>













subsection \<open>What a waiter gets\<close>







subsection \<open>One waiter and one Notify\<close>









end
