(* ===== verification/LockOrder.thy ===== *)
theory LockOrder
  imports Locks
begin

text \<open>
  Lock and UnLock of any number of callers on one mutex, with their atomic sections interleaved in
  any order. A call of \<^verbatim>\<open>Mutex::Lock\<close> (src/Mutex.cpp) is followed through the sections of its
  coroutine: it creates a promise, exchanges it for \<^verbatim>\<open>promise_\<close>, waits until the promise it got
  is done and stores its resolve handle; the UnLock that ends the critical section takes the handle
  out and resolves it. The sections are the operations of the machine on the store. The steps of
  everything else are covered by \<open>lock_other\<close>: they may do what they like with other objects and
  may await the promises of the mutex, but not resolve them, as their resolvers are private to the
  mutex and its callers. What the steps have to do with a queue is said by \<open>fifo_step\<close>.
\<close>

subsection \<open>The specification\<close>

datatype stage = Waiting | Holding | Releasing | Released | Failed


inductive next_stage :: "stage \<Rightarrow> stage \<Rightarrow> bool" where
  acquire: "next_stage Waiting Holding"
| take: "next_stage Holding Releasing"
| release: "next_stage Releasing Released"

inductive_simps next_stage_simps [simp]:
  "next_stage Waiting b" "next_stage Holding b" "next_stage Releasing b" "next_stage Released b"












subsection \<open>The calls\<close>



definition opened :: "objs store \<Rightarrow> pid \<Rightarrow> rid \<Rightarrow> bool" where
  "opened s p r \<longleftrightarrow> (\<exists>j as. open_at s p r j TVoid as)"

definition fulfilled :: "objs store \<Rightarrow> pid \<Rightarrow> bool" where
  "fulfilled s p \<longleftrightarrow> (\<exists>rs. held_at s p TVoid (Inr VVoid) rs)"








lemma opened_objects [simp]: "opened (s\<lparr>objects := b\<rparr>) p r = opened s p r"
  "fulfilled (s\<lparr>objects := b\<rparr>) p = fulfilled s p"
  by (simp_all add: opened_def fulfilled_def)




subsection \<open>The steps keep the invariant and follow the queue\<close>

















subsection \<open>One caller\<close>









end
