(* ===== verification/Guards.thy ===== *)
theory Guards
  imports Locks
begin

text \<open>
  Moving lock guards (LockGuard in src/Mutex.cpp): ownership of the mutex is handed over with the
  guard and released once.
\<close>

lemma empty_guard_bind:
  assumes "guards (objects s) ! g = \<lparr>lg_own_lock = own, lg_mutex = None\<rparr>" "f own None = k"
  shows "solo t s (Run c (bindP (with_guard g f) K) # fs) s (Run c (bindP k K) # fs)"
  unfolding with_guard_def
  by (rule solo_bind_callP0, simp add: ret_def assms(1), simp, simp add: assms opt_val_def)

lemma empty_guard_destroy:
  assumes "guards (objects s) ! g = \<lparr>lg_own_lock = False, lg_mutex = None\<rparr>"
  shows "solo t s (Run c (bindP (LockGuard_destroy g) K) # fs) s (Run c (K (Inr VVoid)) # fs)"
  using empty_guard_bind [OF assms, of _ "Return VVoid"] unfolding LockGuard_destroy_def release_if_owned_def by simp

lemma owning_guard_releases:
  assumes "mutex_held s m p' r" "open_at s p r j TVoid []"
    "guards (objects s) ! g = \<lparr>lg_own_lock = True, lg_mutex = Some m\<rparr>"
  obtains s' where "solo t s (Run c (bindP (release_if_owned g) K) # fs) s' (Run c (K (Inr VVoid)) # fs)"
    "objects s' = upd_mutex m (\<lambda>x. x\<lparr>mx_resolve := None\<rparr>) (objects s)" "outcome_of s' p = Some (Inr VVoid)" "moves p s s'"
proof -
  obtain s' where s': "solo t s (Run c (bindP (Mutex_UnLock m) K) # fs) s' (Awaiters [] # Run c (K (Inr VVoid)) # fs)"
    "closed_at s' p TVoid (Inr VVoid)" "objects s' = upd_mutex m (\<lambda>x. x\<lparr>mx_resolve := None\<rparr>) (objects s)" "moves p s s'"
    using assms(1,2) by (rule UnLock_run)
  have "solo t s (Run c (bindP (release_if_owned g) K) # fs) s (Run c (bindP (Mutex_UnLock m) K) # fs)"
    unfolding release_if_owned_def by (rule with_guard_bind [OF assms(3)]) simp
  also note s'(1)
  also note solo_awaiters_nil
  finally show thesis using s'(3) closed_outcome [OF s'(2)] s'(4) by (rule that)
qed

lemma guard_upd_other [simp]: "h \<noteq> g \<Longrightarrow> guards (upd_guard g f b) ! h = guards b ! h"
  by (simp add: upd_guard_def)

lemma mutex_upd_other [simp]: "m' \<noteq> m \<Longrightarrow> mutexes (upd_mutex m f b) ! m' = mutexes b ! m'"
  by (simp add: upd_mutex_def)

lemma move_new_run:
  assumes "g < length (guards (objects s))"
  obtains s1 h where "solo t s (Run c (bindP (LockGuard_move_new g) K) # fs) s1 (Run c (K (Inr (VNamed ''LockGuard'' h))) # fs)"
    "guards (objects s1) ! g = \<lparr>lg_own_lock = False, lg_mutex = None\<rparr>" "guards (objects s1) ! h = guards (objects s) ! g"
    "mutexes (objects s1) = mutexes (objects s)" "\<And>p r j T as. open_at s p r j T as \<Longrightarrow> open_at s1 p r j T as"
proof -
  let ?b = "objects s"
  let ?h = "length (guards ?b)"
  let ?s = "s\<lparr>objects := upd_guard g (\<lambda>_. \<lparr>lg_own_lock = False, lg_mutex = None\<rparr>) (?b\<lparr>guards := guards ?b @ [guards ?b ! g]\<rparr>)\<rparr>"
  have "solo t s (Run c (bindP (LockGuard_move_new g) K) # fs) ?s (Run c (bindP (Return (VNamed ''LockGuard'' ?h)) K) # fs)"
    unfolding LockGuard_move_new_def
    using Atomic_bind [of t s c "\<lambda>b. (upd_guard g (\<lambda>_. \<lparr>lg_own_lock = False, lg_mutex = None\<rparr>)
        (b\<lparr>guards := guards b @ [guards b ! g]\<rparr>), VNamed ''LockGuard'' (length (guards b)))" Return K fs] by simp
  then have run: "solo t s (Run c (bindP (LockGuard_move_new g) K) # fs) ?s (Run c (K (Inr (VNamed ''LockGuard'' ?h))) # fs)" by simp
  show thesis by (rule that [OF run]) (use assms in \<open>simp_all add: open_at_def\<close>)
qed

lemma move_assign_run:
  assumes ne: "g \<noteq> h" "g < length (guards (objects s))" "h < length (guards (objects s))"
    and rel: "solo t s (Run c (bindP (release_if_owned h) (\<lambda>x. bindP (case x of Inl e \<Rightarrow> Throw e | Inr v \<Rightarrow> callP (OAtomic (\<lambda>b.
        (upd_guard g (\<lambda>_. \<lparr>lg_own_lock = False, lg_mutex = None\<rparr>) (upd_guard h (\<lambda>_. guards b ! g) b), VVoid))) Return) K)) # fs) s1
      (Run c (bindP (callP (OAtomic (\<lambda>b. (upd_guard g (\<lambda>_. \<lparr>lg_own_lock = False, lg_mutex = None\<rparr>)
        (upd_guard h (\<lambda>_. guards b ! g) b), VVoid))) Return) K) # fs)"
  shows "solo t s (Run c (bindP (LockGuard_move_assign h g) K) # fs)
      (s1\<lparr>objects := upd_guard g (\<lambda>_. \<lparr>lg_own_lock = False, lg_mutex = None\<rparr>) (upd_guard h (\<lambda>_. guards (objects s1) ! g) (objects s1))\<rparr>)
      (Run c (K (Inr VVoid)) # fs)"
proof -
  have "bindP (LockGuard_move_assign h g) K = bindP (release_if_owned h) (\<lambda>x. bindP (case x of Inl e \<Rightarrow> Throw e | Inr v \<Rightarrow> callP (OAtomic (\<lambda>b.
        (upd_guard g (\<lambda>_. \<lparr>lg_own_lock = False, lg_mutex = None\<rparr>) (upd_guard h (\<lambda>_. guards b ! g) b), VVoid))) Return) K)"
    using ne(1) by (simp add: LockGuard_move_assign_def thenP_def bindP_assoc)
  with rel have "solo t s (Run c (bindP (LockGuard_move_assign h g) K) # fs) s1
      (Run c (bindP (callP (OAtomic (\<lambda>b. (upd_guard g (\<lambda>_. \<lparr>lg_own_lock = False, lg_mutex = None\<rparr>)
        (upd_guard h (\<lambda>_. guards b ! g) b), VVoid))) Return) K) # fs)" by simp
  also note Atomic_bind
  finally show ?thesis by simp
qed

text \<open>
  C32. Moving guards. An owning guard that is moved from by construction no longer unlocks anything
  when it is destroyed, and the new guard unlocks the mutex when it is. Assigning a guard to itself
  does nothing; assigning it to a guard that owns another mutex first unlocks that mutex and then
  hands this one over, still held.
\<close>

theorem moved_guard_releases_once:
  assumes m: "mutex_held s m p' r" "open_at s p r j TVoid []"
    "g < length (guards (objects s))" "guards (objects s) ! g = \<lparr>lg_own_lock = True, lg_mutex = Some m\<rparr>"
    and n: "mutex_held s n q' u" "open_at s q u v TVoid []" "n \<noteq> m"
    "h < length (guards (objects s))" "guards (objects s) ! h = \<lparr>lg_own_lock = True, lg_mutex = Some n\<rparr>"
  shows "(\<exists>s1 k s2. solo t s (Run c (bindP (LockGuard_move_new g) K) # fs) s1 (Run c (K (Inr (VNamed ''LockGuard'' k))) # fs) \<and>
      solo t s1 (Run c (bindP (LockGuard_destroy g) K) # fs) s1 (Run c (K (Inr VVoid)) # fs) \<and>
      mutex_held s1 m p' r \<and>
      solo t s1 (Run c (bindP (LockGuard_destroy k) K) # fs) s2 (Run c (K (Inr VVoid)) # fs) \<and>
      mx_resolve (mutexes (objects s2) ! m) = None) \<and>
    solo t s (Run c (bindP (LockGuard_move_assign g g) K) # fs) s (Run c (K (Inr VVoid)) # fs) \<and>
    (\<exists>s1. solo t s (Run c (bindP (LockGuard_move_assign h g) K) # fs) s1 (Run c (K (Inr VVoid)) # fs) \<and>
      mx_resolve (mutexes (objects s1) ! n) = None \<and> mutex_held s1 m p' r \<and>
      guards (objects s1) ! h = \<lparr>lg_own_lock = True, lg_mutex = Some m\<rparr> \<and>
      guards (objects s1) ! g = \<lparr>lg_own_lock = False, lg_mutex = None\<rparr>)"
proof (intro conjI)
  obtain s1 k where s1: "solo t s (Run c (bindP (LockGuard_move_new g) K) # fs) s1 (Run c (K (Inr (VNamed ''LockGuard'' k))) # fs)"
    "guards (objects s1) ! g = \<lparr>lg_own_lock = False, lg_mutex = None\<rparr>" "guards (objects s1) ! k = guards (objects s) ! g"
    "mutexes (objects s1) = mutexes (objects s)" "\<And>p r j T as. open_at s p r j T as \<Longrightarrow> open_at s1 p r j T as"
    using m(3) by (rule move_new_run [where t = t and c = c and K = K and fs = fs], intro that)
  have held: "mutex_held s1 m p' r" using m(1) s1(4) by (simp add: mutex_held_def)
  obtain s2 where s2: "solo t s1 (Run c (bindP (release_if_owned k) K) # fs) s2 (Run c (K (Inr VVoid)) # fs)"
    "objects s2 = upd_mutex m (\<lambda>x. x\<lparr>mx_resolve := None\<rparr>) (objects s1)"
    using owning_guard_releases [OF held s1(5) [OF m(2)] s1(3) [unfolded m(4)], of t c K fs] by blast
  then have "mx_resolve (mutexes (objects s2) ! m) = None" using held by (simp add: mutex_held_def)
  with s1(1) empty_guard_destroy [OF s1(2)] held s2(1) [folded LockGuard_destroy_def]
  show "\<exists>s1 k s2. solo t s (Run c (bindP (LockGuard_move_new g) K) # fs) s1 (Run c (K (Inr (VNamed ''LockGuard'' k))) # fs) \<and>
      solo t s1 (Run c (bindP (LockGuard_destroy g) K) # fs) s1 (Run c (K (Inr VVoid)) # fs) \<and> mutex_held s1 m p' r \<and>
      solo t s1 (Run c (bindP (LockGuard_destroy k) K) # fs) s2 (Run c (K (Inr VVoid)) # fs) \<and>
      mx_resolve (mutexes (objects s2) ! m) = None"
    by (intro exI [of _ s1] exI [of _ k] exI [of _ s2] conjI)
  show "solo t s (Run c (bindP (LockGuard_move_assign g g) K) # fs) s (Run c (K (Inr VVoid)) # fs)"
    by (simp add: LockGuard_move_assign_def solo_refl)
  have gh: "g \<noteq> h" using m(4) n(3,5) by auto
  let ?K = "\<lambda>x. bindP (case x of Inl e \<Rightarrow> Throw e | Inr v \<Rightarrow> callP (OAtomic (\<lambda>b.
        (upd_guard g (\<lambda>_. \<lparr>lg_own_lock = False, lg_mutex = None\<rparr>) (upd_guard h (\<lambda>_. guards b ! g) b), VVoid))) Return) K"
  obtain s3 where s3: "solo t s (Run c (bindP (release_if_owned h) ?K) # fs) s3 (Run c (?K (Inr VVoid)) # fs)"
    "objects s3 = upd_mutex n (\<lambda>x. x\<lparr>mx_resolve := None\<rparr>) (objects s)"
    using owning_guard_releases [OF n(1,2,5), of t c ?K fs] by blast
  note run = move_assign_run [OF gh m(3) n(4) s3(1) [unfolded sum.case]]
  show "\<exists>s1. solo t s (Run c (bindP (LockGuard_move_assign h g) K) # fs) s1 (Run c (K (Inr VVoid)) # fs) \<and>
      mx_resolve (mutexes (objects s1) ! n) = None \<and> mutex_held s1 m p' r \<and>
      guards (objects s1) ! h = \<lparr>lg_own_lock = True, lg_mutex = Some m\<rparr> \<and>
      guards (objects s1) ! g = \<lparr>lg_own_lock = False, lg_mutex = None\<rparr>"
    by (rule exI, rule conjI [OF run]) (use gh m n in \<open>auto simp: s3(2) mutex_held_def\<close>)
qed

subsection \<open>Two guards\<close>

definition guarded_objs :: objs where
  "guarded_objs = no_objs\<lparr>
     mutexes := [\<lparr>mx_promise = 0, mx_resolve = Some 0\<rparr>, \<lparr>mx_promise = Suc 0, mx_resolve = Some (Suc 0)\<rparr>],
     guards := [\<lparr>lg_own_lock = True, lg_mutex = Some 0\<rparr>, \<lparr>lg_own_lock = True, lg_mutex = Some (Suc 0)\<rparr>]\<rparr>"

definition guarded_store :: "objs store" where
  "guarded_store = snd (snd (snd (Promise_Create TVoid (snd (snd (snd (Promise_Create TVoid (empty_store guarded_objs))))))))"

theorem moved_guard_releases_once_witness:
  "\<exists>s1. solo 0 guarded_store [Run Plain (bindP (LockGuard_move_assign (Suc 0) 0) finish)] s1 [Run Plain (Return VVoid)] \<and>
     mx_resolve (mutexes (objects s1) ! Suc 0) = None \<and> mutex_held s1 0 0 0 \<and>
     guards (objects s1) ! Suc 0 = \<lparr>lg_own_lock = True, lg_mutex = Some 0\<rparr>"
proof -
  have "mutex_held guarded_store 0 0 0" "open_at guarded_store 0 0 0 TVoid []"
    "0 < length (guards (objects guarded_store))" "guards (objects guarded_store) ! 0 = \<lparr>lg_own_lock = True, lg_mutex = Some 0\<rparr>"
    "mutex_held guarded_store (Suc 0) (Suc 0) (Suc 0)" "open_at guarded_store (Suc 0) (Suc 0) (Suc 0) TVoid []" "Suc 0 \<noteq> 0"
    "Suc 0 < length (guards (objects guarded_store))"
    "guards (objects guarded_store) ! Suc 0 = \<lparr>lg_own_lock = True, lg_mutex = Some (Suc 0)\<rparr>"
    by (simp_all add: guarded_store_def guarded_objs_def Promise_Create_eq empty_store_def mutex_held_def open_at_def)
  from moved_guard_releases_once [OF this, of 0 Plain finish "[]"] show ?thesis by auto
qed

end
