(* ===== verification/Pools.thy ===== *)
theory Pools
  imports Signals
begin

text \<open>
  Thread pools (include/promise/Pool.h) and message queues (include/promise/MessageQueue.h):
  Dispatch makes a promise and hands a task to the pool, which settles it. The base class
  \<^verbatim>\<open>::Pool\<close> is not part of the sources; its Dispatch is the parameter \<open>base\<close> of the definitions: it
  takes the optional time point and the task (a program) and returns whether it will run it. What is used of it is named: a base
  that \<open>refuses\<close> returns false and does nothing else; one that accepts runs the task later, on one of
  its threads, not before the time point.
\<close>

subsection \<open>Dispatch\<close>

definition QueueStopped :: "string \<Rightarrow> exc" where
  "QueueStopped n = Exc ''QueueStopped'' n"

text \<open>The end of every overload: the promise is rejected when the pool has been stopped.\<close>

definition dispatch_to :: "(int option \<Rightarrow> 'o prog \<Rightarrow> 'o prog) \<Rightarrow> int option \<Rightarrow> string \<Rightarrow> pid \<Rightarrow> jid \<Rightarrow> 'o prog \<Rightarrow> 'o prog" where
  "dispatch_to base until n p j task =
     thenP (base until task) (\<lambda>dispatched.
       if dispatched = VBool True then Return (VPromise p)
       else callP (OReject j (QueueStopped n)) (\<lambda>_. Return (VPromise p)))"

text \<open>Without a function: the task waits until the promise is awaited, then resolves it.\<close>

definition awaited_task :: "pid \<Rightarrow> rid \<Rightarrow> 'o prog" where
  "awaited_task p r = thenP (WPromise_WaitAwaited p (Some 0)) (\<lambda>_. callP (OResolve r VVoid) (\<lambda>_. Return VVoid))"

definition Pool_Dispatch :: "(int option \<Rightarrow> 'o prog \<Rightarrow> 'o prog) \<Rightarrow> int option \<Rightarrow> string \<Rightarrow> 'o prog" where
  "Pool_Dispatch base until n =
     callP (OCreate TVoid) (\<lambda>h. with_handles h (\<lambda>p r j. dispatch_to base until n p j (awaited_task p r)))"

text \<open>After a delay: \<open>now\<close> is what \<^verbatim>\<open>steady_clock::now\<close> returns.\<close>

definition Pool_Dispatch_delay :: "(int option \<Rightarrow> 'o prog \<Rightarrow> 'o prog) \<Rightarrow> int \<Rightarrow> int \<Rightarrow> string \<Rightarrow> 'o prog" where
  "Pool_Dispatch_delay base now delay n = Pool_Dispatch base (Some (now + delay)) n"

text \<open>With a function: its result or exception settles the promise.\<close>

definition function_task :: "rid \<Rightarrow> jid \<Rightarrow> 'o fn \<Rightarrow> 'o prog" where
  "function_task r j f = settle_with r j id (fn_body f [])"

definition Pool_Dispatch_function :: "(int option \<Rightarrow> 'o prog \<Rightarrow> 'o prog) \<Rightarrow> int option \<Rightarrow> string \<Rightarrow> 'o fn \<Rightarrow> 'o prog" where
  "Pool_Dispatch_function base until n f =
     callP (OCreate (return_or_void_t (fn_type f))) (\<lambda>h. with_handles h (\<lambda>p r j.
       dispatch_to base until n p j (function_task r j f)))"

text \<open>With a function that takes the handles: only an exception settles the promise here.\<close>

definition resolver_task :: "rid \<Rightarrow> jid \<Rightarrow> 'o fn \<Rightarrow> 'o prog" where
  "resolver_task r j f =
     bindP (fn_body f [VResolve r, VReject j]) (\<lambda>x. case x of
         Inr v \<Rightarrow> Return VVoid
       | Inl e \<Rightarrow> callP (OReject j e) (\<lambda>_. Return VVoid))"

definition Pool_Dispatch_resolver :: "(int option \<Rightarrow> 'o prog \<Rightarrow> 'o prog) \<Rightarrow> int option \<Rightarrow> string \<Rightarrow> cty \<Rightarrow> 'o fn \<Rightarrow> 'o prog" where
  "Pool_Dispatch_resolver base until n T f =
     callP (OCreate T) (\<lambda>h. with_handles h (\<lambda>p r j. dispatch_to base until n p j (resolver_task r j f)))"

text \<open>The overload for callables: it normalises and selects by the parameters of the function.\<close>

definition Pool_Dispatch_callable :: "(int option \<Rightarrow> 'o prog \<Rightarrow> 'o prog) \<Rightarrow> int option \<Rightarrow> string \<Rightarrow> 'o fn \<Rightarrow> 'o prog" where
  "Pool_Dispatch_callable base until n f =
     (let g = normalise f in
      case all_args_t (fn_type g) of
        Some [a, b] \<Rightarrow>
          (if IS_RESOLVER a \<and> IS_REJECTOR b
           then (case RESOLVE_TYPE a of
                   Some T \<Rightarrow> Pool_Dispatch_resolver base until n T g
                 | None \<Rightarrow> Return VVoid)
           else Return VVoid)
      | _ \<Rightarrow> Pool_Dispatch_function base until n g)"

definition Pool_Dispatch_callable_delay ::
    "(int option \<Rightarrow> 'o prog \<Rightarrow> 'o prog) \<Rightarrow> int \<Rightarrow> int \<Rightarrow> string \<Rightarrow> 'o fn \<Rightarrow> 'o prog" where
  "Pool_Dispatch_callable_delay base now delay n f = Pool_Dispatch_callable base (Some (now + delay)) n f"

text \<open>MessageQueue::Ensure forwards to Dispatch.\<close>

definition MessageQueue_Ensure :: "(int option \<Rightarrow> 'o prog \<Rightarrow> 'o prog) \<Rightarrow> int option \<Rightarrow> string \<Rightarrow> 'o fn \<Rightarrow> 'o prog" where
  "MessageQueue_Ensure base until n f = Pool_Dispatch_callable base until n f"

text \<open>MessageQueue::ThreadId is the first of the ids that the base class lists.\<close>

definition MessageQueue_ThreadId :: "tid list \<Rightarrow> tid option" where
  "MessageQueue_ThreadId thread_ids = (case thread_ids of [] \<Rightarrow> None | i # is \<Rightarrow> Some i)"

subsection \<open>A pool that has stopped\<close>




subsection \<open>A pool that runs its tasks\<close>

lemma function_task_run:
  assumes "open_at s p r j T as"
  obtains s' where "solo t s (Run Plain (function_task r j (pure_fn ty g)) # fs) s' (Awaiters as # Run Plain (Return VVoid) # fs)"
    "closed_at s' p T (stored T (g []))"
proof -
  obtain s' where "solo t s (Run Plain (bindP (callP (settle_op r j (g [])) (\<lambda>_. Return VVoid)) finish) # fs) s'
      (Awaiters as # Run Plain (bindP (Return VVoid) finish) # fs)" "closed_at s' p T (stored T (g []))" "keeps p s s'"
    using assms by (rule settle_bind)
  with that show thesis by (simp add: function_task_def settle_with_pure sum.map_id)
qed

text \<open>
  Dispatch of a function. The promise that Dispatch makes is pending when the task is handed to
  the pool; whichever thread runs the task later and however often the promise has been awaited by
  then, the promise gets the result or the exception of the function, and its awaiters run next on
  the thread of the pool.
\<close>

theorem Dispatch_function_settles:
  "\<exists>s1 p r j. solo t s (Run c (bindP (Pool_Dispatch_function base until n (pure_fn (TFunction T []) g)) K) # fs) s1
      (Run c (bindP (dispatch_to base until n p j (function_task r j (pure_fn (TFunction T []) g))) K) # fs) \<and>
    outcome_of s1 p = None \<and>
    (\<forall>t' s2 as. open_at s2 p r j T as \<longrightarrow>
      (\<exists>s3. solo t' s2 [Run Plain (function_task r j (pure_fn (TFunction T []) g))] s3 [Awaiters as, Run Plain (Return VVoid)] \<and>
        outcome_of s3 p = Some (stored T (g [])))) \<and> open_at s1 p r j T []"
proof -
  let ?f = "pure_fn (TFunction T []) g"
  have T: "return_or_void_t (fn_type ?f) = T" by (simp add: return_or_void_t_def return_t_def return_of.simps)
  let ?d = "\<lambda>p r j. dispatch_to base until n p j (function_task r j ?f)"
  obtain s1 p r j where s1: "solo t s (Run c (bindP (callP (OCreate T) (\<lambda>h. with_handles h ?d)) K) # fs) s1 (Run c (bindP (?d p r j) K) # fs)"
    "open_at s1 p r j T []" "\<forall>p. keeps p s s1" "p = length (promises s)"
    by (rule Create_bind)
  have "\<exists>s3. solo t' s2 [Run Plain (function_task r j ?f)] s3 [Awaiters as, Run Plain (Return VVoid)] \<and>
        outcome_of s3 p = Some (stored T (g []))" if "open_at s2 p r j T as" for t' s2 as
    using function_task_run [OF that] closed_outcome by metis
  then show ?thesis using s1(1,2) open_outcome [OF s1(2)] unfolding Pool_Dispatch_function_def T by blast
qed

text \<open>
  Dispatch without a function. Its task does not resolve the promise before somebody has
  registered with it: while the use count is zero the thread of the pool is blocked, and afterwards
  the task resolves it and the awaiters run on that thread.
\<close>

theorem Dispatch_waits_until_awaited:
  assumes "open_at s p r j TVoid as"
  shows "(p_use_count (promises s ! p) = 0 \<longrightarrow> step_frame t (Run Plain (awaited_task p r)) fs s = Blocked) \<and>
    (p_use_count (promises s ! p) \<noteq> 0 \<longrightarrow> (\<exists>s'. solo t s (Run Plain (awaited_task p r) # fs) s'
       (Awaiters as # Run Plain (Return VVoid) # fs) \<and> outcome_of s' p = Some (Inr VVoid)))"
proof (intro conjI impI)
  let ?k = "\<lambda>_. callP (settle_op r j (Inr VVoid)) (\<lambda>_. Return VVoid)"
  note o = assms [unfolded open_at_def]
  have task: "awaited_task p r = callP (OWaitAwaited p 0) ?k"
    by (simp add: awaited_task_def WPromise_WaitAwaited_def thenP_callP)
  show "step_frame t (Run Plain (awaited_task p r)) fs s = Blocked" if "p_use_count (promises s ! p) = 0"
    using o that by (simp add: task callP_def valid_promise_def with_shared_def)
  assume n: "p_use_count (promises s ! p) \<noteq> 0"
  then have "0 < p_use_count (promises s ! p)" by (simp add: word_gt_0)
  then have "exec_op t (OWaitAwaited p 0) s = Next (s, [], Inr VVoid)"
    using o by (simp add: valid_promise_def with_shared_def ret_def)
  from solo_bind_callP0 [OF this, of ?k finish "?k VVoid" Plain fs]
  have "solo t s (Run Plain (awaited_task p r) # fs) s (Run Plain (?k VVoid) # fs)" by (simp add: task)
  moreover obtain s' where s': "solo t s (Run Plain (bindP (?k VVoid) finish) # fs) s' (Awaiters as # Run Plain (bindP (Return VVoid) finish) # fs)"
    "closed_at s' p TVoid (stored TVoid (Inr VVoid))" "keeps p s s'"
    using assms by (rule settle_bind)
  ultimately show "\<exists>s'. solo t s (Run Plain (awaited_task p r) # fs) s' (Awaiters as # Run Plain (Return VVoid) # fs) \<and>
      outcome_of s' p = Some (Inr VVoid)"
    using solo_trans closed_outcome [OF s'(2)] by (fastforce simp: stored_def is_void_def)
qed

subsection \<open>Concrete pools\<close>



theorem Dispatch_function_settles_witness:
  "\<exists>(s1 :: unit store) p r j s3. open_at s1 p r j TInt [] \<and>
     solo 1 s1 [Run Plain (function_task r j (pure_fn (TFunction TInt []) (\<lambda>_. Inr (VInt 3))))] s3
       [Awaiters [], Run Plain (Return VVoid)] \<and> outcome_of s3 p = Some (Inr (VInt 3))"
proof -
  let ?f = "pure_fn (TFunction TInt []) (\<lambda>_. Inr (VInt 3))"
  have v: "stored TInt (Inr (VInt 3)) = Inr (VInt 3)" by code_simp
  obtain s1 :: "unit store" and p r j where s1: "open_at s1 p r j TInt []"
    "\<forall>t' (s2 :: unit store) as. open_at s2 p r j TInt as \<longrightarrow>
      (\<exists>s3. solo t' s2 [Run Plain (function_task r j ?f)] s3 [Awaiters as, Run Plain (Return VVoid)] \<and>
        outcome_of s3 p = Some (stored TInt (Inr (VInt 3))))"
    using Dispatch_function_settles [of 0 "fresh_store TInt" Plain "\<lambda>_ _. Return (VBool True)" None "''pool''" TInt
        "\<lambda>_. Inr (VInt 3)" finish "[]"] by blast
  from s1(2) [rule_format, OF s1(1), of 1] s1(1) show ?thesis unfolding v by blast
qed

theorem Dispatch_waits_until_awaited_witness:
  "step_frame 1 (Run Plain (awaited_task 0 0)) [] (fresh_store TVoid) = Blocked"
proof -
  have "p_use_count (promises (fresh_store TVoid) ! 0) = 0" by code_simp
  then show ?thesis using Dispatch_waits_until_awaited [OF fresh_store_open [of TVoid], of 1 "[]"] by blast
qed

end
