(* ===== verification/Resolvers.thy ===== *)
theory Resolvers
  imports Combinators
begin

text \<open>
  Coroutines that are given the handles Resolve and Reject of their promise (Promise<T, true>):
  their end does not settle the promise, the handles do (Handle::PromiseType::final\_suspend and
  Handle::OnResolved in include/promise/details/Handle.inl, Promise::CreateImpl in Promise.inl).
\<close>

subsection \<open>Descriptions of the promise while its coroutine runs\<close>

definition working_at :: "'o store \<Rightarrow> pid \<Rightarrow> rid \<Rightarrow> jid \<Rightarrow> cty \<Rightarrow> 'o awaiter list \<Rightarrow> bool" where
  "working_at s p r j T as \<longleftrightarrow>
     p < length (promises s) \<and> r < length (resolvers s) \<and> j < length (rejects s) \<and>
     p_type (promises s ! p) = T \<and> p_with_resolver (promises s ! p) \<and>
     p_handle (promises s ! p) = Running \<and> p_delayed_return (promises s ! p) = None \<and>
     p_resolver (promises s ! p) = Some r \<and> p_awaiters (promises s ! p) = as \<and>
     p_readers (promises s ! p) = [] \<and>
     r_type (resolvers s ! r) = T \<and> r_promise (resolvers s ! r) = Some p \<and>
     r_value (resolvers s ! r) = None \<and> r_exception (resolvers s ! r) = None \<and>
     \<not> r_resolved (resolvers s ! r) \<and>
     j_resolver (rejects s ! j) = r \<and> \<not> j_rejected (rejects s ! j)"

text \<open>Settled, but the coroutine still runs: the awaiters have to wait.\<close>

definition decided_at :: "'o store \<Rightarrow> pid \<Rightarrow> rid \<Rightarrow> cty \<Rightarrow> outcome \<Rightarrow> 'o awaiter list \<Rightarrow> bool" where
  "decided_at s p r T x as \<longleftrightarrow>
     closed_at s p T x \<and> p_with_resolver (promises s ! p) \<and> p_handle (promises s ! p) = Running \<and>
     p_delayed_return (promises s ! p) = None \<and> p_awaiters (promises s ! p) = as \<and>
     p_resolver (promises s ! p) = Some r \<and> r < length (resolvers s) \<and> r_resolved (resolvers s ! r)"

lemma working_outcome: "working_at s p r j T as \<Longrightarrow> outcome_of s p = None"
  by (auto simp: working_at_def outcome_of_def resolver_outcome_def)

subsection \<open>The start\<close>

abbreviation resolver_type :: "cty \<Rightarrow> cty list \<Rightarrow> cty" where
  "resolver_type T as \<equiv> TFunction (TIPromise T True) (TCRef (TResolve T) # TCRef TReject # as)"

lemma resolver_args_both [simp]: "resolver_args (resolver_type T as) r j = [VResolve r, VReject j]"
  by (simp add: resolver_args_def promise_defs)

lemma MakePromise_resolver:
  "MakePromise (Fn (resolver_type T as) b) vs =
     callP (OStart T True (\<lambda>r j. b (VResolve r # VReject j # vs)))
       (\<lambda>h. with_handles h (\<lambda>p r j. Return (VPromise p)))"
proof -
  have "MakePromise_overload (resolver_type T as) = MakeCoroutine"
    "return_or_void_t (resolver_type T as) = TIPromise T True"
    by (simp_all add: MakePromise_overload_def promise_defs function_constructible.simps)
  then show ?thesis
    unfolding MakePromise_def normalise.simps fn.sel Let_def MakeCoroutine_promise_def resolver_args_both
    by (simp add: promise_defs)
qed

lemma resolver_start:
  obtains s' p r j where
    "solo t s (Run c (bindP (MakePromise (Fn (resolver_type T as) b) vs) K) # fs) s'
       (Run (Coroutine p) (b (VResolve r # VReject j # vs)) # Run c (K (Inr (VPromise p))) # fs)"
    "working_at s' p r j T []" "\<forall>q. keeps q s s'" "p = length (promises s)"
proof -
  let ?f = "\<lambda>h. with_handles h (\<lambda>p r j. Return (VPromise p))"
  let ?b = "\<lambda>r j. b (VResolve r # VReject j # vs)"
  let ?p = "length (promises s)" and ?r = "length (resolvers s)" and ?j = "length (rejects s)"
  let ?x = "(new_promise T True (Initial (?b ?r ?j)))\<lparr>p_resolver := Some ?r, p_function := True\<rparr>"
  let ?s1 = "s\<lparr>promises := promises s @ [?x], resolvers := resolvers s @ [linked_resolver T ?p],
      rejects := rejects s @ [\<lparr>j_resolver = ?r, j_rejected = False\<rparr>]\<rparr>"
  let ?s2 = "upd_promise ?p (\<lambda>y. y\<lparr>p_handle := Running\<rparr>) ?s1"
  let ?h = "VTuple [VPromise ?p, VResolve ?r, VReject ?j]"
  have "exec_op t (OStart T True ?b) s = Next (?s1, [Resume ?p], Inr ?h)"
    by (simp add: CreateImpl_eq)
  from solo_bind_callP [OF this, of c ?f K fs]
  have "solo t s (Run c (bindP (callP (OStart T True ?b) ?f) K) # fs) ?s1
      (Resume ?p # Run c (K (Inr (VPromise ?p))) # fs)" by simp
  also have "solo t ?s1 (Resume ?p # Run c (K (Inr (VPromise ?p))) # fs) ?s2
      (Run (Coroutine ?p) (?b ?r ?j) # Run c (K (Inr (VPromise ?p))) # fs)"
    by (rule solo_one) (simp add: resume_def)
  finally have run: "solo t s (Run c (bindP (MakePromise (Fn (resolver_type T as) b) vs) K) # fs) ?s2
      (Run (Coroutine ?p) (?b ?r ?j) # Run c (K (Inr (VPromise ?p))) # fs)"
    unfolding MakePromise_resolver .
  moreover have "working_at ?s2 ?p ?r ?j T []" by (simp add: working_at_def)
  moreover have "\<forall>q. keeps q s ?s2" by (intro allI keeps_extend) auto
  ultimately show thesis using that by blast
qed

subsection \<open>Settling while the coroutine runs\<close>

lemma working_settle_frame:
  assumes "working_at s p r j T as" and s1: "s1 = upd_resolver r (\<lambda>x. x\<lparr>r_resolved := True\<rparr>) s \<or>
    s1 = upd_resolver r (\<lambda>x. x\<lparr>r_resolved := True\<rparr>) (upd_reject j (\<lambda>x. x\<lparr>j_rejected := True\<rparr>) s)"
  shows "\<exists>s'. step_frame t (Settle r x) fs s1 = Next (s', Awaiters [] # fs, []) \<and> decided_at s' p r T (stored T x) as"
proof -
  let ?s = "upd_resolver r (store_outcome x) s1"
  note w = assms(1) [unfolded working_at_def]
  have "step_frame t (Settle r x) fs s1 = Next (?s, Awaiters [] # fs, [])"
    using w s1 by (auto simp: settle_def with_unique_def Resolver_Done_def OnResolved_def Handle_Done_def Let_def)
  moreover have "decided_at ?s p r T (stored T x) as"
    using w s1 by (cases x) (auto simp: decided_at_def held_at_def stored_def)
  ultimately show ?thesis by blast
qed

lemma working_settle:
  assumes w: "working_at s p r j T as"
  shows "\<exists>s'. solo t s (Run c (bindP (callP (settle_op r j x) (\<lambda>_. Return VVoid)) K) # fs) s' (Run c (K (Inr VVoid)) # fs) \<and>
    decided_at s' p r T (stored T x) as"
proof -
  note w' = w [unfolded working_at_def]
  let ?s1 = "case x of Inr v \<Rightarrow> upd_resolver r (\<lambda>x. x\<lparr>r_resolved := True\<rparr>) s
    | Inl e \<Rightarrow> upd_resolver r (\<lambda>x. x\<lparr>r_resolved := True\<rparr>) (upd_reject j (\<lambda>x. x\<lparr>j_rejected := True\<rparr>) s)"
  let ?fs = "Run c (K (Inr VVoid)) # fs"
  have "exec_op t (settle_op r j x) s = Next (?s1, [Settle r x], Inr (VBool True))"
    using w' by (cases x) (simp_all add: resolve_op_def reject_op_def exchange_resolved_def exchange_rejected_def)
  moreover have s1: "?s1 = upd_resolver r (\<lambda>x. x\<lparr>r_resolved := True\<rparr>) s \<or>
      ?s1 = upd_resolver r (\<lambda>x. x\<lparr>r_resolved := True\<rparr>) (upd_reject j (\<lambda>x. x\<lparr>j_rejected := True\<rparr>) s)"
    by (cases x) simp_all
  moreover have "\<not> spawns (settle_op r j x)" by (cases x) simp_all
  ultimately have "solo t s (Run c (bindP (callP (settle_op r j x) (\<lambda>_. Return VVoid)) K) # fs) ?s1 (Settle r x # ?fs)"
    using solo_bind_callP [of t "settle_op r j x" s ?s1 "[Settle r x]" "VBool True" c "\<lambda>_. Return VVoid" K fs] by simp
  moreover obtain s' where s': "step_frame t (Settle r x) ?fs ?s1 = Next (s', Awaiters [] # ?fs, [])"
    "decided_at s' p r T (stored T x) as"
    using working_settle_frame [OF w s1, of t x ?fs] by blast
  ultimately show ?thesis using solo_trans [OF _ solo_trans [OF solo_one [OF s'(1)] solo_awaiters_nil]] s'(2) by blast
qed

subsection \<open>The end of the coroutine\<close>

lemma cleanup_decided:
  assumes d: "decided_at s p r T x as"
  shows "\<exists>s'. solo t s (FinalCleanup p # fs) s' (Awaiters as # fs) \<and> closed_at s' p T x"
proof -
  note d' = d [unfolded decided_at_def]
  let ?s1 = "upd_promise p (\<lambda>y. y\<lparr>p_handle := NoHandle, p_function := False\<rparr>) s"
  let ?s2 = "upd_promise p (\<lambda>y. y\<lparr>p_awaiters := [], p_self_owned := False\<rparr>) ?s1"
  have c1: "closed_at ?s1 p T x" "closed_at ?s2 p T x"
    using d' by (cases x; auto simp: held_at_def)+
  have "step_frame t (FinalCleanup p) fs s = Next (?s2, Awaiters as # fs, [])"
    using d' closed_IsDone [OF c1(1)]
    by (auto simp: final_cleanup_def with_unique_def OnResolved_def Handle_Done_def Let_def held_at_def)
  then show ?thesis using solo_one c1(2) by blast
qed

lemma decided_end:
  assumes d: "decided_at s p r T x as"
  shows "\<exists>s'. solo t s (Run (Coroutine p) (finish y) # fs) s' (Awaiters as # fs) \<and> closed_at s' p T x"
proof -
  note d' = d [unfolded decided_at_def held_at_def]
  show ?thesis
  proof (cases y)
    case (Inr v)
    let ?s1 = "upd_promise p (\<lambda>y. y\<lparr>p_delayed_return := None\<rparr>) s"
    have "solo t s (Run (Coroutine p) (finish y) # fs) ?s1 (FinalSuspend p # fs)"
      using d' by (intro solo_one) (simp add: Inr co_return_def void_coroutine_def Let_def)
    also have "solo t ?s1 (FinalSuspend p # fs) ?s1 (FinalCleanup p # fs)"
      using d' by (intro solo_one) (simp add: final_suspend_def void_coroutine_def Let_def)
    finally have run: "solo t s (Run (Coroutine p) (finish y) # fs) ?s1 (FinalCleanup p # fs)" .
    have "decided_at ?s1 p r T x as" using d by (cases x) (auto simp: decided_at_def held_at_def)
    from cleanup_decided [OF this] show ?thesis using solo_trans [OF run] by blast
  next
    case (Inl e)
    let ?s1 = "upd_promise p (\<lambda>y. y\<lparr>p_delayed_return := Some (Inl e)\<rparr>) s"
    let ?s2 = "upd_promise p (\<lambda>y. y\<lparr>p_delayed_return := None\<rparr>) ?s1"
    let ?s3 = "upd_resolver r (\<lambda>x. x\<lparr>r_resolved := True\<rparr>) ?s2"
    have "solo t s (Run (Coroutine p) (finish y) # fs) ?s1 (FinalSuspend p # fs)"
      using d' by (intro solo_one) (simp add: Inl co_return_def void_coroutine_def Let_def)
    also have "solo t ?s1 (FinalSuspend p # fs) ?s2 (Exchange r (Inl e) # FinalCleanup p # fs)"
      using d' by (intro solo_one) (simp add: final_suspend_def Let_def)
    also have "solo t ?s2 (Exchange r (Inl e) # FinalCleanup p # fs) ?s3 (FinalCleanup p # fs)"
      using d' by (intro solo_one) (simp add: resolve_op_def exchange_resolved_def)
    finally have run: "solo t s (Run (Coroutine p) (finish y) # fs) ?s3 (FinalCleanup p # fs)" .
    have "decided_at ?s3 p r T x as" using d by (cases x) (auto simp: decided_at_def held_at_def)
    from cleanup_decided [OF this] show ?thesis using solo_trans [OF run] by blast
  qed
qed

text \<open>Without having settled the promise: it stays pending, and its callable is released.\<close>

lemma working_end:
  assumes w: "working_at s p r j T as"
  shows "\<exists>s'. solo t s (Run (Coroutine p) (finish (Inr v)) # fs) s' fs \<and> open_at s' p r j T as \<and>
    \<not> p_function (promises s' ! p)"
proof -
  note w' = w [unfolded working_at_def]
  let ?s1 = "upd_promise p (\<lambda>y. y\<lparr>p_delayed_return := None\<rparr>) s"
  let ?s2 = "upd_promise p (\<lambda>y. y\<lparr>p_handle := NoHandle, p_function := False\<rparr>) ?s1"
  have "solo t s (Run (Coroutine p) (finish (Inr v)) # fs) ?s1 (FinalSuspend p # fs)"
    using w' by (intro solo_one) (simp add: co_return_def void_coroutine_def Let_def)
  also have "solo t ?s1 (FinalSuspend p # fs) ?s1 (FinalCleanup p # fs)"
    using w' by (intro solo_one) (simp add: final_suspend_def void_coroutine_def Let_def)
  also have "solo t ?s1 (FinalCleanup p # fs) ?s2 fs"
    using w' by (intro solo_one) (simp add: final_cleanup_def with_unique_def IsDone_def Let_def)
  finally have "solo t s (Run (Coroutine p) (finish (Inr v)) # fs) ?s2 fs" .
  moreover have "open_at ?s2 p r j T as" "\<not> p_function (promises ?s2 ! p)" using w' by (auto simp: open_at_def)
  ultimately show ?thesis by blast
qed

lemma working_throw:
  assumes w: "working_at s p r j T as"
  shows "\<exists>s'. solo t s (Run (Coroutine p) (finish (Inl e)) # fs) s' (Awaiters as # fs) \<and> closed_at s' p T (Inl e)"
proof -
  note w' = w [unfolded working_at_def]
  let ?s1 = "upd_promise p (\<lambda>y. y\<lparr>p_delayed_return := Some (Inl e)\<rparr>) s"
  let ?s2 = "upd_promise p (\<lambda>y. y\<lparr>p_delayed_return := None\<rparr>) ?s1"
  let ?s3 = "upd_resolver r (\<lambda>x. x\<lparr>r_resolved := True\<rparr>) ?s2"
  have "solo t s (Run (Coroutine p) (finish (Inl e)) # fs) ?s1 (FinalSuspend p # fs)"
    using w' by (intro solo_one) (simp add: co_return_def void_coroutine_def Let_def)
  also have "solo t ?s1 (FinalSuspend p # fs) ?s2 (Exchange r (Inl e) # FinalCleanup p # fs)"
    using w' by (intro solo_one) (simp add: final_suspend_def Let_def)
  also have "solo t ?s2 (Exchange r (Inl e) # FinalCleanup p # fs) ?s3 (Settle r (Inl e) # FinalCleanup p # fs)"
    using w' by (intro solo_one) (simp add: resolve_op_def exchange_resolved_def)
  finally have run: "solo t s (Run (Coroutine p) (finish (Inl e)) # fs) ?s3 (Settle r (Inl e) # FinalCleanup p # fs)" .
  have "working_at ?s2 p r j T as" using w by (auto simp: working_at_def)
  then obtain s4 where s4: "step_frame t (Settle r (Inl e)) (FinalCleanup p # fs) ?s3 = Next (s4, Awaiters [] # FinalCleanup p # fs, [])"
    "decided_at s4 p r T (stored T (Inl e)) as"
    using working_settle_frame [of ?s2 p r j T as ?s3] by blast
  obtain s5 where s5: "solo t s4 (FinalCleanup p # fs) s5 (Awaiters as # fs)" "closed_at s5 p T (stored T (Inl e))"
    using cleanup_decided [OF s4(2)] by blast
  show ?thesis
    using solo_trans [OF run solo_trans [OF solo_one [OF s4(1)] solo_trans [OF solo_awaiters_nil s5(1)]]] s5(2)
    by (auto simp: stored_def)
qed

text \<open>
  C20. The awaiters of a resolver coroutine. They run when the promise is settled and the coroutine
  has ended, whichever comes last: settled while the coroutine runs, by any thread, the promise has
  its outcome but keeps its awaiters until the coroutine ends, however it ends; ended first, it is
  pending until one of the handles settles it; an exception that leaves the coroutine settles it.
\<close>

theorem resolver_coroutine_defers_awaiters:
  assumes "working_at s p r j T as"
  shows "(\<exists>s1 s2. solo t s (Run c (bindP (callP (settle_op r j x) (\<lambda>_. Return VVoid)) K) # fs) s1 (Run c (K (Inr VVoid)) # fs) \<and>
       outcome_of s1 p = Some (stored T x) \<and> p_awaiters (promises s1 ! p) = as \<and>
       solo t' s1 (Run (Coroutine p) (finish y) # fs') s2 (Awaiters as # fs') \<and> outcome_of s2 p = Some (stored T x)) \<and>
    (\<exists>s1 s2. solo t' s (Run (Coroutine p) (finish (Inr v)) # fs') s1 fs' \<and>
       outcome_of s1 p = None \<and> p_awaiters (promises s1 ! p) = as \<and>
       solo t s1 (Run c (bindP (callP (settle_op r j x) (\<lambda>_. Return VVoid)) K) # fs) s2
         (Awaiters as # Run c (K (Inr VVoid)) # fs) \<and> outcome_of s2 p = Some (stored T x)) \<and>
    (\<exists>s1. solo t' s (Run (Coroutine p) (finish (Inl e)) # fs') s1 (Awaiters as # fs') \<and> outcome_of s1 p = Some (Inl e))"
proof (intro conjI)
  obtain s1 where s1: "solo t s (Run c (bindP (callP (settle_op r j x) (\<lambda>_. Return VVoid)) K) # fs) s1 (Run c (K (Inr VVoid)) # fs)"
    "decided_at s1 p r T (stored T x) as"
    using working_settle [OF assms] by blast
  then show "\<exists>s1 s2. solo t s (Run c (bindP (callP (settle_op r j x) (\<lambda>_. Return VVoid)) K) # fs) s1 (Run c (K (Inr VVoid)) # fs) \<and>
       outcome_of s1 p = Some (stored T x) \<and> p_awaiters (promises s1 ! p) = as \<and>
       solo t' s1 (Run (Coroutine p) (finish y) # fs') s2 (Awaiters as # fs') \<and> outcome_of s2 p = Some (stored T x)"
    using decided_end [OF s1(2), of t' y fs'] closed_outcome unfolding decided_at_def by blast
next
  obtain s1 where s1: "solo t' s (Run (Coroutine p) (finish (Inr v)) # fs') s1 fs'" "open_at s1 p r j T as"
    using working_end [OF assms] by blast
  obtain s2 where s2: "solo t s1 (Run c (bindP (callP (settle_op r j x) (\<lambda>_. Return VVoid)) K) # fs) s2
      (Awaiters as # Run c (bindP (Return VVoid) K) # fs)" "closed_at s2 p T (stored T x)" "keeps p s1 s2"
    using s1(2) by (rule settle_bind)
  have "p_awaiters (promises s1 ! p) = as" using s1(2) by (simp add: open_at_def)
  then show "\<exists>s1 s2. solo t' s (Run (Coroutine p) (finish (Inr v)) # fs') s1 fs' \<and>
       outcome_of s1 p = None \<and> p_awaiters (promises s1 ! p) = as \<and>
       solo t s1 (Run c (bindP (callP (settle_op r j x) (\<lambda>_. Return VVoid)) K) # fs) s2
         (Awaiters as # Run c (K (Inr VVoid)) # fs) \<and> outcome_of s2 p = Some (stored T x)"
    using s1 s2(1) open_outcome [OF s1(2)] closed_outcome [OF s2(2)] by auto
next
  show "\<exists>s1. solo t' s (Run (Coroutine p) (finish (Inl e)) # fs') s1 (Awaiters as # fs') \<and> outcome_of s1 p = Some (Inl e)"
    using working_throw [OF assms, of t' e fs'] closed_outcome by blast
qed

text \<open>A coroutine that runs, with one function registered with its promise.\<close>

definition working_store :: "unit store" where
  "working_store = upd_promise 0 (\<lambda>x. x\<lparr>p_handle := Running, p_function := True, p_use_count := 1,
     p_awaiters := [AFunction 1 (Return VVoid)]\<rparr>) (fresh_store TInt)"

lemma working_store_at: "working_at working_store 0 0 0 TInt [AFunction 1 (Return VVoid)]"
  by (simp add: working_store_def fresh_store_def Promise_Create_eq empty_store_def working_at_def)

theorem resolver_coroutine_defers_awaiters_witness:
  "\<exists>s1 s2. solo 1 working_store [Run Plain (bindP (callP (settle_op 0 0 (Inr (VInt 7))) (\<lambda>_. Return VVoid)) finish)] s1 [Run Plain (Return VVoid)] \<and>
     outcome_of s1 0 = Some (Inr (VInt 7)) \<and> p_awaiters (promises s1 ! 0) = [AFunction 1 (Return VVoid)] \<and>
     solo 0 s1 [Run (Coroutine 0) (Throw (Exc ''E'' ''late''))] s2 [Awaiters [AFunction 1 (Return VVoid)]] \<and>
     outcome_of s2 0 = Some (Inr (VInt 7))"
proof -
  have y: "stored TInt (Inr (VInt 7)) = Inr (VInt 7)" by code_simp
  have "\<exists>s1 s2. solo 1 working_store [Run Plain (bindP (callP (settle_op 0 0 (Inr (VInt 7))) (\<lambda>_. Return VVoid)) finish)] s1 [Run Plain (finish (Inr VVoid))] \<and>
     outcome_of s1 0 = Some (stored TInt (Inr (VInt 7))) \<and> p_awaiters (promises s1 ! 0) = [AFunction 1 (Return VVoid)] \<and>
     solo 0 s1 [Run (Coroutine 0) (finish (Inl (Exc ''E'' ''late'')))] s2 [Awaiters [AFunction 1 (Return VVoid)]] \<and>
     outcome_of s2 0 = Some (stored TInt (Inr (VInt 7)))"
    using resolver_coroutine_defers_awaiters [OF working_store_at, of 1 Plain "Inr (VInt 7)" finish "[]" 0
        "Inl (Exc ''E'' ''late'')" "[]"] by blast
  then show ?thesis unfolding y finish.simps .
qed

end
