(* ===== verification/Proxy.thy ===== *)
theory Proxy
  imports Pools Resolvers
begin






subsection \<open>The coroutine of a call\<close>










subsection \<open>The promise of a call\<close>


subsection \<open>Concrete queues\<close>



end
