(* ===== verification/Memcheck.thy ===== *)
theory Memcheck
  imports Prelude
begin

text \<open>
  The leak check (Refcount and mmchk::Check in src/Memcheck.cpp, the static members in
  src/Promise.cpp), as it is compiled with PROMISE\_MEMCHECK and PROMISE\_MEMCHECK\_FULL: a counter
  and a set of addresses that the constructor and the destructor of every promise keep, and the
  check at the end of the program. The counter is a 64-bit atomic, so the constructors and
  destructors of all threads act on it in some order.
\<close>

record memcheck =
  mc_counter :: "64 word"
  mc_ptrs :: "nat set"

definition no_promises :: memcheck where
  "no_promises = \<lparr>mc_counter = 0, mc_ptrs = {}\<rparr>"

definition Refcount_new :: "nat \<Rightarrow> memcheck \<Rightarrow> memcheck" where
  "Refcount_new p m = m\<lparr>mc_counter := mc_counter m + 1, mc_ptrs := insert p (mc_ptrs m)\<rparr>"

definition Refcount_destroy :: "nat \<Rightarrow> memcheck \<Rightarrow> memcheck" where
  "Refcount_destroy p m = m\<lparr>mc_counter := mc_counter m - 1, mc_ptrs := mc_ptrs m - {p}\<rparr>"

text \<open>The destructor of the scope guard: what it reports before its assertion fails.\<close>

definition Check_destroy :: "memcheck \<Rightarrow> (64 word \<times> nat set) option" where
  "Check_destroy m = (if mc_counter m \<noteq> 0 then Some (mc_counter m, mc_ptrs m) else None)"

subsection \<open>Lifetimes\<close>

text \<open>A promise is created at an address that no living promise has, and destroyed once.\<close>

datatype lifetime = Made nat | Destroyed nat

fun living :: "nat set \<Rightarrow> lifetime list \<Rightarrow> nat set option" where
  "living L [] = Some L"
| "living L (Made p # es) = (if p \<in> L then None else living (insert p L) es)"
| "living L (Destroyed p # es) = (if p \<in> L then living (L - {p}) es else None)"

fun tracked :: "memcheck \<Rightarrow> lifetime list \<Rightarrow> memcheck" where
  "tracked m [] = m"
| "tracked m (Made p # es) = tracked (Refcount_new p m) es"
| "tracked m (Destroyed p # es) = tracked (Refcount_destroy p m) es"

definition counts :: "memcheck \<Rightarrow> nat set \<Rightarrow> bool" where
  "counts m L \<longleftrightarrow> finite L \<and> mc_ptrs m = L \<and> mc_counter m = of_nat (card L)"

lemma counts_new: "counts m L \<Longrightarrow> p \<notin> L \<Longrightarrow> counts (Refcount_new p m) (insert p L)"
  by (simp add: counts_def Refcount_new_def)

lemma counts_destroy:
  assumes "counts m L" "p \<in> L"
  shows "counts (Refcount_destroy p m) (L - {p})"
proof -
  have "card L = Suc (card (L - {p}))" using assms by (simp only: counts_def card_Suc_Diff1)
  then show ?thesis using assms by (simp add: counts_def Refcount_destroy_def)
qed

lemma counts_tracked: "counts m L \<Longrightarrow> living L es = Some M \<Longrightarrow> counts (tracked m es) M"
  by (induction m es arbitrary: L rule: tracked.induct)
    (auto intro: counts_new counts_destroy split: if_splits)

text \<open>
  C40. The leak check. After any sequence of creations and destructions the set holds exactly the
  addresses of the promises alive, the counter is their number modulo $2^{64}$, and, as long as
  fewer than $2^{64}$ are alive, the check reports a leak, with that number and those addresses, if
  and only if a promise is still alive.
\<close>

theorem Memcheck_reports_leaks:
  assumes "living {} es = Some L"
  shows "mc_ptrs (tracked no_promises es) = L \<and>
    unat (mc_counter (tracked no_promises es)) = card L mod 2 ^ 64 \<and>
    (card L < 2 ^ 64 \<longrightarrow>
       Check_destroy (tracked no_promises es) = (if L = {} then None else Some (of_nat (card L), L)))"
proof -
  have c: "counts (tracked no_promises es) L"
    using assms by (intro counts_tracked [of _ "{}"]) (simp_all add: counts_def no_promises_def)
  then have u: "unat (mc_counter (tracked no_promises es)) = card L mod 2 ^ 64"
    by (simp add: counts_def unat_of_nat)
  have "Check_destroy (tracked no_promises es) = (if L = {} then None else Some (of_nat (card L), L))" if "card L < 2 ^ 64"
  proof -
    have "mc_counter (tracked no_promises es) = 0 \<longleftrightarrow> card L = 0"
      using u that by (simp add: unat_eq_0 [symmetric])
    then show ?thesis using c by (auto simp: Check_destroy_def counts_def)
  qed
  then show ?thesis using c u by (simp add: counts_def)
qed

theorem Memcheck_reports_leaks_witness:
  "Check_destroy (tracked no_promises [Made 8, Made 16, Destroyed 8]) = Some (1, {16})"
proof -
  have "living {} [Made 8, Made 16, Destroyed 8] = Some {16}" by auto
  from Memcheck_reports_leaks [OF this] show ?thesis by simp
qed

end
