(* ===== verification/Spec2Isabelle.thy ===== *)
theory Spec2Isabelle
  imports Samples Finite_Runs Registration Wrapper Ownership Typing Racing Gathering Nested Following Handles Fluent Condition SignalOrder LockOrder Guards Pools Resolvers Proxy Memcheck
begin

text \<open>
  JSProCpp, a C++ library of promises and coroutines: the parts that decide when a promise settles,
  who is resumed by it, and what the chaining functions and the classes built on promises do.

  THE PROGRAM. A promise (details::Promise, details::Handle) owns at most one coroutine and a list
  of awaiters, which are coroutine handles or functions. Its value or exception is kept by a
  resolver (details::Resolver), which the handles Resolve and Reject reach; an atomic flag decides
  which of them wins. Settling a promise runs its awaiters on the stack of the thread that settled
  it, once the coroutine of the promise has ended. Then, Catch, Finally, All and Race are awaiters
  and coroutines that the library itself writes. WPromise is the handle users hold. Mutex,
  LockGuard, CVPromise and StatePromise are classes whose state is a few promises behind a mutex of
  their own; Pool, MessageQueue and MessageQueueProxy settle promises from threads; Memcheck counts
  promise objects.

  THEORIES, in the order of the code's layers. A theory's own introduction says more.

  Prelude: lists updated by index, sums, the names of addresses.
  Concepts: C++ types as data and the metafunctions of core/concepts.inl and details/helpers.inl.
  Values: run-time values, their types, implicit conversions.
  Program: C++ code that calls the library, as trees of calls (prog) with a parameter for the state
  of client objects; a callable is a type with a body (fn).
  Store: the heap (promise, resolver, reject\_handle in lists, an address is an index) and the
  sections of code under one lock: Create, Await, UnAwait, OnResolved, Detach, the reads.
  Machine: threads as stacks of frames; exec\_op is one call, step\_frame one step of a frame
  (resume, await\_suspend, final\_suspend, the loop of OnResolved, the locked part of Resolve).
  Invariant, Evolution, Preservation, Safety: the invariant of the machine, how a step may change
  the heap, one preservation lemma per kind of frame, and the two ledgers (who may resume a
  coroutine, who may settle a resolver) as interpretations of one locale.
  Guarantees, Completion, Samples: the abstract life of a promise and its refinement, stability of
  outcomes, the assertions that can fail, lost wake-ups, progress; concrete runs.
  Finite\_Runs: termination, by a multiset order on what is left to run.
  Registration: use counts and ids of awaiters as 64-bit words.
  Chain: MakePromise, Then, Catch, Finally, All and Race as programs over the atomic calls.
  Laws: rules for one thread alone (solo) on pending (open\_at) and settled (closed\_at) promises,
  and the contracts of the chaining functions as two locales, one extending the other, with
  interpretations for Then, Catch and Finally with plain callbacks.
  Nested, Following: callbacks that are promise functions, run to their end by the continuation or
  waiting for another promise when it returns.
  Fluent: chains of calls on temporaries, of any length.
  Wrapper: WPromise and the type-erased interface.
  Handles: Resolve and Reject, several calls on them, factories and deduction guides, promise
  functions given to All, Race and co\_await, VPromise.
  Resolvers: coroutines that take the handles of their own promise.
  Ownership: self ownership and the callable of a promise on every reachable heap; the destructors of
  WPromise, Promise and Handle and their assertions; starting a promise twice.
  Combinators, Typing, Racing, Gathering: All and Race on settled promises, the types of what is
  stored, Race and All on pending promises that settle in any order.
  Sync: Mutex, LockGuard, CVPromise, StatePromise as programs over a record of their objects.
  Locks, Guards, LockOrder: the mutex alone, moved guards, and any number of interleaved callers
  as a refinement of a fair queue.
  Signals: condition variable and state promise, with a locale for the two ways of signalling.
  SignalOrder: any number of interleaved Wait, Notify and Reject as a refinement of a board of signals.
  Condition: waiting on the condition variable with a lock, across CVPromise, LockGuard and Mutex.
  Pools, Proxy: Dispatch and the call through a message queue over base classes that are parameters.
  Memcheck: the counter and the set of the leak check.

  MODELLING DECISIONS. A section of code under one mutex of a promise, and one atomic exchange, is
  one step; a lock is kept over several steps (p\_readers) exactly where the source keeps it while
  it calls something. Locking a mutex the thread already holds is the fault RecursiveLock; a
  mutex another thread holds blocks. Failed assertions, null dereferences and exceptions that leave
  a thread are faults, so every early end of the code is a branch. The use count is a 64-bit word.
  Every thread may step next, so properties over reachable machines hold for every interleaving of
  the sections; the laws over solo describe one thread between steps of others. The arguments of a
  pack are evaluated from left to right. A condition variable's notify is implicit: WaitDone and
  WaitAwaited are enabled when their condition holds. WaitAwaited without a count first reads the
  count. Sections under the mutexes of Mutex, CVPromise and StatePromise, and unlocked accesses to
  their members, are steps on the record of client objects; Resolved and Rejected of CVPromise
  read the promise and then query it, two steps. Handle::Done and IsDone are both kept.
  Bodies of threads, callbacks and coroutines are well-founded trees: user code that loops for ever
  inside one body cannot be written in the model, so termination says that the library adds no
  divergence of its own. The laws of Then, Catch and Finally take callbacks that compute an outcome
  from their arguments without calling the library (pure\_fn), coroutines that do (coroutine\_fn) or
  one that awaits a further promise (theory Following); the definitions take any. Which
  exceptions a handler's parameter catches is the parameter isa of Catch. In the theory of the lock
  order the test of the promise a caller waits for and the section that takes the lock are one step
  (a settled promise stays settled), as are, there and in SignalOrder, the flag and the store of the
  private resolver.

  BOUNDS. No fuel is used: the machine's steps are total functions and runs are relations or
  schedules of given length. Use counts wrap at $2^{64}$; the bounds hold for the first $2^{64} - 1$ steps.

  THE PROPERTIES are numbered C1 to C40 in the theories, most important first: the life of promises
  on every interleaving (refinement, stability, lost wake-ups, chains of calls, ownership, assertions,
  progress, termination), the fair mutex, the signals of the condition
  variable, calls on the handles, Race and All in any order, waiting
  with a lock, the order independence of the chaining functions, the condition variable and the state
  promise, guards, types of results, pools, the leak check. Some theorems and lemmas state what the
  code does where its comments or its intent say otherwise (Awaiters\_locks\_twice,
  Finally\_void\_callback\_locked, pending\_guard\_unlocks\_holder, StatePromise\_destructor\_is\_not\_Done,
  WPromise\_destructor\_ignores\_coroutine, Promise\_start\_resolver\_fails, handle\_bools).

  NOT MODELLED. Lifetimes: shared\_ptr counts, so when a promise is destroyed; destructors of
  temporaries and captures and the waits that destructors of WPromise make at the end of a scope are
  not inserted into the programs (WPromise\_destroy, Promise\_destroy and Handle\_destroy model the
  destructors themselves; self ownership is tracked; a freed address is not used again). Memory
  order below sequential consistency. User-defined conversions, since their code is the user's. The
  thread pool of cpp\_utils is the parameter base of Pool\_Dispatch, with an optional time point; the
  class template that MessageQueueProxy extends and the object it calls are parameters as well.
  Copies and moves of WPromise are the identity on addresses. What the leak check prints. Class
  declarations whose members are defined elsewhere, explicit instantiations, umbrella headers, tests
  and build files have no behaviour of their own.
\<close>

end
